(* ===== verification/Prelude.thy ===== *)
theory Prelude
  imports Main "HOL-Library.Word" "HOL-Library.Multiset"
begin

text \<open>
  What the component theories share: the faults a C program can run into (as values),
  sequencing of computations that may fault, the machine types of the sources
  (\<open>size_t\<close> on the LP64 targets of the program, \<open>uint32_t\<close>), character
  constants, C strings inside character arrays, and generic lemmas on lists and words.
\<close>

section \<open>Collections of facts\<close>

named_theorems res_simps \<open>rewriting of computations that may fault\<close>
named_theorems word_pos \<open>positions in buffers kept as machine words\<close>
named_theorems cstr_simps \<open>C strings inside character arrays\<close>

section \<open>Faults as values\<close>

text \<open>
  \<open>Out_Of_Bounds\<close>: an access outside the object a pointer points into.
  \<open>Assertion_Failed\<close>: a failed \<open>assert\<close> (the program is built without NDEBUG).
  \<open>Use_After_Free\<close>: an access to an object that was freed.
  \<open>Panicked\<close>: the program called \<open>panic\<close> (main.c) with this message and left
  through \<open>_exit(1)\<close>.
\<close>

datatype c_fault = Out_Of_Bounds | Assertion_Failed | Use_After_Free | Panicked string

type_synonym 'a c_res = "c_fault + 'a"

fun res_bind :: "'e + 'a \<Rightarrow> ('a \<Rightarrow> 'e + 'b) \<Rightarrow> 'e + 'b" where
  "res_bind (Inl e) f = Inl e"
| "res_bind (Inr x) f = f x"

fun res_ok :: "'e + 'a \<Rightarrow> bool" where
  "res_ok (Inl _) = False"
| "res_ok (Inr _) = True"

section \<open>Answers of the environment\<close>

text \<open>
  Whether a call into the operating system or the allocator succeeds is not up to the
  program. Where a state or a function carries a list of such answers, each call takes the
  next one; a call with no answer left succeeds. Theorems quantify over the lists.
\<close>

fun pop_ok :: "bool list \<Rightarrow> bool \<times> bool list" where
  "pop_ok [] = (True, [])"
| "pop_ok (b # bs) = (b, bs)"

section \<open>Machine types and characters\<close>

type_synonym size_t = "64 word"
type_synonym uint32_t = "32 word"

abbreviation NUL :: char where "NUL \<equiv> CHR 0x00"
abbreviation newline :: char where "newline \<equiv> CHR 0x0A"
abbreviation squote :: char where "squote \<equiv> CHR 0x27"
abbreviation dquote :: char where "dquote \<equiv> CHR 0x22"

text \<open>\<open>isspace\<close> in the C locale: blank, tab, newline, vertical tab, form feed, return.\<close>

definition is_space :: "char \<Rightarrow> bool" where
  "is_space c \<longleftrightarrow> c = CHR '' '' \<or> (9 \<le> (of_char c :: nat) \<and> (of_char c :: nat) \<le> 13)"

section \<open>C strings in character arrays\<close>

text \<open>The string a \<open>char *\<close> at offset \<open>i\<close> of the array \<open>buf\<close> denotes.\<close>

definition cstring :: "char list \<Rightarrow> string" where
  "cstring buf = takeWhile (\<lambda>c. c \<noteq> NUL) buf"

definition cstring_at :: "char list \<Rightarrow> nat \<Rightarrow> string" where
  "cstring_at buf i = cstring (drop i buf)"

text \<open>\<open>memmove(&buf[dst], &buf[src], n)\<close> inside one array.\<close>

definition memmove :: "char list \<Rightarrow> nat \<Rightarrow> nat \<Rightarrow> nat \<Rightarrow> char list c_res" where
  "memmove buf dst src n =
     (if dst + n \<le> length buf \<and> src + n \<le> length buf
      then Inr (take dst buf @ take n (drop src buf) @ drop (dst + n) buf)
      else Inl Out_Of_Bounds)"

text \<open>\<open>buf[i] = c\<close>.\<close>

definition store :: "char list \<Rightarrow> nat \<Rightarrow> char \<Rightarrow> char list c_res" where
  "store buf i c = (if i < length buf then Inr (buf[i := c]) else Inl Out_Of_Bounds)"

text \<open>Reading \<open>buf[i]\<close>.\<close>

definition load :: "char list \<Rightarrow> nat \<Rightarrow> char c_res" where
  "load buf i = (if i < length buf then Inr (buf ! i) else Inl Out_Of_Bounds)"

text \<open>
  \<open>strcpy\<close> into an array of \<open>room\<close> characters, whose value is the string it then holds: the
  string and its NUL must fit.
\<close>

definition strcpy :: "nat \<Rightarrow> string \<Rightarrow> string c_res" where
  "strcpy room s = (if length s < room then Inr s else Inl Out_Of_Bounds)"

section \<open>Lemmas\<close>

lemma res_bind_Inr_iff [res_simps]:
  "res_bind m f = Inr y \<longleftrightarrow> (\<exists>x. m = Inr x \<and> f x = Inr y)"
  by (cases m) auto

lemma res_bind_assoc: "res_bind (res_bind m f) g = res_bind m (\<lambda>x. res_bind (f x) g)"
  by (cases m) auto

lemma res_ok_iff: "res_ok m \<longleftrightarrow> (\<exists>x. m = Inr x)"
  by (cases m) auto

lemma res_bind_cong [fundef_cong]:
  "m = m' \<Longrightarrow> (\<And>x. m' = Inr x \<Longrightarrow> f x = g x) \<Longrightarrow> res_bind m f = res_bind m' g"
  by (cases m') auto

text \<open>A word below another one can be incremented without wrapping.\<close>

lemma unat_plus_one [word_pos]: "(x :: size_t) < y \<Longrightarrow> unat (x + 1) = Suc (unat x)"
  using unsigned_less [of y, where ?'a = nat] by (simp add: word_less_nat_alt unat_word_ariths)

lemma unat_minus_one_pos [word_pos]: "(x :: size_t) < y \<Longrightarrow> unat (y - 1) = unat y - 1"
  by (metis unat_minus_one word_not_simps(1))

lemma word_less_unat [word_pos]: "(x :: size_t) < y \<longleftrightarrow> unat x < unat y"
  by (rule word_less_nat_alt)

lemma unat_of_nat_small: "n < 2 ^ 64 \<Longrightarrow> unat (of_nat n :: size_t) = n"
  by (simp add: unat_of_nat take_bit_nat_eq_self)

lemma cstring_append_NUL [cstr_simps]: "NUL \<notin> set s \<Longrightarrow> cstring (s @ NUL # r) = s"
  unfolding cstring_def by (induction s) auto

lemma cstring_no_NUL [cstr_simps]: "NUL \<notin> set (cstring s)"
  unfolding cstring_def by (induction s) auto

lemma cstring_id [cstr_simps]: "NUL \<notin> set s \<Longrightarrow> cstring s = s"
  by (auto simp: cstring_def)

lemma cstring_at_append [cstr_simps]:
  "NUL \<notin> set s \<Longrightarrow> length p = i \<Longrightarrow> cstring_at (p @ s @ NUL # r) i = s"
  by (auto simp: cstring_at_def cstring_append_NUL)

lemma drop_length_Cons: "drop (length q) (c # q @ r) = last (c # q) # r"
  by (induction q arbitrary: c) auto

text \<open>Moving everything behind a character one place down removes that character.\<close>

lemma memmove_append:
  assumes "length p = dst" "n = length q" "src = Suc dst"
  shows "memmove (p @ c # q @ r) dst src n = Inr (p @ q @ last (c # q) # r)"
  using assms by (auto simp: memmove_def drop_length_Cons simp del: last.simps)

lemma list_update_append_hd:
  "length p = i \<Longrightarrow> (p @ c # r)[i := d] = p @ d # r"
  by auto

section \<open>Ordered insertion\<close>

text \<open>
  The contract of an insertion that keeps a list ordered by a key and puts a new element
  behind the elements of the same key. Inserting one by one is then the stable sort.
\<close>

lemma dropWhile_ge_sorted:
  "sorted (map f xs) \<Longrightarrow> x \<in> set (dropWhile (\<lambda>x. f x \<le> k) xs) \<Longrightarrow> k < f x"
  for f :: "'a \<Rightarrow> 'k :: linorder"
  by (induction xs) (auto split: if_splits)

lemma takeWhile_le: "x \<in> set (takeWhile (\<lambda>x. f x \<le> k) xs) \<Longrightarrow> f x \<le> k"
  for f :: "'a \<Rightarrow> 'k :: linorder"
  by (auto dest: set_takeWhileD)

locale ordered_insert =
  fixes key :: "'a \<Rightarrow> 'k :: linorder"
    and ins :: "'a list \<Rightarrow> 'a \<Rightarrow> 'a list"
  assumes ins_eq: "sorted (map key xs) \<Longrightarrow>
    ins xs e = takeWhile (\<lambda>x. key x \<le> key e) xs @ e # dropWhile (\<lambda>x. key x \<le> key e) xs"
begin

lemma sorted_ins: "sorted (map key xs) \<Longrightarrow> sorted (map key (ins xs e))"
proof -
  assume sorted: "sorted (map key xs)"
  let ?lo = "takeWhile (\<lambda>x. key x \<le> key e) xs" and ?hi = "dropWhile (\<lambda>x. key x \<le> key e) xs"
  have "sorted (map key (?lo @ ?hi))" using sorted by simp
  then have "sorted (map key ?lo)" "sorted (map key ?hi)" by (simp_all only: map_append sorted_append)
  moreover have "key x \<le> key e" if "x \<in> set ?lo" for x using that by (rule takeWhile_le)
  moreover have "key e < key x" if "x \<in> set ?hi" for x
    using sorted that by (rule dropWhile_ge_sorted)
  ultimately show ?thesis using sorted by (fastforce simp: ins_eq sorted_append)
qed

lemma mset_ins: "sorted (map key xs) \<Longrightarrow> mset (ins xs e) = add_mset e (mset xs)"
proof -
  have "mset xs = mset (takeWhile (\<lambda>x. key x \<le> key e) xs) + mset (dropWhile (\<lambda>x. key x \<le> key e) xs)"
    by (metis mset_append takeWhile_dropWhile_id)
  then show "sorted (map key xs) \<Longrightarrow> ?thesis" by (simp add: ins_eq)
qed

lemma filter_ins:
  assumes "sorted (map key xs)"
  shows "filter (\<lambda>x. key x = k) (ins xs e) = filter (\<lambda>x. key x = k) xs @ (if key e = k then [e] else [])"
proof -
  have "filter (\<lambda>x. key x = k) (dropWhile (\<lambda>x. key x \<le> key e) xs) = []" if "key e = k"
    using assms that by (auto simp: filter_empty_conv dest: dropWhile_ge_sorted)
  moreover have "filter (\<lambda>x. key x = k) xs =
      filter (\<lambda>x. key x = k) (takeWhile (\<lambda>x. key x \<le> key e) xs) @
      filter (\<lambda>x. key x = k) (dropWhile (\<lambda>x. key x \<le> key e) xs)"
    by (metis filter_append takeWhile_dropWhile_id)
  ultimately show ?thesis using assms by (simp add: ins_eq)
qed

lemma foldl_ins_props:
  "sorted (map key xs) \<Longrightarrow>
   sorted (map key (foldl ins xs es)) \<and> mset (foldl ins xs es) = mset xs + mset es \<and>
   filter (\<lambda>x. key x = k) (foldl ins xs es) = filter (\<lambda>x. key x = k) (xs @ es)"
  by (induction es arbitrary: xs) (simp_all add: sorted_ins mset_ins filter_ins)

lemma foldl_ins_sort: "foldl ins [] es = sort_key key es"
proof -
  have "sort_key key es = foldl ins [] es"
  proof (rule properties_for_sort_key)
    show "mset (foldl ins [] es) = mset es" using foldl_ins_props [of "[]" es] by simp
    show "filter (\<lambda>x. key k = key x) (foldl ins [] es) = filter (\<lambda>x. key k = key x) es" for k
      using foldl_ins_props [of "[]" es "key k"] by (simp add: eq_commute [of "key k"])
    show "sorted (map key (foldl ins [] es))" using foldl_ins_props [of "[]" es] by simp
  qed
  then show ?thesis by simp
qed

end

section \<open>Linked lists\<close>

text \<open>
  A singly linked list is modelled as the list of its nodes, each with the address it was
  allocated at; taking a node out is by address. This is the contract of the two functions
  that do it (\<open>remove_process\<close> in main.c, \<open>remove_mountpoint\<close> in mount.c).
\<close>

locale unlink_list =
  fixes addr :: "'n \<Rightarrow> nat"
    and unlink :: "nat \<Rightarrow> 'n list \<Rightarrow> 'n list"
  assumes unlink_eq: "distinct (map addr ns) \<Longrightarrow> unlink a ns = filter (\<lambda>n. addr n \<noteq> a) ns"
begin

lemma distinct_unlink: "distinct (map addr ns) \<Longrightarrow> distinct (map addr (unlink a ns))"
  by (simp add: unlink_eq distinct_map_filter)

lemma set_unlink: "distinct (map addr ns) \<Longrightarrow> set (unlink a ns) = {n \<in> set ns. addr n \<noteq> a}"
  by (auto simp: unlink_eq)

lemma unlink_head: "distinct (map addr (n # ns)) \<Longrightarrow> unlink (addr n) (n # ns) = ns"
  by (auto simp: unlink_eq filter_id_conv image_iff)

lemma addr_inj: "distinct (map addr ns) \<Longrightarrow> m \<in> set ns \<Longrightarrow> n \<in> set ns \<Longrightarrow> addr m = addr n \<Longrightarrow> m = n"
  by (auto simp: distinct_map dest: inj_onD)

lemma length_filter_unlink:
  assumes "distinct (map addr ns)" "n \<in> set ns"
  shows "length (filter P (unlink (addr n) ns)) = length (filter P ns) - (if P n then 1 else 0)"
proof -
  obtain xs ys where ns: "ns = xs @ n # ys" using assms(2) by (meson split_list)
  have "filter (\<lambda>m. addr m \<noteq> addr n) xs = xs" "filter (\<lambda>m. addr m \<noteq> addr n) ys = ys"
    using assms(1) ns by (auto simp: filter_id_conv dest: sym)
  with assms(1) ns have "unlink (addr n) ns = xs @ ys" by (simp add: unlink_eq)
  then show ?thesis by (simp add: ns)
qed

end

end
