(* ===== verification/Lexer.thy ===== *)
theory Lexer
  imports Prelude
begin

text \<open>
  The tokeniser of \<open>src/lexer.c\<close>: a cursor over a character array it overwrites
  in place. \<open>next_token\<close> is modelled on the array itself, with the cursor and the
  size kept as \<open>size_t\<close> words, so that the removal of quotes (two overlapping
  \<open>memmove\<close>s and a cursor that is moved two places back) is the code's own.
  The reference tokeniser \<open>token_of\<close> works on strings; the main result is that
  \<open>next_token\<close> computes it on every NUL-terminated text and never leaves the array.
\<close>

section \<open>Definitions\<close>

datatype token_result = TOKEN_OK | TOKEN_BLANK | TOKEN_UNFINISHED_QUOTE | TOKEN_END

record lexer_data =
  buf :: "char list"
  lsize :: size_t
  pos :: size_t

definition init_lexer :: "char list \<Rightarrow> size_t \<Rightarrow> lexer_data" where
  "init_lexer b n = \<lparr>buf = b, lsize = n, pos = 0\<rparr>"

text \<open>
  The body of the branch that closes a quote when quotes are removed: the closing quote
  is moved over, then the opening one, and the cursor goes two places back. With an empty
  quoted text at the start of the array the cursor wraps below zero here; the
  \<open>pos++\<close> at the end of the loop body wraps it back.
\<close>

definition remove_quote_pair :: "lexer_data \<Rightarrow> size_t \<Rightarrow> size_t \<Rightarrow> lexer_data c_res" where
  "remove_quote_pair l quote_start quote_end =
     res_bind (memmove (buf l) (unat quote_end) (unat (quote_end + 1))
                 (unat (lsize l - quote_end - 1)))
       (\<lambda>b1. let size1 = lsize l - 1 in
          res_bind (memmove b1 (unat quote_start) (unat (quote_start + 1))
                      (unat (size1 - quote_start - 1)))
            (\<lambda>b2. Inr (l\<lparr>buf := b2, lsize := size1 - 1, pos := pos l - 2\<rparr>)))"

lemma remove_quote_pair_fields:
  "remove_quote_pair l qs qe = Inr l' \<Longrightarrow> lsize l' = lsize l - 1 - 1 \<and> pos l' = pos l - 2"
  by (auto simp: remove_quote_pair_def Let_def res_simps)

lemma loop_measure_step:
  "(p :: size_t) < n \<Longrightarrow> unat n - unat (p + 1) < unat n - unat p"
  by (simp add: word_pos)

lemma loop_measure_remove:
  assumes "(p :: size_t) < n"
  shows "unat (n - 2) - unat (p - 1) < unat n - unat p"
proof -
  have n: "unat (n - 1) = unat n - 1" and less: "unat p < unat n"
    using assms by (simp_all add: word_pos)
  show ?thesis
  proof (cases "p = 0")
    case True
    have "unat (n - 2) \<le> unat (- 1 :: size_t)"
      by (simp only: word_le_nat_alt [symmetric] word_order.extremum)
    with True less show ?thesis by simp
  next
    case False
    then have pm: "unat (p - 1) = unat p - 1" and pos: "0 < unat p"
      by (simp_all add: unat_minus_one unat_gt_0)
    have "n - 1 \<noteq> 0" using n less pos by auto
    then have "unat (n - 1 - 1) = unat (n - 1) - 1" by (rule unat_minus_one)
    then have "unat (n - 1 - 1) = unat n - 2" by (simp only: n)
    moreover have "n - 1 - 1 = n - 2" by simp
    ultimately show ?thesis using pm pos less by simp
  qed
qed

function next_token_loop ::
    "char \<Rightarrow> bool \<Rightarrow> bool \<Rightarrow> lexer_data \<Rightarrow> bool \<Rightarrow> char \<Rightarrow> size_t \<Rightarrow> (lexer_data \<times> bool) c_res"
where
  "next_token_loop delim quoted remove_quotes l quoting quote quote_start =
     (if pos l < lsize l then
        if length (buf l) \<le> unat (pos l) then Inl Out_Of_Bounds
        else let c = buf l ! unat (pos l) in
          if c = NUL then Inr (l, quoting)
          else if \<not> quoting then
            if c = delim then Inr (l, quoting)
            else if (c = squote \<or> c = dquote) \<and> quoted then
              next_token_loop delim quoted remove_quotes (l\<lparr>pos := pos l + 1\<rparr>) True c (pos l)
            else
              next_token_loop delim quoted remove_quotes (l\<lparr>pos := pos l + 1\<rparr>) False quote
                quote_start
          else if c = quote then
            if remove_quotes then
              res_bind (remove_quote_pair l quote_start (pos l))
                (\<lambda>l'. next_token_loop delim quoted remove_quotes (l'\<lparr>pos := pos l' + 1\<rparr>) False
                        NUL quote_start)
            else
              next_token_loop delim quoted remove_quotes (l\<lparr>pos := pos l + 1\<rparr>) False NUL
                quote_start
          else
            next_token_loop delim quoted remove_quotes (l\<lparr>pos := pos l + 1\<rparr>) True quote
              quote_start
      else Inr (l, quoting))"
  by pat_completeness auto
termination
  by (relation "measure (\<lambda>(d, q, r, l, qg, qt, qs). unat (lsize l) - unat (pos l))")
    (auto simp: loop_measure_step dest!: remove_quote_pair_fields intro: loop_measure_remove)

declare next_token_loop.simps [simp del]

text \<open>
  \<open>next_token\<close> returns its result, the offset \<open>*token\<close> points to (\<open>None\<close>
  when it does not write \<open>*token\<close>) and the lexer it leaves.
\<close>

definition next_token ::
    "lexer_data \<Rightarrow> char \<Rightarrow> bool \<Rightarrow> bool \<Rightarrow> (token_result \<times> nat option \<times> lexer_data) c_res"
where
  "next_token l delim quoted remove_quotes =
     (let start_pos = pos l in
      res_bind (next_token_loop delim quoted remove_quotes l False NUL 0)
        (\<lambda>(l1, quoting).
           let ret = (if quoting then TOKEN_UNFINISHED_QUOTE
                      else if lsize l1 \<le> pos l1 then TOKEN_END
                      else if pos l1 = start_pos then TOKEN_BLANK
                      else TOKEN_OK)
           in if ret \<noteq> TOKEN_END then
                res_bind (store (buf l1) (unat (pos l1)) NUL)
                  (\<lambda>b. Inr (ret, Some (unat start_pos), l1\<lparr>buf := b, pos := pos l1 + 1\<rparr>))
              else Inr (ret, None, l1)))"

subsection \<open>The reference tokeniser\<close>

text \<open>
  \<open>token_of d quoted rm s\<close> splits the first token off the string \<open>s\<close>: whether
  a quote was left open, the token, and the text behind the delimiter (\<open>None\<close> when
  the string ended first). A quoted section runs to the next quote of its own kind and may
  hold the delimiter; its quotes are dropped when \<open>rm\<close> is set.
\<close>

function token_of :: "char \<Rightarrow> bool \<Rightarrow> bool \<Rightarrow> string \<Rightarrow> bool \<times> string \<times> string option" where
  "token_of d quoted rm [] = (False, [], None)"
| "token_of d quoted rm (c # s) =
     (if c = d then (False, [], Some s)
      else if (c = squote \<or> c = dquote) \<and> quoted then
        (case dropWhile (\<lambda>x. x \<noteq> c) s of
           [] \<Rightarrow> (True, c # s, None)
         | _ # s' \<Rightarrow>
             (let inner = takeWhile (\<lambda>x. x \<noteq> c) s
              in case token_of d quoted rm s' of
                   (u, t, r) \<Rightarrow> (u, (if rm then inner else c # inner @ [c]) @ t, r)))
      else (case token_of d quoted rm s of (u, t, r) \<Rightarrow> (u, c # t, r)))"
  by pat_completeness auto

lemma length_dropWhile_Cons: "dropWhile P s = x # s' \<Longrightarrow> length s' < length s"
  using length_dropWhile_le [of P s] by simp

termination token_of
  by (relation "measure (\<lambda>(d, q, r, s). length s)")
    (auto dest: length_dropWhile_Cons intro: less_SucI)

definition token_status :: "bool \<Rightarrow> string \<Rightarrow> token_result" where
  "token_status u t = (if u then TOKEN_UNFINISHED_QUOTE else if t = [] then TOKEN_BLANK
                       else TOKEN_OK)"

text \<open>The part of the array the lexer may touch, and what it needs of the array.\<close>

definition live :: "lexer_data \<Rightarrow> char list" where
  "live l = take (unat (lsize l)) (buf l)"

definition lexer_ok :: "lexer_data \<Rightarrow> bool" where
  "lexer_ok l \<longleftrightarrow> unat (lsize l) \<le> length (buf l)"

lemma dropWhile_ConsD:
  "dropWhile (\<lambda>x. x \<noteq> c) s = x # s' \<Longrightarrow> x = c \<and> s = takeWhile (\<lambda>x. x \<noteq> c) s @ c # s'"
  by (metis (mono_tags, lifting) dropWhile_eq_Cons_conv takeWhile_dropWhile_id)

lemma dropWhile_NilD: "dropWhile (\<lambda>x. x \<noteq> c) s = [] \<Longrightarrow> c \<notin> set s"
  by (auto simp: dropWhile_eq_Nil_conv)

lemma dropWhile_split: "c \<notin> set inner \<Longrightarrow> dropWhile (\<lambda>x. x \<noteq> c) (inner @ c # s) = c # s"
  by (induction inner) auto

lemma takeWhile_split: "c \<notin> set inner \<Longrightarrow> takeWhile (\<lambda>x. x \<noteq> c) (inner @ c # s) = inner"
  by (induction inner) auto

text \<open>The four ways a token goes on, as separate equations, and the case rule they give.\<close>

lemma token_of_delim: "token_of d q rm (d # s) = (False, [], Some s)"
  by simp

lemma token_of_plain:
  "c \<noteq> d \<Longrightarrow> \<not> ((c = squote \<or> c = dquote) \<and> q) \<Longrightarrow>
   token_of d q rm (c # s) = (case token_of d q rm s of (u, t, r) \<Rightarrow> (u, c # t, r))"
  by (simp only: token_of.simps if_False)

lemma token_of_open:
  assumes "c \<noteq> d" "(c = squote \<or> c = dquote) \<and> q" "c \<notin> set s"
  shows "token_of d q rm (c # s) = (True, c # s, None)"
proof -
  have "dropWhile (\<lambda>x. x \<noteq> c) s = []" using assms(3) by (auto simp: dropWhile_eq_Nil_conv)
  with assms(1,2) show ?thesis by (simp only: token_of.simps if_True if_False list.case simp_thms)
qed

lemma token_of_quoted:
  assumes "c \<noteq> d" "(c = squote \<or> c = dquote) \<and> q" "c \<notin> set inner"
  shows "token_of d q rm (c # inner @ c # s) =
    (case token_of d q rm s of (u, t, r) \<Rightarrow> (u, (if rm then inner else c # inner @ [c]) @ t, r))"
  using assms(1,2)
  by (simp only: token_of.simps if_True if_False dropWhile_split [OF assms(3)]
      takeWhile_split [OF assms(3)] list.case Let_def simp_thms)

declare token_of.simps(2) [simp del]

lemma token_of_induct [case_names Nil delim plain unclosed quoted]:
  assumes "P []"
    and "\<And>s. P (d # s)"
    and "\<And>c s. c \<noteq> d \<Longrightarrow> \<not> ((c = squote \<or> c = dquote) \<and> q) \<Longrightarrow> P s \<Longrightarrow> P (c # s)"
    and "\<And>c s. c \<noteq> d \<Longrightarrow> (c = squote \<or> c = dquote) \<and> q \<Longrightarrow> c \<notin> set s \<Longrightarrow> P (c # s)"
    and "\<And>c inner s. c \<noteq> d \<Longrightarrow> (c = squote \<or> c = dquote) \<and> q \<Longrightarrow> c \<notin> set inner \<Longrightarrow> P s \<Longrightarrow>
           P (c # inner @ c # s)"
  shows "P s"
proof (induction s rule: length_induct)
  case (1 xs)
  show ?case
  proof (cases xs)
    case Nil
    then show ?thesis using assms(1) by simp
  next
    case (Cons c s)
    consider "c = d" | "c \<noteq> d" "\<not> ((c = squote \<or> c = dquote) \<and> q)"
      | "c \<noteq> d" "(c = squote \<or> c = dquote) \<and> q" "c \<notin> set s"
      | "c \<noteq> d" "(c = squote \<or> c = dquote) \<and> q" "c \<in> set s" by blast
    then show ?thesis
    proof cases
      case 4
      then obtain inner s' where "s = inner @ c # s'" "c \<notin> set inner"
        using split_list_first by metis
      with 4 "1" Cons assms(5) show ?thesis by simp
    qed (use "1" Cons assms(2-4) in simp_all)
  qed
qed

section \<open>Correctness of \<open>next_token\<close>\<close>

lemma length_live [simp]: "lexer_ok l \<Longrightarrow> length (live l) = unat (lsize l)"
  by (simp add: live_def lexer_ok_def)

lemma buf_live: "lexer_ok l \<Longrightarrow> buf l = live l @ drop (unat (lsize l)) (buf l)"
  by (simp add: live_def)

text \<open>The cursor stands on character \<open>c\<close>, with \<open>p\<close> behind it and \<open>s\<close> ahead.\<close>

definition at :: "lexer_data \<Rightarrow> char list \<Rightarrow> char list \<Rightarrow> bool" where
  "at l p s \<longleftrightarrow> lexer_ok l \<and> live l = p @ s \<and> unat (pos l) = length p"

lemma at_Cons:
  assumes "at l p (c # s)"
  shows "pos l < lsize l" and "\<not> length (buf l) \<le> unat (pos l)" and "buf l ! unat (pos l) = c"
proof -
  from assms have len: "unat (lsize l) = length p + length (c # s)"
    and p: "unat (pos l) = length p" and ok: "lexer_ok l" and lv: "live l = p @ c # s"
    by (auto simp: at_def simp flip: length_live)
  show "pos l < lsize l" using len p by (simp add: word_pos)
  show "\<not> length (buf l) \<le> unat (pos l)" using len p ok by (simp add: lexer_ok_def)
  show "buf l ! unat (pos l) = c"
    by (subst buf_live [OF ok]) (simp add: lv p nth_append)
qed

lemma at_advance: "at l p (c # s) \<Longrightarrow> at (l\<lparr>pos := pos l + 1\<rparr>) (p @ [c]) s"
  using at_Cons(1) [of l p c s]
  by (auto simp: at_def lexer_ok_def live_def word_pos)

text \<open>Removing a pair of quotes: the text loses exactly the two quotes.\<close>

lemma remove_quote_pair_at:
  assumes "at l (p @ c # inner) (c # s)" and "unat qs = length p"
  shows "\<exists>l'. remove_quote_pair l qs (pos l) = Inr l' \<and>
           at (l'\<lparr>pos := pos l' + 1\<rparr>) (p @ inner) s \<and> length (buf l') = length (buf l)"
proof -
  define tail where "tail = drop (unat (lsize l)) (buf l)"
  have ok: "lexer_ok l" and lv: "live l = (p @ c # inner) @ c # s"
    and ps: "unat (pos l) = length p + Suc (length inner)"
    using assms(1) by (auto simp: at_def)
  have b: "buf l = (p @ c # inner) @ c # s @ tail"
    using buf_live [OF ok] by (simp add: lv tail_def)
  have sz: "unat (lsize l) = length p + length inner + length s + 2"
    using ok lv by (auto simp flip: length_live)
  have lt: "pos l < lsize l" using at_Cons(1) [OF assms(1)] .
  have qlt: "qs < pos l" using ps assms(2) by (simp add: word_pos)
  have qe: "unat (lsize l - pos l - 1) = length s"
  proof -
    have "unat (lsize l - pos l) = unat (lsize l) - unat (pos l)"
      using lt by (intro unat_sub) simp
    then have "unat (lsize l - pos l) = Suc (length s)" using sz ps by simp
    then show ?thesis
      by (metis One_nat_def Suc_not_Zero diff_Suc_1 unat_0 unat_minus_one)
  qed
  have n1: "unat (lsize l - 1) = length p + length inner + length s + 1"
    using lt sz by (simp add: word_pos)
  have qs: "unat (lsize l - 1 - qs - 1) = length inner + length s"
  proof -
    have "unat (lsize l - 1 - qs) = unat (lsize l - 1) - unat qs"
      by (intro unat_sub) (simp add: word_le_nat_alt n1 assms(2))
    then have "unat (lsize l - 1 - qs) = Suc (length inner + length s)"
      using n1 assms(2) by simp
    then show ?thesis
      by (metis One_nat_def Suc_not_Zero diff_Suc_1 unat_0 unat_minus_one)
  qed
  have m1: "memmove (buf l) (unat (pos l)) (unat (pos l + 1)) (unat (lsize l - pos l - 1)) =
      Inr ((p @ c # inner) @ s @ last (c # s) # tail)"
    unfolding b by (rule memmove_append) (use ps qe lt in \<open>simp_all add: word_pos\<close>)
  have m2: "memmove (p @ c # (inner @ s) @ last (c # s) # tail) (unat qs) (unat (qs + 1))
        (unat (lsize l - 1 - qs - 1)) =
      Inr (p @ (inner @ s) @ last (c # inner @ s) # last (c # s) # tail)"
    by (rule memmove_append) (use assms(2) qs qlt in \<open>simp_all add: word_pos\<close>)
  define l' where "l' = l\<lparr>buf := p @ inner @ s @ last (c # inner @ s) # last (c # s) # tail,
    lsize := lsize l - 2, pos := pos l - 2\<rparr>"
  have "remove_quote_pair l qs (pos l) = Inr l'"
    using m1 m2 by (simp add: remove_quote_pair_def l'_def)
  moreover have "at (l'\<lparr>pos := pos l' + 1\<rparr>) (p @ inner) s"
  proof -
    have "unat (lsize l - 1 - 1) = unat (lsize l - 1) - 1"
      by (rule unat_minus_one) (use n1 in auto)
    then have "unat (lsize l - 2) = length p + length inner + length s" using n1 by simp
    moreover have "unat (pos l - 1) = length p + length inner"
      using ps by (metis add_Suc_right diff_Suc_1 nat.distinct(1) unat_0 unat_minus_one One_nat_def)
    ultimately show ?thesis by (simp add: at_def l'_def lexer_ok_def live_def)
  qed
  moreover have "length (buf l') = length (buf l)" by (simp add: l'_def b)
  ultimately show ?thesis by blast
qed

text \<open>One turn of the loop, by the character under the cursor.\<close>

lemma loop_at_NUL: "at l p (NUL # s) \<Longrightarrow> next_token_loop d q rm l qg qt qs = Inr (l, qg)"
  by (subst next_token_loop.simps) (auto simp: at_Cons)

lemma loop_at_delim:
  "at l p (d # s) \<Longrightarrow> next_token_loop d q rm l False qt qs = Inr (l, False)"
  by (subst next_token_loop.simps) (auto simp: at_Cons)

lemma loop_at_plain:
  "at l p (c # s) \<Longrightarrow> c \<noteq> NUL \<Longrightarrow> c \<noteq> d \<Longrightarrow> \<not> ((c = squote \<or> c = dquote) \<and> q) \<Longrightarrow>
   next_token_loop d q rm l False qt qs =
   next_token_loop d q rm (l\<lparr>pos := pos l + 1\<rparr>) False qt qs"
  by (subst next_token_loop.simps) (auto simp: at_Cons)

lemma loop_at_open:
  "at l p (c # s) \<Longrightarrow> c \<noteq> NUL \<Longrightarrow> c \<noteq> d \<Longrightarrow> c = squote \<or> c = dquote \<Longrightarrow> q \<Longrightarrow>
   next_token_loop d q rm l False qt qs =
   next_token_loop d q rm (l\<lparr>pos := pos l + 1\<rparr>) True c (pos l)"
  by (subst next_token_loop.simps) (auto simp: at_Cons)

lemma loop_at_quoted:
  "at l p (c # s) \<Longrightarrow> c \<noteq> NUL \<Longrightarrow> c \<noteq> qt \<Longrightarrow>
   next_token_loop d q rm l True qt qs =
   next_token_loop d q rm (l\<lparr>pos := pos l + 1\<rparr>) True qt qs"
  by (subst next_token_loop.simps) (auto simp: at_Cons)

lemma loop_at_close:
  "at l p (qt # s) \<Longrightarrow> qt \<noteq> NUL \<Longrightarrow>
   next_token_loop d q rm l True qt qs =
   (if rm then res_bind (remove_quote_pair l qs (pos l))
       (\<lambda>l'. next_token_loop d q rm (l'\<lparr>pos := pos l' + 1\<rparr>) False NUL qs)
    else next_token_loop d q rm (l\<lparr>pos := pos l + 1\<rparr>) False NUL qs)"
  by (subst next_token_loop.simps) (auto simp: at_Cons)

text \<open>Inside a quoted section the loop only advances.\<close>

lemma loop_skip_quoted:
  assumes "at l p (inner @ s)" "NUL \<notin> set inner" "qt \<notin> set inner"
  shows "\<exists>l'. next_token_loop d q rm l True qt qs = next_token_loop d q rm l' True qt qs \<and>
           at l' (p @ inner) s \<and> length (buf l') = length (buf l)"
  using assms
proof (induction inner arbitrary: l p)
  case Nil
  then show ?case by auto
next
  case (Cons c inner)
  let ?l = "l\<lparr>pos := pos l + 1\<rparr>"
  have "at ?l (p @ [c]) (inner @ s)" using Cons.prems(1) by (intro at_advance) simp
  from Cons.IH [OF this] Cons.prems(2,3)
  obtain l' where "next_token_loop d q rm ?l True qt qs = next_token_loop d q rm l' True qt qs"
    and "at l' ((p @ [c]) @ inner) s" and "length (buf l') = length (buf ?l)"
    by auto
  moreover have "next_token_loop d q rm l True qt qs = next_token_loop d q rm ?l True qt qs"
    using Cons.prems by (intro loop_at_quoted [of l p c "inner @ s"]) auto
  ultimately show ?case by auto
qed

text \<open>A whole quoted section, from its opening to its closing quote.\<close>

lemma loop_quoted_section:
  assumes "at l p (c # inner @ c # s)" "c = squote \<or> c = dquote" "c \<noteq> d" q
    and "NUL \<notin> set inner" "c \<notin> set inner"
  shows "\<exists>l' qs'. next_token_loop d q rm l False qt qs = next_token_loop d q rm l' False NUL qs' \<and>
           at l' (p @ (if rm then inner else c # inner @ [c])) s \<and>
           length (buf l') = length (buf l)"
proof -
  have c: "c \<noteq> NUL" using assms(2) by auto
  let ?l1 = "l\<lparr>pos := pos l + 1\<rparr>" and ?qs = "pos l"
  have open1: "next_token_loop d q rm l False qt qs = next_token_loop d q rm ?l1 True c ?qs"
    using assms c by (intro loop_at_open) auto
  have "at ?l1 (p @ [c]) (inner @ c # s)" using assms(1) by (rule at_advance)
  then obtain l2 where skip: "next_token_loop d q rm ?l1 True c ?qs
      = next_token_loop d q rm l2 True c ?qs"
    and at2: "at l2 ((p @ [c]) @ inner) (c # s)" and len2: "length (buf l2) = length (buf ?l1)"
    using assms loop_skip_quoted by blast
  have qs: "unat ?qs = length p" using assms(1) by (simp add: at_def)
  have close: "next_token_loop d q rm l2 True c ?qs =
      (if rm then res_bind (remove_quote_pair l2 ?qs (pos l2))
         (\<lambda>l'. next_token_loop d q rm (l'\<lparr>pos := pos l' + 1\<rparr>) False NUL ?qs)
       else next_token_loop d q rm (l2\<lparr>pos := pos l2 + 1\<rparr>) False NUL ?qs)"
    using at2 c by (rule loop_at_close)
  show ?thesis
  proof (cases rm)
    case True
    from at2 have "at l2 (p @ c # inner) (c # s)" by simp
    then obtain l3 where "remove_quote_pair l2 ?qs (pos l2) = Inr l3"
      and "at (l3\<lparr>pos := pos l3 + 1\<rparr>) (p @ inner) s" and "length (buf l3) = length (buf l2)"
      using remove_quote_pair_at qs by blast
    with True open1 skip close len2 show ?thesis by auto
  next
    case False
    from at_advance [OF at2] have "at (l2\<lparr>pos := pos l2 + 1\<rparr>) (p @ c # inner @ [c]) s" by simp
    with False open1 skip close len2 show ?thesis by auto
  qed
qed

text \<open>What the loop leaves in the array behind the token.\<close>

definition behind :: "char \<Rightarrow> string option \<Rightarrow> char list \<Rightarrow> char list" where
  "behind d r post = (case r of None \<Rightarrow> NUL # post | Some r' \<Rightarrow> d # r' @ NUL # post)"

lemma loop_token_of:
  assumes "at l p (s @ NUL # post)" "NUL \<notin> set s" "token_of d q rm s = (u, t, r)"
  shows "\<exists>l'. next_token_loop d q rm l False qt qs = Inr (l', u) \<and>
           at l' (p @ t) (behind d r post) \<and> length (buf l') = length (buf l)"
  using assms
proof (induction s arbitrary: l p u t r qt qs rule: token_of_induct [where d = d and q = q])
  case Nil
  then have "next_token_loop d q rm l False qt qs = Inr (l, False)"
    by (intro loop_at_NUL [of l p post]) simp
  with Nil show ?case by (simp add: behind_def)
next
  case (delim s)
  then have "next_token_loop d q rm l False qt qs = Inr (l, False)"
    by (intro loop_at_delim [of l p d "s @ NUL # post"]) simp
  with delim show ?case by (auto simp: token_of_delim behind_def)
next
  case (plain c s)
  have at: "at l p (c # s @ NUL # post)" and c: "c \<noteq> NUL" and s: "NUL \<notin> set s"
    using plain.prems by auto
  let ?l = "l\<lparr>pos := pos l + 1\<rparr>"
  obtain t' where t': "token_of d q rm s = (u, t', r)" "t = c # t'"
    using plain by (auto simp: token_of_plain split: prod.splits)
  obtain l' where "next_token_loop d q rm ?l False qt qs = Inr (l', u)"
      "at l' ((p @ [c]) @ t') (behind d r post)" "length (buf l') = length (buf ?l)"
    using plain.IH [OF at_advance [OF at] s t'(1)] by blast
  with loop_at_plain [OF at c plain.hyps, of rm qt qs] t'(2) show ?case by simp
next
  case (unclosed c s)
  have at: "at l p (c # s @ NUL # post)" and c: "c \<noteq> NUL" and s: "NUL \<notin> set s"
    using unclosed.prems by auto
  let ?l = "l\<lparr>pos := pos l + 1\<rparr>"
  have res: "u" "t = c # s" "r = None" using unclosed.prems(3) token_of_open [OF unclosed.hyps] by auto
  have "next_token_loop d q rm l False qt qs = next_token_loop d q rm ?l True c (pos l)"
    using loop_at_open [OF at c unclosed.hyps(1)] unclosed.hyps(2) by simp
  moreover obtain l' where "next_token_loop d q rm ?l True c (pos l)
      = next_token_loop d q rm l' True c (pos l)"
    and at': "at l' ((p @ [c]) @ s) (NUL # post)" and "length (buf l') = length (buf ?l)"
    using loop_skip_quoted [OF at_advance [OF at] s unclosed.hyps(3)] by blast
  ultimately show ?case using res loop_at_NUL [OF at', of d q rm True c "pos l"]
    by (simp add: behind_def)
next
  case (quoted c inner s)
  have at: "at l p (c # inner @ c # s @ NUL # post)" and s: "NUL \<notin> set inner" "NUL \<notin> set s"
    using quoted.prems by auto
  obtain t' where t': "token_of d q rm s = (u, t', r)"
      "t = (if rm then inner else c # inner @ [c]) @ t'"
    using quoted.prems(3) token_of_quoted [OF quoted.hyps] by (auto split: prod.splits)
  obtain l1 qs1 where step: "next_token_loop d q rm l False qt qs
        = next_token_loop d q rm l1 False NUL qs1"
    and at1: "at l1 (p @ (if rm then inner else c # inner @ [c])) (s @ NUL # post)"
    and len: "length (buf l1) = length (buf l)"
    using loop_quoted_section [OF at _ quoted.hyps(1) _ s(1) quoted.hyps(3)] quoted.hyps(2) by blast
  obtain l' where "next_token_loop d q rm l1 False NUL qs1 = Inr (l', u)"
    and "at l' ((p @ (if rm then inner else c # inner @ [c])) @ t') (behind d r post)"
    and "length (buf l') = length (buf l1)"
    using quoted.IH [OF at1 s(2) t'(1)] by blast
  with step len t'(2) show ?case by simp
qed

lemma behind_Cons: "\<exists>c s'. behind d r post = c # s'"
  by (cases r) (auto simp: behind_def)

text \<open>The text the next call will see: everything behind the NUL just written.\<close>

definition after_token :: "string option \<Rightarrow> char list \<Rightarrow> char list" where
  "after_token r post = (case r of None \<Rightarrow> post | Some r' \<Rightarrow> r' @ NUL # post)"

lemma tl_behind [simp]: "tl (behind d r post) = after_token r post"
  by (cases r) (auto simp: behind_def after_token_def)

lemma store_at:
  assumes "at l p (c # s)"
  shows "\<exists>b. store (buf l) (unat (pos l)) NUL = Inr b \<and>
    at (l\<lparr>buf := b, pos := pos l + 1\<rparr>) (p @ [NUL]) s \<and> length b = length (buf l)"
proof -
  have "take (unat (lsize l)) ((buf l)[length p := NUL]) = (live l)[length p := NUL]"
    by (simp add: live_def take_update_swap)
  also have "\<dots> = p @ NUL # s" using assms by (simp add: at_def)
  finally show ?thesis
    using assms at_Cons(1,2) [OF assms] by (auto simp: at_def store_def lexer_ok_def live_def word_pos)
qed

lemma next_token_at:
  assumes "at l p (s @ NUL # post)" "NUL \<notin> set s" "token_of d q rm s = (u, t, r)"
  shows "\<exists>l'. next_token l d q rm = Inr (token_status u t, Some (length p), l') \<and>
           at l' (p @ t @ [NUL]) (after_token r post) \<and> length (buf l') = length (buf l)"
proof -
  obtain l1 where loop: "next_token_loop d q rm l False NUL 0 = Inr (l1, u)"
    and at1: "at l1 (p @ t) (behind d r post)" and len1: "length (buf l1) = length (buf l)"
    using loop_token_of [OF assms] by blast
  obtain c where bh: "behind d r post = c # after_token r post"
    using behind_Cons [of d r post] by (metis list.sel(3) tl_behind)
  have lt: "pos l1 < lsize l1" using at_Cons(1) at1 bh by metis
  have start: "unat (pos l) = length p" and fin: "unat (pos l1) = length p + length t"
    using assms(1) at1 by (auto simp: at_def)
  have blank: "pos l1 = pos l \<longleftrightarrow> t = []" using start fin by (auto simp: word_unat_eq_iff)
  obtain b where "store (buf l1) (unat (pos l1)) NUL = Inr b"
    and "at (l1\<lparr>buf := b, pos := pos l1 + 1\<rparr>) (p @ t @ [NUL]) (after_token r post)"
    and "length b = length (buf l1)"
    using store_at [of l1 "p @ t" c] at1 bh by auto
  with loop lt start blank len1 show ?thesis
    by (auto simp: next_token_def token_status_def Let_def)
qed

lemma next_token_end: "lsize l \<le> pos l \<Longrightarrow> next_token l d q rm = Inr (TOKEN_END, None, l)"
  by (simp add: next_token_def next_token_loop.simps Let_def linorder_not_less [symmetric])

lemma at_Nil_end: "at l p [] \<Longrightarrow> lsize l \<le> pos l"
  by (auto simp: at_def word_le_nat_alt simp flip: length_live)

lemma token_of_set:
  "token_of d q rm s = (u, t, r) \<Longrightarrow>
   set t \<subseteq> set s \<and> set (case r of None \<Rightarrow> [] | Some r' \<Rightarrow> r') \<subseteq> set s"
proof (induction s arbitrary: u t r rule: token_of_induct [where d = d and q = q])
  case (plain c s)
  then show ?case by (fastforce simp: token_of_plain split: prod.splits)
next
  case (quoted c inner s)
  then show ?case by (fastforce simp: token_of_quoted split: prod.splits if_splits)
qed (auto simp: token_of_delim token_of_open)

text \<open>Without quoting, a token is the text up to the delimiter.\<close>

lemma token_of_unquoted: "d \<notin> set f \<Longrightarrow> token_of d False rm (f @ d # r) = (False, f, Some r)"
  by (induction f) (auto simp: token_of_delim token_of_plain)

lemma token_of_unquoted_last: "d \<notin> set f \<Longrightarrow> token_of d False rm f = (False, f, None)"
  by (induction f) (auto simp: token_of_plain)

lemma at_init_lexer:
  "length b < 2 ^ 64 \<Longrightarrow> at (init_lexer b (of_nat (length b))) [] b"
  by (simp add: at_def init_lexer_def lexer_ok_def live_def unat_of_nat_small)

text \<open>Without quoting the cursor never leaves the array, whatever the array holds.\<close>

lemma loop_unquoted_ok:
  "lexer_ok l \<Longrightarrow> \<exists>l'. next_token_loop d False rm l False qt qs = Inr (l', False) \<and>
     lexer_ok l' \<and> buf l' = buf l \<and> lsize l' = lsize l \<and>
     (pos l' \<noteq> pos l \<longrightarrow> unat (pos l) < length (buf l) \<and> buf l ! unat (pos l) \<noteq> NUL \<and>
        unat (pos l) < unat (pos l'))"
proof (induction "unat (lsize l) - unat (pos l)" arbitrary: l rule: less_induct)
  case less
  show ?case
  proof (cases "pos l < lsize l")
    case True
    let ?l = "l\<lparr>pos := pos l + 1\<rparr>"
    have lt: "unat (pos l) < length (buf l)" using True less.prems by (simp add: lexer_ok_def word_pos)
    have step: "unat (pos ?l) = Suc (unat (pos l))" using True by (simp add: word_pos)
    have "lexer_ok ?l" using less.prems by (simp add: lexer_ok_def)
    then obtain l' where l': "next_token_loop d False rm ?l False qt qs = Inr (l', False)"
        "lexer_ok l'" "buf l' = buf l" "lsize l' = lsize l"
        "pos l' \<noteq> pos ?l \<longrightarrow> unat (pos ?l) < unat (pos l')"
      using less.hyps [of ?l] loop_measure_step [OF True] by auto
    have "unat (pos l) < unat (pos l')" using l'(5) step by (cases "pos l' = pos ?l") auto
    with l' lt less.prems show ?thesis
      by (subst next_token_loop.simps) (auto simp: Let_def True)
  next
    case False
    then show ?thesis using less.prems by (subst next_token_loop.simps) auto
  qed
qed

lemma cstring_at_nonempty: "i < length b \<Longrightarrow> b ! i \<noteq> NUL \<Longrightarrow> cstring_at b i \<noteq> []"
  by (simp add: cstring_at_def cstring_def Cons_nth_drop_Suc [symmetric])

lemma next_token_unquoted_ok:
  assumes "lexer_ok l"
  shows "\<exists>tr off l'. next_token l d False rm = Inr (tr, off, l') \<and> lexer_ok l' \<and>
    tr \<noteq> TOKEN_UNFINISHED_QUOTE \<and> (tr = TOKEN_OK \<longrightarrow> (\<exists>i. off = Some i \<and> cstring_at (buf l') i \<noteq> []))"
proof -
  obtain l1 where l1: "next_token_loop d False rm l False NUL 0 = Inr (l1, False)" "lexer_ok l1"
      "buf l1 = buf l" "pos l1 \<noteq> pos l \<longrightarrow> unat (pos l) < length (buf l) \<and>
        buf l ! unat (pos l) \<noteq> NUL \<and> unat (pos l) < unat (pos l1)"
    using loop_unquoted_ok [OF assms] by blast
  show ?thesis
  proof (cases "lsize l1 \<le> pos l1")
    case True
    with l1 show ?thesis by (auto simp: next_token_def Let_def)
  next
    case False
    have "cstring_at ((buf l)[unat (pos l1) := NUL]) (unat (pos l)) \<noteq> []" if "pos l1 \<noteq> pos l"
      using l1(4) that by (intro cstring_at_nonempty) auto
    with l1 False show ?thesis
      by (auto simp: next_token_def Let_def store_def lexer_ok_def word_le_nat_alt)
  qed
qed

section \<open>Results\<close>

text \<open>C7: on every array that holds, from the cursor on, a text \<open>s\<close> ended by a NUL,
  \<open>next_token\<close> stays inside the array and returns what the reference tokeniser finds: the
  status, a pointer to where the cursor stood, and an array in which that pointer denotes the
  token; what stood in front of the cursor (the tokens handed out before) is untouched, and the
  text behind the delimiter is what the next call will see.\<close>

theorem next_token_refines_token_of:
  assumes "lexer_ok l" "live l = p @ s @ NUL # post" "unat (pos l) = length p" "NUL \<notin> set s"
    and "token_of d quoted rm s = (unfinished, t, r)"
  shows "\<exists>l'. next_token l d quoted rm = Inr (token_status unfinished t, Some (length p), l') \<and>
    lexer_ok l' \<and> live l' = p @ t @ NUL # after_token r post \<and>
    unat (pos l') = length p + length t + 1 \<and> cstring_at (buf l') (length p) = t"
proof -
  from assms(1-3) have "at l p (s @ NUL # post)" by (simp add: at_def)
  from next_token_at [OF this assms(4,5)] obtain l' where
    tok: "next_token l d quoted rm = Inr (token_status unfinished t, Some (length p), l')"
    and at: "at l' (p @ t @ [NUL]) (after_token r post)" by blast
  have "NUL \<notin> set t" using token_of_set [OF assms(5)] assms(4) by auto
  moreover have "buf l' = p @ t @ NUL # after_token r post @ drop (unat (lsize l')) (buf l')"
    using buf_live [of l'] at by (simp add: at_def)
  ultimately have "cstring_at (buf l') (length p) = t" by (metis cstring_at_append append_Cons append_assoc)
  with tok at show ?thesis by (auto simp: at_def)
qed

theorem next_token_refines_token_of_witness:
  "lexer_ok (init_lexer (''x='' @ [dquote] @ ''b c'' @ [dquote] @ '' d'' @ [NUL]) 10) \<and>
   token_of (CHR '' '') True True (''x='' @ [dquote] @ ''b c'' @ [dquote] @ '' d'') =
     (False, ''x=b c'', Some ''d'') \<and>
   (\<exists>l'. next_token (init_lexer (''x='' @ [dquote] @ ''b c'' @ [dquote] @ '' d'' @ [NUL]) 10)
          (CHR '' '') True True = Inr (TOKEN_OK, Some 0, l') \<and> cstring_at (buf l') 0 = ''x=b c'')"
proof -
  let ?s = "''x='' @ [dquote] @ ''b c'' @ [dquote] @ '' d''"
  let ?l = "init_lexer (?s @ [NUL]) 10"
  have l: "lexer_ok ?l" "live ?l = [] @ ?s @ NUL # []" "unat (pos ?l) = length []"
    by (simp_all add: lexer_ok_def live_def init_lexer_def)
  have n: "NUL \<notin> set ?s" by simp
  have t: "token_of (CHR '' '') True True ?s = (False, ''x=b c'', Some ''d'')" by code_simp
  from next_token_refines_token_of [OF l n t] l(1) t show ?thesis
    by (auto simp: token_status_def)
qed

text \<open>A quoted token that the array ends without a NUL makes the code write behind the
  array: what protects its callers is that they always pass a NUL-terminated text.\<close>

lemma next_token_needs_terminator:
  "next_token (init_lexer [dquote] 1) d True rm = Inl Out_Of_Bounds \<or> d = dquote"
proof -
  have "next_token_loop d True rm (init_lexer [dquote] 1) False NUL 0 =
      Inr (\<lparr>buf = [dquote], lsize = 1, pos = 1\<rparr>, True)" if "d \<noteq> dquote"
    using that by (simp add: next_token_loop.simps init_lexer_def)
  then show ?thesis by (auto simp: next_token_def init_lexer_def store_def)
qed

end
