(* ===== verification/Line_Reader.thy ===== *)
theory Line_Reader
  imports Prelude
begin

text \<open>
  Reading inittab lines: \<open>discard_line\<close> and \<open>inittab_next_line\<close> of
  \<open>src/lexer.c\<close> over a model of the \<open>FILE\<close> operations they use. A stream is
  the characters not read yet, its end-of-file flag, and whether the end of those
  characters is a read error instead of the end of the file. The line buffer is the
  caller's array; lines that are skipped leave their characters in it.
\<close>

section \<open>Streams\<close>

record FILE =
  unread :: string
  eof_flag :: bool
  read_error :: bool

text \<open>Hitting the end of the data: only a genuine end of file sets the flag \<open>feof\<close> reads.\<close>

definition hit_end :: "FILE \<Rightarrow> FILE" where
  "hit_end fp = fp\<lparr>eof_flag := eof_flag fp \<or> \<not> read_error fp\<rparr>"

text \<open>\<open>fgetc\<close>: \<open>None\<close> is \<open>EOF\<close>.\<close>

definition fgetc :: "FILE \<Rightarrow> char option \<times> FILE" where
  "fgetc fp = (case unread fp of [] \<Rightarrow> (None, hit_end fp) | c # cs \<Rightarrow> (Some c, fp\<lparr>unread := cs\<rparr>))"

datatype scan_result = Scan_EOF | Scan_None | Scan_Line

definition LINE_SIZE :: nat where "LINE_SIZE = 4095"

definition BUFFER_LEN :: nat where "BUFFER_LEN = LINE_SIZE + 1"

text \<open>
  \<open>fscanf(fp, "%4095[^\n]", buf)\<close>: at the end of the data it returns \<open>EOF\<close>; in
  front of a newline it matches nothing, returns 0 and leaves the buffer alone; otherwise it
  stores at most 4095 characters and a NUL, for which the array must have room. Running into the end while looking for more
  characters counts as hitting it; stopping at the width does not look ahead.
\<close>

definition write_line :: "string \<Rightarrow> char list \<Rightarrow> char list" where
  "write_line s b = s @ NUL # drop (Suc (length s)) b"

definition fscanf_line :: "FILE \<Rightarrow> char list \<Rightarrow> (scan_result \<times> char list \<times> FILE) c_res" where
  "fscanf_line fp b =
     (let s = takeWhile (\<lambda>c. c \<noteq> newline) (take LINE_SIZE (unread fp));
          fp' = fp\<lparr>unread := drop (length s) (unread fp)\<rparr>
      in if unread fp = [] then Inr (Scan_EOF, b, hit_end fp)
         else if s = [] then Inr (Scan_None, b, fp)
         else if length b \<le> length s then Inl Out_Of_Bounds
         else Inr (Scan_Line, write_line s b,
               if length s < LINE_SIZE \<and> unread fp' = [] then hit_end fp' else fp'))"

lemma fscanf_line_unread:
  "fscanf_line fp b = Inr (r, b', fp') \<Longrightarrow> length (unread fp') \<le> length (unread fp)"
  by (auto simp: fscanf_line_def hit_end_def Let_def split: if_splits)

lemma fgetc_unread:
  "fgetc fp = (c, fp') \<Longrightarrow> unread fp' = (case c of None \<Rightarrow> unread fp | Some _ \<Rightarrow> tl (unread fp))"
  by (auto simp: fgetc_def hit_end_def split: list.splits)

lemma fgetc_Some: "fgetc fp = (Some c, fp') \<Longrightarrow> unread fp = c # unread fp'"
  by (auto simp: fgetc_def split: list.splits)

section \<open>The readers\<close>

datatype next_line_result = NEXT_LINE_OK | NEXT_LINE_TOO_BIG | NEXT_LINE_EOF | NEXT_LINE_ERROR

function discard_line :: "FILE \<Rightarrow> FILE c_res" where
  "discard_line fp =
     res_bind (fscanf_line fp (replicate BUFFER_LEN NUL))
       (\<lambda>(_, _, fp1).
          case fgetc fp1 of
            (c, fp2) \<Rightarrow> if c = Some newline \<or> c = None then Inr fp2 else discard_line fp2)"
  by pat_completeness auto
termination
  by (relation "measure (\<lambda>fp. length (unread fp))")
    (auto dest!: fscanf_line_unread fgetc_Some [OF sym])

declare discard_line.simps [simp del]

text \<open>
  One turn of the loop of \<open>inittab_next_line\<close>: \<open>None\<close> for the turns that go on to
  the next line, otherwise the result. \<open>buf[0]\<close> is read after the scan, so a turn
  that scanned nothing sees the first character an earlier line left there.
\<close>

definition next_line_verdict ::
    "scan_result \<Rightarrow> char \<Rightarrow> char option \<Rightarrow> FILE \<Rightarrow> next_line_result option"
where
  "next_line_verdict r b0 c fp =
     (if r = Scan_EOF then Some (if eof_flag fp then NEXT_LINE_EOF else NEXT_LINE_ERROR)
      else if b0 = CHR ''#'' \<and> (c = Some newline \<or> c = None) then None
      else if b0 = NUL then None
      else if c \<noteq> Some newline \<and> c \<noteq> None then Some NEXT_LINE_TOO_BIG
      else Some NEXT_LINE_OK)"

lemma scan_then_getc_decreases:
  assumes "fscanf_line fp b = Inr (r, b', fp1)" "fgetc fp1 = (c, fp2)" "r \<noteq> Scan_EOF"
  shows "length (unread fp2) < length (unread fp)"
proof (cases c)
  case None
  with assms have "unread fp1 = []" "unread fp2 = []"
    by (auto simp: fgetc_def hit_end_def split: list.splits)
  moreover have "unread fp \<noteq> []" using assms(1,3) by (auto simp: fscanf_line_def Let_def)
  ultimately show ?thesis by simp
next
  case (Some x)
  with assms(2) have "unread fp1 = x # unread fp2" by (simp add: fgetc_Some)
  with fscanf_line_unread [OF assms(1)] show ?thesis by simp
qed

function inittab_next_line :: "FILE \<Rightarrow> char list \<Rightarrow> (next_line_result \<times> char list \<times> FILE) c_res" where
  "inittab_next_line fp b =
     res_bind (fscanf_line fp b)
       (\<lambda>(r, b1, fp1).
          case fgetc fp1 of
            (c, fp2) \<Rightarrow>
              res_bind (load b1 0)
                (\<lambda>b0. case next_line_verdict r b0 c fp2 of
                   None \<Rightarrow> inittab_next_line fp2 b1
                 | Some res \<Rightarrow>
                     res_bind (if res = NEXT_LINE_TOO_BIG then discard_line fp2 else Inr fp2)
                       (\<lambda>fp3. Inr (res, b1, fp3))))"
  by pat_completeness auto
termination
  by (relation "measure (\<lambda>(fp, b). length (unread fp))")
    (auto simp: next_line_verdict_def split: if_splits
      dest!: scan_then_getc_decreases [OF _ sym])

declare inittab_next_line.simps [simp del]

text \<open>The reference: lines are skipped, refused or returned one by one.\<close>

definition unlines :: "string list \<Rightarrow> string" where
  "unlines ls = concat (map (\<lambda>l. l @ [newline]) ls)"

fun next_line_spec :: "string list \<Rightarrow> next_line_result \<times> string \<times> string list" where
  "next_line_spec [] = (NEXT_LINE_EOF, [], [])"
| "next_line_spec (l # ls) =
     (if LINE_SIZE < length l then (NEXT_LINE_TOO_BIG, take LINE_SIZE l, ls)
      else if l = [] \<or> hd l = CHR ''#'' then next_line_spec ls
      else (NEXT_LINE_OK, l, ls))"

text \<open>A line of text: no newline and no NUL in it.\<close>

definition text_line :: "string \<Rightarrow> bool" where
  "text_line l \<longleftrightarrow> newline \<notin> set l \<and> NUL \<notin> set l"

section \<open>One line at a time\<close>

lemma unlines_simps [simp]:
  "unlines [] = []" "unlines (l # ls) = l @ newline # unlines ls"
  by (simp_all add: unlines_def)

lemma text_line_hd [simp]: "text_line l \<Longrightarrow> l \<noteq> [] \<Longrightarrow> hd l \<noteq> NUL"
  by (cases l) (auto simp: text_line_def)

lemma takeWhile_line: "newline \<notin> set l \<Longrightarrow> takeWhile (\<lambda>c. c \<noteq> newline) (l @ newline # r) = l"
  by (induction l) auto

lemma takeWhile_line_id: "newline \<notin> set l \<Longrightarrow> takeWhile (\<lambda>c. c \<noteq> newline) l = l"
  by (induction l) auto

lemma LINE_SIZE_pos [simp]: "0 < LINE_SIZE"
  by (simp add: LINE_SIZE_def)

lemma take_short_line:
  "length l \<le> LINE_SIZE \<Longrightarrow> newline \<notin> set l \<Longrightarrow>
   takeWhile (\<lambda>c. c \<noteq> newline) (take LINE_SIZE (l @ newline # r)) = l"
  by (cases "LINE_SIZE - length l") (auto simp: takeWhile_line takeWhile_line_id)

lemma scan_short:
  assumes "unread fp = l @ newline # r" "newline \<notin> set l" "length l \<le> LINE_SIZE" "l \<noteq> []" "LINE_SIZE < length b"
  shows "fscanf_line fp b = Inr (Scan_Line, write_line l b, fp\<lparr>unread := newline # r\<rparr>)"
  using assms by (simp add: fscanf_line_def take_short_line Let_def del: take_append)

lemma scan_blank:
  "unread fp = newline # r \<Longrightarrow> fscanf_line fp b = Inr (Scan_None, b, fp)"
  using take_short_line [of "[]" r] by (simp add: fscanf_line_def Let_def)

lemma scan_long:
  assumes "unread fp = l @ r" "newline \<notin> set l" "LINE_SIZE < length l" "LINE_SIZE < length b"
  shows "fscanf_line fp b =
    Inr (Scan_Line, write_line (take LINE_SIZE l) b, fp\<lparr>unread := drop LINE_SIZE l @ r\<rparr>)"
proof -
  have "takeWhile (\<lambda>c. c \<noteq> newline) (take LINE_SIZE l) = take LINE_SIZE l"
    using assms(2) by (intro takeWhile_line_id) (auto dest: in_set_takeD)
  then have s: "takeWhile (\<lambda>c. c \<noteq> newline) (take LINE_SIZE (unread fp)) = take LINE_SIZE l"
    using assms(1,3) by simp
  have len: "length (take LINE_SIZE l) = LINE_SIZE" using assms(3) by simp
  have ne: "unread fp \<noteq> []" "take LINE_SIZE l \<noteq> []"
    using assms(1,3) LINE_SIZE_pos len by (auto simp del: LINE_SIZE_pos)
  have dr: "drop LINE_SIZE (unread fp) = drop LINE_SIZE l @ r" using assms(1,3) by simp
  have "\<not> length b \<le> LINE_SIZE" using assms(4) by simp
  then show ?thesis
    unfolding fscanf_line_def s Let_def len dr using ne by (simp only: if_False less_irrefl simp_thms)
qed

lemma getc_Cons: "unread fp = c # r \<Longrightarrow> fgetc fp = (Some c, fp\<lparr>unread := r\<rparr>)"
  by (simp add: fgetc_def)

lemma buffer_holds_line [simp]: "LINE_SIZE < BUFFER_LEN"
  by (simp add: BUFFER_LEN_def)

lemma discard_line_reads_line:
  "unread fp = l @ newline # r \<Longrightarrow> newline \<notin> set l \<Longrightarrow> discard_line fp = Inr (fp\<lparr>unread := r\<rparr>)"
proof (induction l arbitrary: fp rule: length_induct)
  case (1 l)
  consider (blank) "l = []" | (short) "l \<noteq> []" "length l \<le> LINE_SIZE" | (long) "LINE_SIZE < length l"
    by force
  then show ?case
  proof cases
    case blank
    with "1.prems" show ?thesis
      by (subst discard_line.simps) (simp add: scan_blank getc_Cons)
  next
    case short
    with "1.prems" show ?thesis
      by (subst discard_line.simps) (simp add: scan_short getc_Cons)
  next
    case long
    then obtain c l' where cut: "drop LINE_SIZE l = c # l'" by (cases "drop LINE_SIZE l") auto
    have c: "c \<noteq> newline" "newline \<notin> set l'"
      using "1.prems"(2) cut by (metis in_set_dropD list.set_intros)+
    have shorter: "length l' < length l" using arg_cong [OF cut, of length] by simp
    have "discard_line fp = discard_line (fp\<lparr>unread := l' @ newline # r\<rparr>)"
      using "1.prems" long cut c
      by (subst discard_line.simps) (simp add: scan_long [of fp l "newline # r"] getc_Cons)
    also have "\<dots> = Inr (fp\<lparr>unread := r\<rparr>)" using "1.IH" shorter c by simp
    finally show ?thesis .
  qed
qed

lemma length_write_line: "length l < length b \<Longrightarrow> length (write_line l b) = length b"
  by (simp add: write_line_def)

lemma load_write_line [simp]: "l \<noteq> [] \<Longrightarrow> load (write_line l b) 0 = Inr (hd l)"
  by (cases l) (auto simp: write_line_def load_def)

lemma cstring_write_line [cstr_simps]: "NUL \<notin> set l \<Longrightarrow> cstring (write_line l b) = l"
  by (simp add: write_line_def cstring_append_NUL)

text \<open>The buffer between two lines: it has room for a line, and what it starts with is skipped.\<close>

definition line_buffer :: "char list \<Rightarrow> bool" where
  "line_buffer b \<longleftrightarrow> LINE_SIZE < length b \<and> (b ! 0 = NUL \<or> b ! 0 = CHR ''#'')"

lemma next_line_blank:
  "unread fp = newline # r \<Longrightarrow> line_buffer b \<Longrightarrow>
   inittab_next_line fp b = inittab_next_line (fp\<lparr>unread := r\<rparr>) b"
  by (subst inittab_next_line.simps)
    (auto simp: scan_blank getc_Cons next_line_verdict_def load_def line_buffer_def)

lemma next_line_comment:
  "unread fp = l @ newline # r \<Longrightarrow> newline \<notin> set l \<Longrightarrow> length l \<le> LINE_SIZE \<Longrightarrow> l \<noteq> [] \<Longrightarrow>
   hd l = CHR ''#'' \<Longrightarrow> LINE_SIZE < length b \<Longrightarrow>
   inittab_next_line fp b = inittab_next_line (fp\<lparr>unread := r\<rparr>) (write_line l b)"
  by (subst inittab_next_line.simps) (simp add: scan_short getc_Cons next_line_verdict_def)

lemma line_buffer_comment:
  "line_buffer b \<Longrightarrow> length l \<le> LINE_SIZE \<Longrightarrow> l \<noteq> [] \<Longrightarrow> hd l = CHR ''#'' \<Longrightarrow> line_buffer (write_line l b)"
  by (cases l) (auto simp: line_buffer_def length_write_line, auto simp: write_line_def)

lemma next_line_ok:
  "unread fp = l @ newline # r \<Longrightarrow> text_line l \<Longrightarrow> length l \<le> LINE_SIZE \<Longrightarrow> l \<noteq> [] \<Longrightarrow>
   hd l \<noteq> CHR ''#'' \<Longrightarrow> LINE_SIZE < length b \<Longrightarrow>
   inittab_next_line fp b = Inr (NEXT_LINE_OK, write_line l b, fp\<lparr>unread := r\<rparr>)"
  using text_line_hd [of l]
  by (subst inittab_next_line.simps)
    (simp add: scan_short getc_Cons next_line_verdict_def text_line_def)

lemma next_line_too_big:
  assumes "unread fp = l @ newline # r" "text_line l" "LINE_SIZE < length l" "LINE_SIZE < length b"
  shows "inittab_next_line fp b =
    Inr (NEXT_LINE_TOO_BIG, write_line (take LINE_SIZE l) b, fp\<lparr>unread := r\<rparr>)"
proof -
  have l: "newline \<notin> set l" "NUL \<notin> set l" using assms(2) by (auto simp: text_line_def)
  obtain c l' where cut: "drop LINE_SIZE l = c # l'" using assms(3) by (cases "drop LINE_SIZE l") auto
  have c: "c \<noteq> newline" "newline \<notin> set l'" using l cut by (metis in_set_dropD list.set_intros)+
  have ne: "take LINE_SIZE l \<noteq> []" using assms(3) LINE_SIZE_pos by (cases l) auto
  then have "hd (take LINE_SIZE l) \<noteq> NUL" using l by (metis hd_in_set in_set_takeD)
  moreover have "discard_line (fp\<lparr>unread := l' @ newline # r\<rparr>) = Inr (fp\<lparr>unread := r\<rparr>)"
    using discard_line_reads_line [of "fp\<lparr>unread := l' @ newline # r\<rparr>"] c by simp
  ultimately show ?thesis
    using assms(1,3,4) l cut c ne
    by (subst inittab_next_line.simps)
      (simp add: scan_long [of fp l "newline # r"] getc_Cons next_line_verdict_def)
qed

lemma next_line_eof:
  "unread fp = [] \<Longrightarrow> b \<noteq> [] \<Longrightarrow> inittab_next_line fp b =
     Inr ((if eof_flag fp \<or> \<not> read_error fp then NEXT_LINE_EOF else NEXT_LINE_ERROR), b, hit_end fp)"
  by (subst inittab_next_line.simps)
    (simp add: fscanf_line_def fgetc_def hit_end_def next_line_verdict_def load_def)

text \<open>A last line that the file ends without a newline: returned, with the flag set.\<close>

lemma next_line_unterminated:
  "unread fp = l \<Longrightarrow> text_line l \<Longrightarrow> length l \<le> LINE_SIZE \<Longrightarrow> l \<noteq> [] \<Longrightarrow> hd l \<noteq> CHR ''#'' \<Longrightarrow>
   LINE_SIZE < length b \<Longrightarrow>
   inittab_next_line fp b = Inr (NEXT_LINE_OK, write_line l b, hit_end (fp\<lparr>unread := []\<rparr>))"
  using text_line_hd [of l]
  by (subst inittab_next_line.simps)
    (simp add: fscanf_line_def fgetc_def hit_end_def next_line_verdict_def text_line_def
      takeWhile_line_id Let_def)

definition comment_line :: "string \<Rightarrow> bool" where
  "comment_line l \<longleftrightarrow> l \<noteq> [] \<and> hd l = CHR ''#''"

text \<open>
  What \<open>inittab_next_line\<close> does on a file of terminated lines: it finds the line the
  reference finds and leaves it, NUL-terminated, at the start of the buffer. Behind it the
  buffer still holds what the skipped comments left there.
\<close>

lemma next_line_reads_lines:
  assumes "unread fp = unlines ls @ end_text" "\<forall>l \<in> set ls. text_line l"
    and "\<not> read_error fp" "\<not> eof_flag fp"
    and "line_buffer b"
    and "next_line_spec ls = (res, l, ls')" "end_text = [] \<or> res \<noteq> NEXT_LINE_EOF"
  shows "\<exists>b'. inittab_next_line fp b =
      Inr (res, b', fp\<lparr>unread := unlines ls' @ end_text, eof_flag := (res = NEXT_LINE_EOF)\<rparr>) \<and>
      (res \<noteq> NEXT_LINE_EOF \<longrightarrow> (\<exists>b0. b' = write_line l b0 \<and> length b0 = length b \<and>
        ((\<forall>x \<in> set ls. \<not> comment_line x) \<longrightarrow> b0 = b)))"
  using assms
proof (induction ls arbitrary: fp b)
  case Nil
  then have "b \<noteq> []" by (auto simp: line_buffer_def)
  with Nil show ?case by (auto simp: next_line_eof hit_end_def)
next
  case (Cons x ls)
  have room: "LINE_SIZE < length b" using Cons.prems by (simp add: line_buffer_def)
  have x: "text_line x" "unread fp = x @ newline # unlines ls @ end_text" using Cons.prems by auto
  let ?fp = "fp\<lparr>unread := unlines ls @ end_text\<rparr>"
  consider (big) "LINE_SIZE < length x" | (blank) "x = []"
    | (comment) "length x \<le> LINE_SIZE" "x \<noteq> []" "hd x = CHR ''#''"
    | (ok) "length x \<le> LINE_SIZE" "x \<noteq> []" "hd x \<noteq> CHR ''#''" by force
  then show ?case
  proof cases
    case big
    with Cons.prems x room show ?thesis by (auto simp: next_line_too_big)
  next
    case blank
    with Cons.prems x have "inittab_next_line fp b = inittab_next_line ?fp b"
      by (intro next_line_blank) simp_all
    with blank Cons.prems Cons.IH [of ?fp b] show ?thesis by simp blast
  next
    case comment
    with Cons.prems x room have "inittab_next_line fp b = inittab_next_line ?fp (write_line x b)"
      by (intro next_line_comment) (simp_all add: text_line_def)
    moreover have "comment_line x" using comment by (simp add: comment_line_def)
    ultimately show ?thesis
      using comment Cons.prems room Cons.IH [of ?fp "write_line x b"] line_buffer_comment [of b x]
      by (simp add: length_write_line) blast
  next
    case ok
    with Cons.prems x room show ?thesis by (auto simp: next_line_ok)
  qed
qed

text \<open>Lines that are all skipped: the text behind them is read with what they left behind.\<close>

lemma next_line_skips:
  assumes "unread fp = unlines ls @ end_text" "\<forall>l \<in> set ls. text_line l"
    and "line_buffer b" "next_line_spec ls = (NEXT_LINE_EOF, l, ls')"
  shows "\<exists>b0. inittab_next_line fp b = inittab_next_line (fp\<lparr>unread := end_text\<rparr>) b0 \<and>
    length b0 = length b \<and> line_buffer b0 \<and>
    ((\<forall>x \<in> set ls. \<not> comment_line x) \<longrightarrow> b0 = b)"
  using assms
proof (induction ls arbitrary: fp b)
  case Nil
  then have same: "fp\<lparr>unread := end_text\<rparr> = fp" by simp
  show ?case unfolding same using Nil by blast
next
  case (Cons x ls)
  let ?fp = "fp\<lparr>unread := unlines ls @ end_text\<rparr>"
  have room: "LINE_SIZE < length b" using Cons.prems by (simp add: line_buffer_def)
  consider (blank) "x = []" | (comment) "length x \<le> LINE_SIZE" "x \<noteq> []" "hd x = CHR ''#''"
    using Cons.prems(4) by (fastforce split: if_splits)
  then show ?case
  proof cases
    case blank
    with Cons.prems have "inittab_next_line fp b = inittab_next_line ?fp b"
      by (intro next_line_blank) simp_all
    with blank Cons.prems Cons.IH [of ?fp b] show ?thesis by simp blast
  next
    case comment
    with Cons.prems room have "inittab_next_line fp b = inittab_next_line ?fp (write_line x b)"
      by (intro next_line_comment) (simp_all add: text_line_def)
    moreover have "comment_line x" using comment by (simp add: comment_line_def)
    ultimately show ?thesis
      using comment Cons.prems room Cons.IH [of ?fp "write_line x b"] line_buffer_comment [of b x]
      by (simp add: length_write_line) blast
  qed
qed

lemma next_line_spec_cases:
  "next_line_spec ls = (res, l, ls') \<Longrightarrow> \<forall>x \<in> set ls. text_line x \<Longrightarrow>
   res \<noteq> NEXT_LINE_ERROR \<and> set ls' \<subseteq> set ls \<and> (res = NEXT_LINE_EOF \<longrightarrow> ls' = []) \<and>
   (res \<noteq> NEXT_LINE_EOF \<longrightarrow> length ls' < length ls \<and> length l \<le> LINE_SIZE) \<and>
   (res = NEXT_LINE_OK \<longrightarrow> l \<in> set ls \<and> l \<noteq> [] \<and> \<not> comment_line l)"
  by (induction ls) (fastforce simp: comment_line_def split: if_splits)+

end
