(* ===== verification/Inittab.thy ===== *)
theory Inittab
  imports Lexer Line_Reader "HOL-Library.Monad_Syntax"
begin

text \<open>
  The inittab of \<open>src/inittab.h\<close> and \<open>src/inittab.c\<close>: entries, the three lists
  they are kept in, the parser of one line and the loop that reads a file. A linked list of
  entries is an Isabelle list; an entry's fixed-size name arrays are the strings they hold.
  Logging is left out. Reading a file is a \<^theory_text>\<open>partial_function\<close>: a loop that
  never ends is the value \<open>None\<close>.
\<close>

section \<open>Entries\<close>

datatype inittab_entry_type =
  ONE_SHOT | SAFE_ONE_SHOT | SERVICE | SAFE_SERVICE | SHUTDOWN | SAFE_SHUTDOWN | SAFE_MODE

record inittab_entry =
  process_name :: string
  ctty_path :: string
  order :: int
  core_id :: int
  entry_type :: inittab_entry_type

record inittab =
  startup_list :: "inittab_entry list"
  shutdown_list :: "inittab_entry list"
  safe_mode_entry :: "inittab_entry list"

definition is_safe_entry :: "inittab_entry \<Rightarrow> bool" where
  "is_safe_entry e \<longleftrightarrow> entry_type e = SAFE_SERVICE \<or> entry_type e = SAFE_ONE_SHOT \<or>
     entry_type e = SAFE_MODE \<or> entry_type e = SAFE_SHUTDOWN"

definition is_startup_entry :: "inittab_entry \<Rightarrow> bool" where
  "is_startup_entry e \<longleftrightarrow> entry_type e = ONE_SHOT \<or> entry_type e = SAFE_ONE_SHOT \<or>
     entry_type e = SERVICE \<or> entry_type e = SAFE_SERVICE"

definition is_service_entry :: "inittab_entry \<Rightarrow> bool" where
  "is_service_entry e \<longleftrightarrow> entry_type e = SERVICE \<or> entry_type e = SAFE_SERVICE"

definition is_shutdown_entry :: "inittab_entry \<Rightarrow> bool" where
  "is_shutdown_entry e \<longleftrightarrow> entry_type e = SHUTDOWN \<or> entry_type e = SAFE_SHUTDOWN"

definition is_one_shot_entry :: "inittab_entry \<Rightarrow> bool" where
  "is_one_shot_entry e \<longleftrightarrow> entry_type e = ONE_SHOT \<or> entry_type e = SAFE_ONE_SHOT \<or>
     entry_type e = SHUTDOWN \<or> entry_type e = SAFE_SHUTDOWN"

text \<open>An entry as \<open>calloc\<close> leaves it.\<close>

definition zero_entry :: inittab_entry where
  "zero_entry = \<lparr>process_name = [], ctty_path = [], order = 0, core_id = 0, entry_type = ONE_SHOT\<rparr>"

section \<open>Numbers\<close>

definition is_digit :: "char \<Rightarrow> bool" where
  "is_digit c \<longleftrightarrow> 48 \<le> (of_char c :: nat) \<and> (of_char c :: nat) \<le> 57"

fun dec_value :: "int \<Rightarrow> string \<Rightarrow> int" where
  "dec_value acc [] = acc"
| "dec_value acc (c # cs) = dec_value (10 * acc + (int (of_char c) - 48)) cs"

abbreviation LONG_MAX :: int where "LONG_MAX \<equiv> 9223372036854775807"
abbreviation LONG_MIN :: int where "LONG_MIN \<equiv> - 9223372036854775808"
abbreviation INT32_MAX :: int where "INT32_MAX \<equiv> 2147483647"
abbreviation INT32_MIN :: int where "INT32_MIN \<equiv> - 2147483648"

text \<open>
  \<open>strtol(s, &end, 10)\<close> on a 64-bit \<open>long\<close>: the value, the text from \<open>end\<close>
  on, and whether \<open>errno\<close> became ERANGE. Without a digit nothing is converted and
  \<open>end\<close> is the start of the string.
\<close>

definition strtol10 :: "string \<Rightarrow> int \<times> string \<times> bool" where
  "strtol10 s =
     (let s1 = dropWhile is_space s;
          neg = (s1 \<noteq> [] \<and> hd s1 = CHR ''-'');
          s2 = (if s1 \<noteq> [] \<and> (hd s1 = CHR ''-'' \<or> hd s1 = CHR ''+'') then tl s1 else s1);
          ds = takeWhile is_digit s2;
          v = (if neg then - dec_value 0 ds else dec_value 0 ds)
      in if ds = [] then (0, s, False)
         else if LONG_MAX < v then (LONG_MAX, dropWhile is_digit s2, True)
         else if v < LONG_MIN then (LONG_MIN, dropWhile is_digit s2, True)
         else (v, dropWhile is_digit s2, False))"

definition safe_strtoi32_t :: "string \<Rightarrow> int option" where
  "safe_strtoi32_t s =
     (case strtol10 s of
        (l, end_ptr, erange) \<Rightarrow>
          if (erange \<or> end_ptr \<noteq> []) \<or> (l > INT32_MAX \<or> l < INT32_MIN) then None else Some l)"

section \<open>The lists of entries\<close>

text \<open>The walk of \<open>add_entry_to_list\<close> from \<open>current\<close>, the head of the list here.\<close>

fun insert_after :: "inittab_entry \<Rightarrow> inittab_entry list \<Rightarrow> inittab_entry list" where
  "insert_after e [] = [e]"
| "insert_after e [current] = [current, e]"
| "insert_after e (current # nxt # rest) =
     (if order nxt \<le> order e then current # insert_after e (nxt # rest)
      else current # e # nxt # rest)"

definition add_entry_to_list :: "inittab_entry list \<Rightarrow> inittab_entry \<Rightarrow> inittab_entry list" where
  "add_entry_to_list xs e =
     (case xs of [] \<Rightarrow> [e] | x # _ \<Rightarrow> if order x > order e then e # xs else insert_after e xs)"

definition place_entry :: "inittab_entry \<Rightarrow> inittab \<Rightarrow> bool \<times> inittab" where
  "place_entry e t =
     (case entry_type e of
        ONE_SHOT \<Rightarrow> (True, t\<lparr>startup_list := add_entry_to_list (startup_list t) e\<rparr>)
      | SAFE_ONE_SHOT \<Rightarrow> (True, t\<lparr>startup_list := add_entry_to_list (startup_list t) e\<rparr>)
      | SERVICE \<Rightarrow> (True, t\<lparr>startup_list := add_entry_to_list (startup_list t) e\<rparr>)
      | SAFE_SERVICE \<Rightarrow> (True, t\<lparr>startup_list := add_entry_to_list (startup_list t) e\<rparr>)
      | SHUTDOWN \<Rightarrow> (True, t\<lparr>shutdown_list := add_entry_to_list (shutdown_list t) e\<rparr>)
      | SAFE_SHUTDOWN \<Rightarrow> (True, t\<lparr>shutdown_list := add_entry_to_list (shutdown_list t) e\<rparr>)
      | SAFE_MODE \<Rightarrow>
          if safe_mode_entry t \<noteq> [] then (False, t)
          else (True, t\<lparr>safe_mode_entry := add_entry_to_list (safe_mode_entry t) e\<rparr>))"

section \<open>One line\<close>

datatype inittab_parse_result = RESULT_OK | RESULT_ERROR | RESULT_DONE

text \<open>
  Each field takes the lexer and the entry filled so far and gives them back changed;
  \<open>None\<close> is the jump to \<open>end\<close> with RESULT_ERROR.
\<close>

type_synonym field_step = "lexer_data \<times> inittab_entry \<Rightarrow> (lexer_data \<times> inittab_entry) option c_res"

text \<open>The text of the token a call of \<open>next_token\<close> returned.\<close>

definition token_text :: "lexer_data \<Rightarrow> nat option \<Rightarrow> string" where
  "token_text l off = (case off of None \<Rightarrow> [] | Some i \<Rightarrow> cstring_at (buf l) i)"

definition number_field :: "(int \<Rightarrow> inittab_entry \<Rightarrow> inittab_entry) \<Rightarrow> field_step" where
  "number_field set_field = (\<lambda>(l, e).
     res_bind (next_token l (CHR '':'') False False)
       (\<lambda>(tr, off, l'). Inr (
          if tr = TOKEN_BLANK then Some (l', set_field (- 1) e)
          else if tr = TOKEN_END then None
          else case safe_strtoi32_t (token_text l' off) of
                 None \<Rightarrow> None
               | Some n \<Rightarrow> if n < 0 then None else Some (l', set_field n e))))"

definition order_field :: field_step where
  "order_field = number_field (\<lambda>n e. e\<lparr>order := n\<rparr>)"

definition core_id_field :: field_step where
  "core_id_field = number_field (\<lambda>n e. e\<lparr>core_id := n\<rparr>)"

definition type_of_string :: "string \<Rightarrow> inittab_entry_type option" where
  "type_of_string s =
     (if s = ''<one-shot>'' then Some ONE_SHOT
      else if s = ''<safe-one-shot>'' then Some SAFE_ONE_SHOT
      else if s = ''<service>'' then Some SERVICE
      else if s = ''<safe-service>'' then Some SAFE_SERVICE
      else if s = ''<shutdown>'' then Some SHUTDOWN
      else if s = ''<safe-shutdown>'' then Some SAFE_SHUTDOWN
      else if s = ''<safe-mode>'' then Some SAFE_MODE
      else None)"

definition type_field :: field_step where
  "type_field = (\<lambda>(l, e).
     res_bind (next_token l (CHR '':'') False False)
       (\<lambda>(tr, off, l'). Inr (
          if tr \<noteq> TOKEN_OK then None
          else case type_of_string (token_text l' off) of
                 None \<Rightarrow> None
               | Some ty \<Rightarrow>
                   if order e = - 1 \<and> ty \<noteq> SAFE_MODE then None
                   else Some (l', e\<lparr>entry_type := ty\<rparr>))))"

text \<open>The sizes of the arrays \<open>ctty_path\<close> and \<open>process_name\<close> of an entry.\<close>

definition CTTY_PATH_SIZE :: nat where "CTTY_PATH_SIZE = 256"
definition PROCESS_NAME_SIZE :: nat where "PROCESS_NAME_SIZE = 4096"

definition ctty_field :: field_step where
  "ctty_field = (\<lambda>(l, e).
     res_bind (next_token l (CHR '':'') False False)
       (\<lambda>(tr, off, l').
          if tr = TOKEN_OK \<and> length (token_text l' off) < CTTY_PATH_SIZE
          then res_bind (strcpy CTTY_PATH_SIZE (token_text l' off))
                 (\<lambda>path. Inr (Some (l', e\<lparr>ctty_path := path\<rparr>)))
          else if tr = TOKEN_BLANK then Inr (Some (l', e\<lparr>ctty_path := []\<rparr>))
          else Inr None))"

definition process_field :: field_step where
  "process_field = (\<lambda>(l, e).
     res_bind (next_token l NUL False False)
       (\<lambda>(tr, off, l').
          if tr \<noteq> TOKEN_OK then Inr None
          else if length (token_text l' off) < PROCESS_NAME_SIZE
          then res_bind (strcpy PROCESS_NAME_SIZE (token_text l' off))
                 (\<lambda>name. Inr (Some (l', e\<lparr>process_name := name\<rparr>)))
          else Inr None))"

fun run_fields :: "field_step list \<Rightarrow> field_step" where
  "run_fields [] st = Inr (Some st)"
| "run_fields (f # fs) st =
     res_bind (f st) (\<lambda>r. case r of None \<Rightarrow> Inr None | Some st' \<Rightarrow> run_fields fs st')"

definition inittab_parse_entry ::
    "FILE \<Rightarrow> inittab_entry \<Rightarrow> (inittab_parse_result \<times> inittab_entry \<times> FILE) c_res"
where
  "inittab_parse_entry fp e =
     (if eof_flag fp then Inr (RESULT_ERROR, e, fp)
      else res_bind (inittab_next_line fp (replicate BUFFER_LEN NUL))
        (\<lambda>(nxt, b, fp').
           case nxt of
             NEXT_LINE_TOO_BIG \<Rightarrow> Inr (RESULT_ERROR, e, fp')
           | NEXT_LINE_ERROR \<Rightarrow> Inr (RESULT_ERROR, e, fp')
           | NEXT_LINE_EOF \<Rightarrow> Inr (RESULT_DONE, e, fp')
           | NEXT_LINE_OK \<Rightarrow>
               res_bind (run_fields [order_field, core_id_field, type_field, ctty_field,
                           process_field] (init_lexer b (of_nat BUFFER_LEN), e))
                 (\<lambda>r. case r of
                        None \<Rightarrow> Inr (RESULT_ERROR, e, fp')
                      | Some (_, e') \<Rightarrow> Inr (RESULT_OK, e', fp'))))"

section \<open>The whole file\<close>

text \<open>
  The loop of \<open>read_inittab\<close>; the first argument answers the \<open>calloc\<close> calls. It
  returns the error flag and the lists. RESULT_ERROR does not leave the loop.
\<close>

partial_function (option) read_loop ::
    "bool list \<Rightarrow> FILE \<Rightarrow> inittab \<Rightarrow> bool \<Rightarrow> (bool \<times> inittab) c_res option"
where
  "read_loop callocs fp t err =
     (case pop_ok callocs of
        (ok, callocs') \<Rightarrow>
          if \<not> ok then Some (Inr (True, t))
          else case inittab_parse_entry fp zero_entry of
                 Inl f \<Rightarrow> Some (Inl f)
               | Inr (r, e, fp') \<Rightarrow>
                   (case r of
                      RESULT_OK \<Rightarrow>
                        (case place_entry e t of
                           (placed, t') \<Rightarrow>
                             if \<not> placed then Some (Inr (True, t'))
                             else read_loop callocs' fp' t' err)
                    | RESULT_ERROR \<Rightarrow> read_loop callocs' fp' t True
                    | RESULT_DONE \<Rightarrow> Some (Inr (err, t))))"

text \<open>
  \<open>read_inittab\<close>: the stream \<open>fopen\<close> gives (\<open>None\<close> when it fails) and the
  lists so far. The outer \<open>option\<close> is termination; the result is the filled inittab,
  or \<open>None\<close> where the function returns false, with every list freed.
\<close>

definition read_inittab ::
    "bool list \<Rightarrow> FILE option \<Rightarrow> inittab \<Rightarrow> inittab option c_res option"
where
  "read_inittab callocs file t =
     (case file of
        None \<Rightarrow> Some (Inr None)
      | Some fp \<Rightarrow>
          map_option (\<lambda>res. res_bind res
            (\<lambda>(err, t'). Inr (if err \<or> safe_mode_entry t' = [] then None else Some t')))
            (read_loop callocs fp t False))"

section \<open>What a line means\<close>

text \<open>
  The reference for one line: five fields separated by the first four colons, as in
  \<open>specs/inittab-spec.txt\<close>.
\<close>

fun cut :: "char \<Rightarrow> string \<Rightarrow> (string \<times> string) option" where
  "cut d [] = None"
| "cut d (c # s) = (if c = d then Some ([], s) else map_option (\<lambda>(a, b). (c # a, b)) (cut d s))"

definition number_spec :: "string \<Rightarrow> int option" where
  "number_spec s =
     (if s = [] then Some (- 1)
      else do { n \<leftarrow> safe_strtoi32_t s; if n < 0 then None else Some n })"

definition entry_spec :: "string \<Rightarrow> string \<Rightarrow> string \<Rightarrow> string \<Rightarrow> string \<Rightarrow> inittab_entry option" where
  "entry_spec ord core ty ctty proc =
     do { n \<leftarrow> number_spec ord;
          k \<leftarrow> number_spec core;
          t \<leftarrow> type_of_string ty;
          if n = - 1 \<and> t \<noteq> SAFE_MODE \<or> 256 \<le> length ctty \<or> proc = [] \<or> 4096 \<le> length proc
          then None
          else Some \<lparr>process_name = proc, ctty_path = ctty, order = n, core_id = k, entry_type = t\<rparr> }"

definition parse_line :: "string \<Rightarrow> inittab_entry option" where
  "parse_line l =
     do { (ord, r1) \<leftarrow> cut (CHR '':'') l;
          (core, r2) \<leftarrow> cut (CHR '':'') r1;
          (ty, r3) \<leftarrow> cut (CHR '':'') r2;
          (ctty, proc) \<leftarrow> cut (CHR '':'') r3;
          entry_spec ord core ty ctty proc }"

section \<open>Parsing a line\<close>

lemma cut_append: "d \<notin> set a \<Longrightarrow> cut d (a @ d # b) = Some (a, b)"
  by (induction a) auto

lemma cut_SomeD: "cut d s = Some (a, b) \<Longrightarrow> s = a @ d # b \<and> d \<notin> set a"
  by (induction s arbitrary: a) (auto split: if_splits)

lemma cut_None: "cut d s = None \<longleftrightarrow> d \<notin> set s"
  by (induction s) (auto split: if_splits)

lemma token_status_unquoted: "token_status False f = (if f = [] then TOKEN_BLANK else TOKEN_OK)"
  by (simp add: token_status_def)

lemma token_text_at:
  "at l (p @ t @ [NUL]) s \<Longrightarrow> NUL \<notin> set t \<Longrightarrow> token_text l (Some (length p)) = t"
  unfolding token_text_def option.case
  by (subst buf_live) (simp_all add: at_def cstring_at_append)

text \<open>A field in front of a delimiter, and the last field of the text.\<close>

lemma next_token_field:
  assumes "at l p (f @ d # r @ NUL # post)" "d \<notin> set f" "NUL \<notin> set f" "NUL \<notin> set r" "d \<noteq> NUL"
  shows "\<exists>l'. next_token l d False False =
      Inr (if f = [] then TOKEN_BLANK else TOKEN_OK, Some (length p), l') \<and>
    at l' (p @ f @ [NUL]) (r @ NUL # post) \<and> token_text l' (Some (length p)) = f"
  using next_token_at [of l p "f @ d # r" post d False False False f "Some r"] assms
    token_of_unquoted [of d f False r]
  by (auto simp: token_status_unquoted after_token_def intro: token_text_at)

lemma next_token_last_field:
  assumes "at l p (f @ NUL # post)" "d \<notin> set f" "NUL \<notin> set f"
  shows "\<exists>l'. next_token l d False False =
      Inr (if f = [] then TOKEN_BLANK else TOKEN_OK, Some (length p), l') \<and>
    at l' (p @ f @ [NUL]) post \<and> token_text l' (Some (length p)) = f"
  using next_token_at [of l p f post d False False False f None] assms
    token_of_unquoted_last [of d f False]
  by (auto simp: token_status_unquoted after_token_def intro: token_text_at)

subsection \<open>The contract of a field\<close>

text \<open>
  The four fields in front of a colon share one contract: in front of a colon or of the end
  of the text, the field reads its text, fills the entry as \<open>spec\<close> says and leaves the
  cursor behind; with no text left it refuses the line.
\<close>

locale field_reader =
  fixes step :: field_step
    and spec :: "string \<Rightarrow> inittab_entry \<Rightarrow> inittab_entry option"
  assumes reads: "at l p (f @ CHR '':'' # r @ NUL # post) \<Longrightarrow> CHR '':'' \<notin> set f \<Longrightarrow>
      NUL \<notin> set f \<Longrightarrow> NUL \<notin> set r \<Longrightarrow>
      \<exists>l'. step (l, e) = Inr (map_option (Pair l') (spec f e)) \<and>
        at l' (p @ f @ [NUL]) (r @ NUL # post)"
    and reads_last: "at l p (f @ NUL # post) \<Longrightarrow> CHR '':'' \<notin> set f \<Longrightarrow> NUL \<notin> set f \<Longrightarrow>
      \<exists>l'. step (l, e) = Inr (map_option (Pair l') (spec f e)) \<and> at l' (p @ f @ [NUL]) post"
    and at_end: "at l p [] \<Longrightarrow> step (l, e) = Inr None"
begin

lemma run_reads:
  assumes "at l p (f @ CHR '':'' # r @ NUL # post)" "CHR '':'' \<notin> set f" "NUL \<notin> set f" "NUL \<notin> set r"
  shows "\<exists>l'. run_fields (step # fs) (l, e) =
      (case spec f e of None \<Rightarrow> Inr None | Some e' \<Rightarrow> run_fields fs (l', e')) \<and>
    at l' (p @ f @ [NUL]) (r @ NUL # post)"
  using reads [OF assms, of e] by (auto split: option.splits)

lemma run_reads_last:
  assumes "at l p (f @ NUL # post)" "CHR '':'' \<notin> set f" "NUL \<notin> set f"
  shows "\<exists>l'. run_fields (step # fs) (l, e) =
      (case spec f e of None \<Rightarrow> Inr None | Some e' \<Rightarrow> run_fields fs (l', e')) \<and>
    at l' (p @ f @ [NUL]) post"
  using reads_last [OF assms, of e] by (auto split: option.splits)

text \<open>The field in front of the others: what they compute is computed on what it filled in.\<close>

lemma chain:
  assumes "at l p (f @ CHR '':'' # r @ NUL # post)" "CHR '':'' \<notin> set f" "NUL \<notin> set f" "NUL \<notin> set r"
    and rest: "\<And>l' e'. at l' (p @ f @ [NUL]) (r @ NUL # post) \<Longrightarrow>
      \<exists>l''. run_fields fs (l', e') = Inr (map_option (Pair l'') (g e'))"
  shows "\<exists>l''. run_fields (step # fs) (l, e) = Inr (map_option (Pair l'') (Option.bind (spec f e) g))"
  using run_reads [OF assms(1-4), of fs e] rest by (cases "spec f e") auto

text \<open>Behind the text, in a buffer of NULs, later fields are blank or missing.\<close>

lemma run_blank:
  assumes "at l p (replicate k NUL)"
    and rest: "\<And>l p e k. at l p (replicate k NUL) \<Longrightarrow> run_fields fs (l, e) = Inr None"
  shows "run_fields (step # fs) (l, e) = Inr None"
proof (cases k)
  case 0
  with assms(1) show ?thesis by (simp add: at_end)
next
  case (Suc k')
  then obtain l' where "run_fields (step # fs) (l, e) =
      (case spec [] e of None \<Rightarrow> Inr None | Some e' \<Rightarrow> run_fields fs (l', e'))"
    "at l' (p @ [] @ [NUL]) (replicate k' NUL)"
    using run_reads_last [of l p "[]" "replicate k' NUL" fs e] assms(1) by auto
  then show ?thesis using rest by (auto split: option.splits)
qed

lemma run_last_blank:
  assumes "at l p (f @ NUL # replicate k NUL)" "CHR '':'' \<notin> set f" "NUL \<notin> set f"
    and rest: "\<And>l p e k. at l p (replicate k NUL) \<Longrightarrow> run_fields fs (l, e) = Inr None"
  shows "run_fields (step # fs) (l, e) = Inr None"
  using run_reads_last [OF assms(1-3), of fs e] rest by (auto split: option.splits)

end

definition order_spec :: "string \<Rightarrow> inittab_entry \<Rightarrow> inittab_entry option" where
  "order_spec s e = map_option (\<lambda>n. e\<lparr>order := n\<rparr>) (number_spec s)"

definition core_id_spec :: "string \<Rightarrow> inittab_entry \<Rightarrow> inittab_entry option" where
  "core_id_spec s e = map_option (\<lambda>n. e\<lparr>core_id := n\<rparr>) (number_spec s)"

definition type_spec :: "string \<Rightarrow> inittab_entry \<Rightarrow> inittab_entry option" where
  "type_spec s e =
     do { t \<leftarrow> type_of_string s;
          if order e = - 1 \<and> t \<noteq> SAFE_MODE then None else Some (e\<lparr>entry_type := t\<rparr>) }"

definition ctty_spec :: "string \<Rightarrow> inittab_entry \<Rightarrow> inittab_entry option" where
  "ctty_spec s e = (if 256 \<le> length s then None else Some (e\<lparr>ctty_path := s\<rparr>))"

lemma number_field_token:
  assumes "next_token l (CHR '':'') False False =
      Inr (if f = [] then TOKEN_BLANK else TOKEN_OK, Some i, l')" "token_text l' (Some i) = f"
  shows "number_field g (l, e) = Inr (map_option (Pair l') (map_option (\<lambda>n. g n e) (number_spec f)))"
  using assms by (auto simp: number_field_def number_spec_def split: option.splits)

lemma type_field_token:
  assumes "next_token l (CHR '':'') False False =
      Inr (if f = [] then TOKEN_BLANK else TOKEN_OK, Some i, l')" "token_text l' (Some i) = f"
  shows "type_field (l, e) = Inr (map_option (Pair l') (type_spec f e))"
  using assms by (auto simp: type_field_def type_spec_def type_of_string_def split: option.splits)

lemma ctty_field_token:
  assumes "next_token l (CHR '':'') False False =
      Inr (if f = [] then TOKEN_BLANK else TOKEN_OK, Some i, l')" "token_text l' (Some i) = f"
  shows "ctty_field (l, e) = Inr (map_option (Pair l') (ctty_spec f e))"
  using assms by (auto simp: ctty_field_def ctty_spec_def strcpy_def CTTY_PATH_SIZE_def)

text \<open>
  A step that depends on the line through one call of \<open>next_token\<close> only, and that
  refuses a missing token, meets the contract.
\<close>

lemma field_readerI:
  assumes tok: "\<And>l l' f i e. next_token l (CHR '':'') False False =
        Inr (if f = [] then TOKEN_BLANK else TOKEN_OK, Some i, l') \<Longrightarrow> token_text l' (Some i) = f \<Longrightarrow>
        step (l, e) = Inr (map_option (Pair l') (spec f e))"
    and fin: "\<And>l e. next_token l (CHR '':'') False False = Inr (TOKEN_END, None, l) \<Longrightarrow>
        step (l, e) = Inr None"
  shows "field_reader step spec"
proof (unfold_locales, goal_cases)
  case (1 l p f r post e)
  then show ?case using next_token_field [of l p f "CHR '':''" r post] tok by fastforce
next
  case (2 l p f post e)
  then show ?case using next_token_last_field [of l p f post "CHR '':''"] tok by fastforce
next
  case (3 l p e)
  then show ?case using fin next_token_end at_Nil_end by blast
qed

interpretation order_reader: field_reader order_field order_spec
  by (rule field_readerI)
    (simp_all add: order_field_def order_spec_def number_field_token, simp add: number_field_def)

interpretation core_id_reader: field_reader core_id_field core_id_spec
  by (rule field_readerI)
    (simp_all add: core_id_field_def core_id_spec_def number_field_token, simp add: number_field_def)

interpretation type_reader: field_reader type_field type_spec
  by (rule field_readerI) (auto simp: type_field_token, simp add: type_field_def)

interpretation ctty_reader: field_reader ctty_field ctty_spec
  by (rule field_readerI) (auto simp: ctty_field_token, simp add: ctty_field_def)

lemma process_field_at:
  assumes "at l p (f @ NUL # post)" "NUL \<notin> set f"
  shows "\<exists>l'. process_field (l, e) =
      Inr (if f = [] \<or> 4096 \<le> length f then None else Some (l', e\<lparr>process_name := f\<rparr>))"
proof -
  obtain l' where "next_token l NUL False False =
      Inr (if f = [] then TOKEN_BLANK else TOKEN_OK, Some (length p), l')"
    "token_text l' (Some (length p)) = f"
    using next_token_last_field [OF assms(1,2,2)] by auto
  then show ?thesis by (intro exI [of _ l']) (auto simp: process_field_def strcpy_def PROCESS_NAME_SIZE_def)
qed

lemma process_field_blank: "at l p (replicate k NUL) \<Longrightarrow> run_fields [process_field] (l, e) = Inr None"
  using process_field_at [of l p "[]" "replicate (k - 1) NUL" e] next_token_end [OF at_Nil_end, of l p]
  by (cases k) (auto simp: process_field_def)

subsection \<open>A whole line\<close>

abbreviation all_fields :: "field_step list" where
  "all_fields \<equiv> [order_field, core_id_field, type_field, ctty_field, process_field]"

text \<open>A line with its four colons: the code computes \<open>entry_spec\<close>, whatever is behind it.\<close>

definition process_spec :: "string \<Rightarrow> inittab_entry \<Rightarrow> inittab_entry option" where
  "process_spec s e = (if s = [] \<or> 4096 \<le> length s then None else Some (e\<lparr>process_name := s\<rparr>))"

lemma run_process:
  "at l p (f @ NUL # post) \<Longrightarrow> NUL \<notin> set f \<Longrightarrow>
   \<exists>l'. run_fields [process_field] (l, e) = Inr (map_option (Pair l') (process_spec f e))"
  using process_field_at [of l p f post e] by (auto simp: process_spec_def)

lemma entry_spec_chain:
  "entry_spec ord core ty ctty proc =
    Option.bind (order_spec ord zero_entry) (\<lambda>e. Option.bind (core_id_spec core e) (\<lambda>e.
      Option.bind (type_spec ty e) (\<lambda>e. Option.bind (ctty_spec ctty e) (process_spec proc))))"
  by (auto simp: entry_spec_def order_spec_def core_id_spec_def type_spec_def ctty_spec_def
      process_spec_def zero_entry_def split: bind_split)

lemma run_fields_five:
  assumes at: "at l [] (ord @ CHR '':'' # core @ CHR '':'' # ty @ CHR '':'' # ctty @ CHR '':'' # proc
      @ NUL # post)"
    and colon: "CHR '':'' \<notin> set ord" "CHR '':'' \<notin> set core" "CHR '':'' \<notin> set ty"
      "CHR '':'' \<notin> set ctty"
    and nul: "NUL \<notin> set ord" "NUL \<notin> set core" "NUL \<notin> set ty" "NUL \<notin> set ctty" "NUL \<notin> set proc"
  shows "\<exists>l'. run_fields all_fields (l, zero_entry) =
    Inr (map_option (Pair l') (entry_spec ord core ty ctty proc))"
  unfolding entry_spec_chain
proof (rule order_reader.chain [of _ "[]" _ "core @ CHR '':'' # ty @ CHR '':'' # ctty @ CHR '':'' # proc"
      post])
  fix l e assume "at l ([] @ ord @ [NUL])
    ((core @ CHR '':'' # ty @ CHR '':'' # ctty @ CHR '':'' # proc) @ NUL # post)"
  then show "\<exists>l'. run_fields [core_id_field, type_field, ctty_field, process_field] (l, e) =
    Inr (map_option (Pair l')
      (Option.bind (core_id_spec core e) (\<lambda>e. Option.bind (type_spec ty e)
        (\<lambda>e. Option.bind (ctty_spec ctty e) (process_spec proc)))))"
    unfolding append_assoc append_Cons
    by (intro core_id_reader.chain [of _ _ _ "ty @ CHR '':'' # ctty @ CHR '':'' # proc" post]
        type_reader.chain [of _ _ _ "ctty @ CHR '':'' # proc" post]
        ctty_reader.chain [of _ _ _ proc post] run_process) (use colon nul in auto)
qed (use assms in auto)

text \<open>The cuts of a line at its colons, and what is behind the text when one is missing.\<close>

lemma cut_cases [case_names no_colon colon]:
  assumes "d \<notin> set s \<Longrightarrow> cut d s = None \<Longrightarrow> P"
    and "\<And>a b. s = a @ d # b \<Longrightarrow> d \<notin> set a \<Longrightarrow> cut d s = Some (a, b) \<Longrightarrow> P"
  shows P
proof (cases "cut d s")
  case None
  then show P using assms(1) by (simp add: cut_None)
next
  case (Some ab)
  then show P using assms(2) by (cases ab) (auto dest: cut_SomeD)
qed

lemma count_colon: "d \<notin> set a \<Longrightarrow> count_list (a @ d # b) d = Suc (count_list b d)"
  by (simp add: count_notin)

definition field_steps :: "field_step list \<Rightarrow> bool" where
  "field_steps steps \<longleftrightarrow> (\<forall>step \<in> set steps. \<exists>spec. field_reader step spec)"

lemma run_fields_blank:
  assumes "field_steps steps" "at l p (replicate k NUL)"
  shows "run_fields (steps @ [process_field]) (l, e) = Inr None"
  using assms
proof (induction steps arbitrary: l p k e)
  case Nil
  then show ?case using process_field_blank by simp
next
  case (Cons step steps)
  then obtain spec where "field_reader step spec" by (auto simp: field_steps_def)
  from field_reader.run_blank [OF this Cons.prems(2), of "steps @ [process_field]" e] Cons
  show ?case by (simp add: field_steps_def)
qed

text \<open>A line with a colon too few, in a buffer that holds only NULs behind it, is refused.\<close>

lemma run_fields_short:
  assumes "field_steps steps" "at l p (s @ NUL # replicate k NUL)" "NUL \<notin> set s"
    and "count_list s (CHR '':'') < length steps"
  shows "run_fields (steps @ [process_field]) (l, e) = Inr None"
  using assms
proof (induction steps arbitrary: l p s e)
  case Nil
  then show ?case by simp
next
  case (Cons step steps)
  then obtain spec where reader: "field_reader step spec" and steps: "field_steps steps"
    by (auto simp: field_steps_def)
  show ?case
  proof (cases s rule: cut_cases [where d = "CHR '':''"])
    case no_colon
    from field_reader.run_last_blank [OF reader Cons.prems(2) this(1) Cons.prems(3),
        of "steps @ [process_field]" e] run_fields_blank [OF steps]
    show ?thesis by simp
  next
    case (colon f r)
    with Cons.prems have at: "at l p (f @ CHR '':'' # r @ NUL # replicate k NUL)"
      and nul: "NUL \<notin> set f" "NUL \<notin> set r" and cnt: "count_list r (CHR '':'') < length steps"
      by (auto simp: count_colon)
    obtain l' where "run_fields (step # steps @ [process_field]) (l, e) =
        (case spec f e of None \<Rightarrow> Inr None | Some e' \<Rightarrow> run_fields (steps @ [process_field]) (l', e'))"
      "at l' (p @ f @ [NUL]) (r @ NUL # replicate k NUL)"
      using field_reader.run_reads [OF reader at colon(2) nul] by blast
    with Cons.IH [OF steps _ nul(2) cnt] show ?thesis by (auto split: option.splits)
  qed
qed

lemma field_steps_all: "field_steps [order_field, core_id_field, type_field, ctty_field]"
  using order_reader.field_reader_axioms core_id_reader.field_reader_axioms
    type_reader.field_reader_axioms ctty_reader.field_reader_axioms
  by (auto simp: field_steps_def)

text \<open>
  One line in the buffer: with its four colons, or with nothing but NULs behind it, the
  code computes \<open>parse_line\<close>.
\<close>

lemma parse_line_short: "count_list s (CHR '':'') < 4 \<Longrightarrow> parse_line s = None"
  by (auto simp: parse_line_def count_colon dest!: cut_SomeD split: bind_split option.splits)

lemma parse_line_cases [case_names short five]:
  assumes "count_list s (CHR '':'') < 4 \<Longrightarrow> P"
    and "\<And>ord core ty ctty proc.
      s = ord @ CHR '':'' # core @ CHR '':'' # ty @ CHR '':'' # ctty @ CHR '':'' # proc \<Longrightarrow>
      CHR '':'' \<notin> set ord \<Longrightarrow> CHR '':'' \<notin> set core \<Longrightarrow> CHR '':'' \<notin> set ty \<Longrightarrow> CHR '':'' \<notin> set ctty \<Longrightarrow> P"
  shows P
proof (cases "count_list s (CHR '':'') < 4")
  case False
  have cutting: "\<exists>a b. u = a @ CHR '':'' # b \<and> CHR '':'' \<notin> set a \<and> n \<le> count_list b (CHR '':'')"
    if "Suc n \<le> count_list u (CHR '':'')" for u n
    using that by (cases u rule: cut_cases [where d = "CHR '':''"]) (auto simp: count_notin)
  from False cutting [of 3 s] obtain ord s1 where s: "s = ord @ CHR '':'' # s1"
    "CHR '':'' \<notin> set ord" "3 \<le> count_list s1 (CHR '':'')" by auto
  from cutting [of 2 s1] s obtain core s2 where s1: "s1 = core @ CHR '':'' # s2"
    "CHR '':'' \<notin> set core" "2 \<le> count_list s2 (CHR '':'')" by auto
  from cutting [of 1 s2] s1 obtain ty s3 where s2: "s2 = ty @ CHR '':'' # s3"
    "CHR '':'' \<notin> set ty" "1 \<le> count_list s3 (CHR '':'')" by auto
  from cutting [of 0 s3] s2 obtain ctty proc where "s3 = ctty @ CHR '':'' # proc"
    "CHR '':'' \<notin> set ctty" by auto
  with s s1 s2 assms(2) show P by simp
qed (use assms(1) in blast)

lemma run_fields_line:
  assumes "at l [] (s @ NUL # post)" "NUL \<notin> set s"
    and "4 \<le> count_list s (CHR '':'') \<or> (\<exists>k. post = replicate k NUL)"
  shows "\<exists>l'. run_fields all_fields (l, zero_entry) = Inr (map_option (Pair l') (parse_line s))"
proof (cases s rule: parse_line_cases)
  case short
  then obtain k where "post = replicate k NUL" using assms(3) by auto
  with assms short run_fields_short [OF field_steps_all, of l "[]" s k zero_entry]
  show ?thesis by (simp add: parse_line_short)
next
  case (five ord core ty ctty proc)
  then have "parse_line s = entry_spec ord core ty ctty proc"
    by (simp add: parse_line_def cut_append)
  with five assms run_fields_five [of l ord core ty ctty proc post] show ?thesis by simp
qed

section \<open>The lists stay ordered\<close>

lemma insert_after_eq:
  "xs \<noteq> [] \<Longrightarrow> order (hd xs) \<le> order e \<Longrightarrow> insert_after e xs =
     takeWhile (\<lambda>x. order x \<le> order e) xs @ e # dropWhile (\<lambda>x. order x \<le> order e) xs"
  by (induction e xs rule: insert_after.induct) auto

interpretation entries: ordered_insert order add_entry_to_list
proof (unfold_locales, goal_cases)
  case (1 xs e)
  then show ?case
    by (cases xs) (auto simp: add_entry_to_list_def insert_after_eq not_le)
qed

section \<open>The whole file\<close>

text \<open>The reference for a file: the lines that count, in order, then the lists they give.\<close>

definition entry_line :: "string \<Rightarrow> bool" where
  "entry_line l \<longleftrightarrow> l \<noteq> [] \<and> \<not> comment_line l \<and> length l \<le> LINE_SIZE"

fun parse_lines :: "string list \<Rightarrow> inittab_entry option list" where
  "parse_lines [] = []"
| "parse_lines (l # ls) =
     (if LINE_SIZE < length l then None # parse_lines ls
      else if l = [] \<or> comment_line l then parse_lines ls
      else parse_line l # parse_lines ls)"

fun place_all :: "inittab_entry option list \<Rightarrow> inittab \<Rightarrow> bool \<Rightarrow> bool \<times> inittab" where
  "place_all [] t err = (err, t)"
| "place_all (None # es) t err = place_all es t True"
| "place_all (Some e # es) t err =
     (case place_entry e t of
        (placed, t') \<Rightarrow> if placed then place_all es t' err else (True, t'))"

definition empty_inittab :: inittab where
  "empty_inittab = \<lparr>startup_list = [], shutdown_list = [], safe_mode_entry = []\<rparr>"

definition inittab_of :: "inittab_entry list \<Rightarrow> inittab" where
  "inittab_of es =
     \<lparr>startup_list = sort_key order (filter is_startup_entry es),
      shutdown_list = sort_key order (filter is_shutdown_entry es),
      safe_mode_entry = filter (\<lambda>e. entry_type e = SAFE_MODE) es\<rparr>"

definition inittab_spec :: "string list \<Rightarrow> inittab option" where
  "inittab_spec ls =
     (let es = parse_lines ls in
      if None \<in> set es then None
      else let xs = map the es in
        if length (filter (\<lambda>e. entry_type e = SAFE_MODE) xs) = 1 then Some (inittab_of xs) else None)"

text \<open>
  The files the reference describes: lines of text, and either no comment (so that nothing
  is left behind a short line in the buffer) or four colons on every entry line.
\<close>

definition well_separated :: "string list \<Rightarrow> bool" where
  "well_separated ls \<longleftrightarrow> (\<forall>l \<in> set ls. text_line l) \<and>
     ((\<forall>l \<in> set ls. \<not> comment_line l) \<or> (\<forall>l \<in> set ls. entry_line l \<longrightarrow> 4 \<le> count_list l (CHR '':'')))"

definition file_of :: "string \<Rightarrow> FILE" where
  "file_of s = \<lparr>unread = s, eof_flag = False, read_error = False\<rparr>"

lemma parse_lines_next:
  "parse_lines ls =
     (case next_line_spec ls of
        (res, l, ls') \<Rightarrow>
          (case res of NEXT_LINE_OK \<Rightarrow> parse_line l # parse_lines ls'
           | NEXT_LINE_TOO_BIG \<Rightarrow> None # parse_lines ls' | _ \<Rightarrow> []))"
  by (induction ls) (auto simp: comment_line_def)

lemma well_separated_subset: "well_separated ls \<Longrightarrow> set ls' \<subseteq> set ls \<Longrightarrow> well_separated ls'"
  unfolding well_separated_def by blast

lemma at_line_buffer:
  assumes "length b = BUFFER_LEN"
  shows "at (init_lexer b (of_nat BUFFER_LEN)) [] b"
  using at_init_lexer [of b] by (simp add: assms BUFFER_LEN_def LINE_SIZE_def)

lemma line_in_buffer:
  assumes "length b0 = BUFFER_LEN" "entry_line l" "NUL \<notin> set l"
    and "4 \<le> count_list l (CHR '':'') \<or> b0 = replicate BUFFER_LEN NUL"
  shows "\<exists>l'. run_fields all_fields (init_lexer (write_line l b0) (of_nat BUFFER_LEN), zero_entry) =
    Inr (map_option (Pair l') (parse_line l))"
proof -
  have len: "length (write_line l b0) = BUFFER_LEN"
    using assms(1,2) by (simp add: length_write_line BUFFER_LEN_def entry_line_def)
  have "at (init_lexer (write_line l b0) (of_nat BUFFER_LEN)) [] (l @ NUL # drop (Suc (length l)) b0)"
    using at_line_buffer [OF len] by (simp only: write_line_def)
  from run_fields_line [OF this assms(3)] assms(4) show ?thesis by auto
qed

text \<open>What \<open>inittab_parse_entry\<close> returns for the line it found and its meaning.\<close>

definition line_result ::
    "inittab_entry option \<Rightarrow> FILE \<Rightarrow> (inittab_parse_result \<times> inittab_entry \<times> FILE) c_res"
where
  "line_result m fp = Inr (case m of None \<Rightarrow> (RESULT_ERROR, zero_entry, fp) | Some e \<Rightarrow> (RESULT_OK, e, fp))"

lemma well_separated_line:
  assumes "well_separated ls" "entry_line l" "l \<in> set ls"
    and "(\<forall>x \<in> set ls. \<not> comment_line x) \<longrightarrow> b0 = replicate BUFFER_LEN NUL"
  shows "NUL \<notin> set l" and "4 \<le> count_list l (CHR '':'') \<or> b0 = replicate BUFFER_LEN NUL"
  using assms by (auto simp: well_separated_def text_line_def)

lemma parse_entry_spec:
  assumes "well_separated ls" "next_line_spec ls = (res, l, ls')" "end_text = [] \<or> res \<noteq> NEXT_LINE_EOF"
  shows "inittab_parse_entry (file_of (unlines ls @ end_text)) zero_entry =
    (case res of
       NEXT_LINE_OK \<Rightarrow> line_result (parse_line l) (file_of (unlines ls' @ end_text))
     | NEXT_LINE_TOO_BIG \<Rightarrow> line_result None (file_of (unlines ls' @ end_text))
     | _ \<Rightarrow> Inr (RESULT_DONE, zero_entry, (file_of [])\<lparr>eof_flag := True\<rparr>))"
proof -
  let ?fp = "file_of (unlines ls @ end_text)" and ?b = "replicate BUFFER_LEN NUL"
  have is_text: "\<forall>l \<in> set ls. text_line l" using assms(1) by (simp add: well_separated_def)
  note spec = next_line_spec_cases [OF assms(2) is_text]
  obtain b' where nl: "inittab_next_line ?fp ?b =
      Inr (res, b', ?fp\<lparr>unread := unlines ls' @ end_text, eof_flag := (res = NEXT_LINE_EOF)\<rparr>)"
    and b': "res \<noteq> NEXT_LINE_EOF \<longrightarrow> (\<exists>b0. b' = write_line l b0 \<and> length b0 = length ?b \<and>
        ((\<forall>x \<in> set ls. \<not> comment_line x) \<longrightarrow> b0 = ?b))"
    using next_line_reads_lines [of ?fp ls end_text ?b res l ls'] assms(2,3) is_text
    by (auto simp: file_of_def BUFFER_LEN_def line_buffer_def)
  have fp': "?fp\<lparr>unread := u, eof_flag := False\<rparr> = file_of u" for u by (simp add: file_of_def)
  show ?thesis
  proof (cases res)
    case NEXT_LINE_OK
    then obtain b0 where b0: "b' = write_line l b0" "length b0 = BUFFER_LEN"
      "(\<forall>x \<in> set ls. \<not> comment_line x) \<longrightarrow> b0 = ?b" using b' by auto
    have l: "entry_line l" "l \<in> set ls" using spec NEXT_LINE_OK by (auto simp: entry_line_def)
    from line_in_buffer [OF b0(2) l(1) well_separated_line [OF assms(1) l b0(3)]] nl NEXT_LINE_OK fp' b0(1)
    show ?thesis
      by (cases "parse_line l")
        (auto simp: inittab_parse_entry_def line_result_def file_of_def simp del: run_fields.simps)
  qed (use nl fp' spec assms(3) in \<open>auto simp: inittab_parse_entry_def line_result_def file_of_def\<close>)
qed

lemma read_loop_spec:
  assumes "well_separated ls" "set callocs \<subseteq> {True}"
  shows "read_loop callocs (file_of (unlines ls)) t err = Some (Inr (place_all (parse_lines ls) t err))"
  using assms
proof (induction ls arbitrary: callocs t err rule: length_induct)
  case (1 ls)
  obtain res l ls' where nl: "next_line_spec ls = (res, l, ls')" by (cases "next_line_spec ls")
  have is_text: "\<forall>l \<in> set ls. text_line l" using "1.prems" by (simp add: well_separated_def)
  note spec = next_line_spec_cases [OF nl is_text]
  obtain cs where cs: "pop_ok callocs = (True, cs)" "set cs \<subseteq> {True}"
    using "1.prems"(2) by (cases callocs) auto
  have IH: "read_loop cs (file_of (unlines ls')) t' err' = Some (Inr (place_all (parse_lines ls') t' err'))"
    if "res \<noteq> NEXT_LINE_EOF" for t' err'
    using that "1.IH" spec well_separated_subset [OF "1.prems"(1)] cs(2) by blast
  show ?case
    using parse_entry_spec [OF "1.prems"(1) nl, of "[]"] cs(1) IH spec
    by (subst read_loop.simps)
      (auto simp: line_result_def parse_lines_next [of ls] nl split: next_line_result.splits option.splits prod.splits)
qed

lemma place_entry_cases:
  "place_entry e t =
     (if is_startup_entry e then (True, t\<lparr>startup_list := add_entry_to_list (startup_list t) e\<rparr>)
      else if is_shutdown_entry e then (True, t\<lparr>shutdown_list := add_entry_to_list (shutdown_list t) e\<rparr>)
      else if safe_mode_entry t = [] then (True, t\<lparr>safe_mode_entry := [e]\<rparr>) else (False, t))"
  by (cases "entry_type e")
    (auto simp: place_entry_def is_startup_entry_def is_shutdown_entry_def add_entry_to_list_def)

lemma entry_kinds:
  "is_startup_entry e \<Longrightarrow> \<not> is_shutdown_entry e \<and> entry_type e \<noteq> SAFE_MODE"
  "is_shutdown_entry e \<Longrightarrow> \<not> is_startup_entry e \<and> entry_type e \<noteq> SAFE_MODE"
  "\<not> is_startup_entry e \<Longrightarrow> \<not> is_shutdown_entry e \<Longrightarrow> entry_type e = SAFE_MODE"
  by (cases "entry_type e"; simp add: is_startup_entry_def is_shutdown_entry_def)+

lemma place_all_error: "fst (place_all es t True)"
  by (induction es t "True" rule: place_all.induct) (auto split: prod.splits)

lemma place_all_None: "None \<in> set es \<Longrightarrow> fst (place_all es t err)"
  by (induction es t err rule: place_all.induct) (auto simp: place_all_error split: prod.splits)

abbreviation safe_mode_entries :: "inittab_entry list \<Rightarrow> inittab_entry list" where
  "safe_mode_entries es \<equiv> filter (\<lambda>e. entry_type e = SAFE_MODE) es"

lemma place_all_two_safe_modes:
  "1 < length (safe_mode_entry t @ safe_mode_entries es) \<Longrightarrow> length (safe_mode_entry t) \<le> 1 \<Longrightarrow>
   fst (place_all (map Some es) t err)"
proof (induction es arbitrary: t)
  case (Cons e es)
  then show ?case using entry_kinds [of e]
    by (cases "safe_mode_entry t") (auto simp: place_entry_cases)
qed auto

lemma place_all_ok:
  "length (safe_mode_entry t @ safe_mode_entries es) \<le> 1 \<Longrightarrow>
   place_all (map Some es) t err =
     (err, \<lparr>startup_list = foldl add_entry_to_list (startup_list t) (filter is_startup_entry es),
            shutdown_list = foldl add_entry_to_list (shutdown_list t) (filter is_shutdown_entry es),
            safe_mode_entry = safe_mode_entry t @ safe_mode_entries es\<rparr>)"
proof (induction es arbitrary: t)
  case (Cons e es)
  then show ?case using entry_kinds [of e]
    by (cases "safe_mode_entry t") (auto simp: place_entry_cases)
qed simp

lemma place_all_inittab_spec:
  "(case place_all (parse_lines ls) empty_inittab False of
      (err, t) \<Rightarrow> if err \<or> safe_mode_entry t = [] then None else Some t) = inittab_spec ls"
proof (cases "None \<in> set (parse_lines ls)")
  case True
  then show ?thesis
    using place_all_None [OF True, of empty_inittab False]
    by (auto simp: inittab_spec_def split: prod.splits)
next
  case False
  define xs where "xs = map the (parse_lines ls)"
  have es: "parse_lines ls = map Some xs"
    using False unfolding xs_def map_map comp_def
    by (intro map_idI [symmetric]) (metis option.collapse)
  consider "length (safe_mode_entries xs) = 1" | "length (safe_mode_entries xs) = 0"
    | "1 < length (safe_mode_entries xs)" by linarith
  then show ?thesis
  proof cases
    case 3
    then have "fst (place_all (map Some xs) empty_inittab False)"
      by (intro place_all_two_safe_modes) (simp_all add: empty_inittab_def)
    with 3 False show ?thesis
      by (auto simp: inittab_spec_def es [symmetric] xs_def [symmetric] Let_def split: prod.splits)
  qed (use False in \<open>auto simp: inittab_spec_def es xs_def [symmetric] Let_def place_all_ok
      empty_inittab_def inittab_of_def entries.foldl_ins_sort comp_def split: prod.splits\<close>)
qed

lemma read_inittab_spec:
  assumes "well_separated ls" "set callocs \<subseteq> {True}"
  shows "read_inittab callocs (Some (file_of (unlines ls))) empty_inittab = Some (Inr (inittab_spec ls))"
  using read_loop_spec [OF assms, of empty_inittab False] place_all_inittab_spec [of ls]
  by (auto simp: read_inittab_def split: prod.splits)

section \<open>No fault, whatever the file holds\<close>

text \<open>What holds of the lists of any inittab that is read, whatever its lines mean.\<close>

definition inittab_ok :: "inittab \<Rightarrow> bool" where
  "inittab_ok t \<longleftrightarrow> sorted (map order (startup_list t)) \<and> list_all is_startup_entry (startup_list t) \<and>
     list_all (\<lambda>e. entry_type e = SAFE_MODE) (safe_mode_entry t)"

lemma place_entry_keeps:
  assumes "inittab_ok t" "place_entry e t = (placed, t')"
  shows "inittab_ok t' \<and> length (startup_list t') \<le> Suc (length (startup_list t))"
proof -
  have sorted: "sorted (map order (startup_list t))" using assms(1) by (simp add: inittab_ok_def)
  have "set (add_entry_to_list (startup_list t) e) = insert e (set (startup_list t))"
    "length (add_entry_to_list (startup_list t) e) = Suc (length (startup_list t))"
    using arg_cong [OF entries.mset_ins [OF sorted, of e], of set_mset]
      arg_cong [OF entries.mset_ins [OF sorted, of e], of size] by simp_all
  with assms entries.sorted_ins [OF sorted, of e] entry_kinds(3) [of e] show ?thesis
    by (auto simp: inittab_ok_def place_entry_cases list_all_iff split: if_splits)
qed

definition safe_step :: "field_step \<Rightarrow> bool" where
  "safe_step f \<longleftrightarrow> (\<forall>l e. lexer_ok l \<longrightarrow> (\<exists>r. f (l, e) = Inr r \<and>
     (\<forall>l' e'. r = Some (l', e') \<longrightarrow> lexer_ok l')))"

lemma safe_stepI:
  assumes "\<And>l e. f (l, e) = res_bind (next_token l d False False) (\<lambda>(tr, off, l'). g tr off l' e)"
    and "\<And>tr off l' e. \<exists>r. g tr off l' e = Inr r \<and> (\<forall>l'' e'. r = Some (l'', e') \<longrightarrow> l'' = l')"
  shows "safe_step f"
  unfolding safe_step_def
proof (intro allI impI)
  fix l e assume "lexer_ok l"
  then obtain tr off l' where "next_token l d False False = Inr (tr, off, l')" "lexer_ok l'"
    using next_token_unquoted_ok by blast
  then show "\<exists>r. f (l, e) = Inr r \<and> (\<forall>l' e'. r = Some (l', e') \<longrightarrow> lexer_ok l')"
    using assms(1) [of l e] assms(2) [of tr off l' e] by auto
qed

lemma safe_number_field: "safe_step (number_field g)"
  by (rule safe_stepI, simp add: number_field_def) (auto split: if_splits option.splits)

lemma safe_fields: "\<forall>f \<in> set all_fields. safe_step f"
proof -
  have "safe_step type_field"
    by (rule safe_stepI, simp add: type_field_def) (auto split: if_splits option.splits)
  moreover have "safe_step ctty_field"
    by (rule safe_stepI, simp add: ctty_field_def) (auto simp: strcpy_def)
  moreover have "safe_step process_field"
    by (rule safe_stepI, simp add: process_field_def) (auto simp: strcpy_def)
  ultimately show ?thesis by (simp add: order_field_def core_id_field_def safe_number_field)
qed

lemma run_fields_safe:
  "\<forall>f \<in> set fs. safe_step f \<Longrightarrow> lexer_ok l \<Longrightarrow> \<exists>r. run_fields fs (l, e) = Inr r"
proof (induction fs arbitrary: l e)
  case (Cons f fs)
  from Cons.prems have "safe_step f" by simp
  then obtain r where r: "f (l, e) = Inr r" "\<forall>l' e'. r = Some (l', e') \<longrightarrow> lexer_ok l'"
    using Cons.prems(2) unfolding safe_step_def by blast
  show ?case
  proof (cases r)
    case (Some st)
    with r Cons show ?thesis by (cases st) simp
  qed (use r in simp)
qed simp

lemma fscanf_line_safe:
  assumes "length b = BUFFER_LEN"
  shows "\<exists>r b' fp'. fscanf_line fp b = Inr (r, b', fp') \<and> length b' = BUFFER_LEN"
proof -
  let ?s = "takeWhile (\<lambda>c. c \<noteq> newline) (take LINE_SIZE (unread fp))"
  have "length ?s < length b"
    using length_takeWhile_le [of "\<lambda>c. c \<noteq> newline" "take LINE_SIZE (unread fp)"] assms
    by (simp add: BUFFER_LEN_def)
  then show ?thesis using assms length_write_line [of ?s b] by (simp add: fscanf_line_def Let_def)
qed

lemma discard_line_safe: "\<exists>fp'. discard_line fp = Inr fp'"
proof (induction fp rule: discard_line.induct)
  case (1 fp)
  obtain r b1 fp1 c fp2 where scan: "fscanf_line fp (replicate BUFFER_LEN NUL) = Inr (r, b1, fp1)" "fgetc fp1 = (c, fp2)"
    using fscanf_line_safe [of "replicate BUFFER_LEN NUL" fp] by (cases "fgetc (snd (snd (projr (fscanf_line fp (replicate BUFFER_LEN NUL)))))") auto
  with 1 [OF scan(1) refl refl scan(2) [symmetric]] show ?case
    by (subst discard_line.simps) auto
qed

lemma next_line_safe:
  "length b = BUFFER_LEN \<Longrightarrow>
   \<exists>res b' fp'. inittab_next_line fp b = Inr (res, b', fp') \<and> length b' = BUFFER_LEN"
proof (induction fp b rule: inittab_next_line.induct)
  case (1 fp b)
  obtain r b1 fp1 where scan: "fscanf_line fp b = Inr (r, b1, fp1)" and len: "length b1 = BUFFER_LEN"
    using fscanf_line_safe [OF "1.prems"] by blast
  obtain c fp2 where getc: "fgetc fp1 = (c, fp2)" by (cases "fgetc fp1")
  have b0: "load b1 0 = Inr (b1 ! 0)" using len by (simp add: load_def BUFFER_LEN_def)
  show ?case
  proof (cases "next_line_verdict r (b1 ! 0) c fp2")
    case None
    then have "inittab_next_line fp b = inittab_next_line fp2 b1"
      by (subst inittab_next_line.simps) (simp add: scan getc b0)
    with "1.IH" [OF scan refl refl getc [symmetric] b0 None len] show ?thesis by simp
  next
    case (Some v)
    then have "inittab_next_line fp b =
        res_bind (if v = NEXT_LINE_TOO_BIG then discard_line fp2 else Inr fp2) (\<lambda>fp3. Inr (v, b1, fp3))"
      by (subst inittab_next_line.simps) (simp add: scan getc b0)
    with len discard_line_safe [of fp2] show ?thesis by auto
  qed
qed

lemma parse_entry_returns: "\<exists>r e' fp'. inittab_parse_entry fp e = Inr (r, e', fp')"
proof -
  obtain nxt b fp' where nl: "inittab_next_line fp (replicate BUFFER_LEN NUL) = Inr (nxt, b, fp')"
    and "length b = BUFFER_LEN" using next_line_safe [of "replicate BUFFER_LEN NUL" fp] by auto
  then have "lexer_ok (init_lexer b (of_nat BUFFER_LEN))"
    by (simp add: lexer_ok_def init_lexer_def BUFFER_LEN_def LINE_SIZE_def)
  then obtain res where "run_fields all_fields (init_lexer b (of_nat BUFFER_LEN), e) = Inr res"
    using run_fields_safe [OF safe_fields] by blast
  with nl show ?thesis
    by (cases nxt; cases res) (auto simp: inittab_parse_entry_def simp del: run_fields.simps)
qed

text \<open>
  A file of terminated lines is read to its end, whatever the lines hold and whatever the
  allocator answers.
\<close>

lemma parse_entry_terminated:
  assumes "\<forall>l \<in> set ls. text_line l" "next_line_spec ls = (res, l, ls')"
  shows "\<exists>r e fp'. inittab_parse_entry (file_of (unlines ls)) zero_entry = Inr (r, e, fp') \<and>
    (if res = NEXT_LINE_EOF then r = RESULT_DONE else r \<noteq> RESULT_DONE \<and> fp' = file_of (unlines ls'))"
proof -
  let ?fp = "file_of (unlines ls)" and ?b = "replicate BUFFER_LEN NUL"
  obtain b' where nl: "inittab_next_line ?fp ?b = Inr (res, b', ?fp\<lparr>unread := unlines ls', eof_flag := (res = NEXT_LINE_EOF)\<rparr>)"
    using next_line_reads_lines [of ?fp ls "[]" ?b res l ls'] assms
    by (auto simp: file_of_def BUFFER_LEN_def line_buffer_def)
  obtain r e fp' where ret: "inittab_parse_entry ?fp zero_entry = Inr (r, e, fp')"
    using parse_entry_returns by blast
  have "res \<noteq> NEXT_LINE_ERROR" using next_line_spec_cases [OF assms(2,1)] by simp
  then have "if res = NEXT_LINE_EOF then r = RESULT_DONE else r \<noteq> RESULT_DONE \<and> fp' = file_of (unlines ls')"
    using ret nl by (cases res) (auto simp: inittab_parse_entry_def file_of_def res_bind_Inr_iff simp del: run_fields.simps
        split: option.splits)
  with ret show ?thesis by blast
qed

lemma read_loop_returns:
  assumes "\<forall>l \<in> set ls. text_line l" "inittab_ok t"
  shows "\<exists>err' t'. read_loop callocs (file_of (unlines ls)) t err = Some (Inr (err', t')) \<and> inittab_ok t' \<and>
    length (startup_list t') \<le> length (startup_list t) + length ls"
  using assms
proof (induction ls arbitrary: callocs t err rule: length_induct)
  case (1 ls)
  obtain res l ls' where nl: "next_line_spec ls = (res, l, ls')" by (cases "next_line_spec ls")
  note spec = next_line_spec_cases [OF nl "1.prems"(1)]
  obtain ok cs where cs: "pop_ok callocs = (ok, cs)" by (cases "pop_ok callocs")
  obtain r e fp' where parse: "inittab_parse_entry (file_of (unlines ls)) zero_entry = Inr (r, e, fp')"
      "if res = NEXT_LINE_EOF then r = RESULT_DONE else r \<noteq> RESULT_DONE \<and> fp' = file_of (unlines ls')"
    using parse_entry_terminated [OF "1.prems"(1) nl] by blast
  have IH: "\<exists>err2 t2. read_loop cs fp' t' err' = Some (Inr (err2, t2)) \<and> inittab_ok t2 \<and>
      length (startup_list t2) \<le> length (startup_list t) + length ls"
    if "r \<noteq> RESULT_DONE" "inittab_ok t'" "length (startup_list t') \<le> Suc (length (startup_list t))" for t' err'
  proof -
    from that parse(2) have fp: "fp' = file_of (unlines ls')" "length ls' < length ls" "set ls' \<subseteq> set ls"
      using spec by (auto split: if_splits)
    with "1.IH" "1.prems"(1) that(2) obtain err2 t2 where "read_loop cs fp' t' err' = Some (Inr (err2, t2))" "inittab_ok t2"
        "length (startup_list t2) \<le> length (startup_list t') + length ls'" by (metis subsetD)
    with that(3) fp(2) show ?thesis by (intro exI [of _ err2] exI [of _ t2]) simp
  qed
  obtain placed t' where place: "place_entry e t = (placed, t')" by (cases "place_entry e t")
  note keeps = place_entry_keeps [OF "1.prems"(2) place]
  have placed: "length (startup_list t') \<le> length (startup_list t) + length ls" if "r \<noteq> RESULT_DONE"
    using that parse(2) spec keeps by (auto split: if_splits)
  show ?case
    using cs parse(1) place keeps placed IH [of t'] IH [of t] "1.prems"(2)
    by (subst read_loop.simps) (cases r; auto split: if_splits)
qed

lemma read_inittab_returns:
  assumes "\<forall>l \<in> set ls. text_line l"
  shows "\<exists>m. read_inittab callocs (Some (file_of (unlines ls))) empty_inittab = Some (Inr m) \<and>
    (\<forall>t. m = Some t \<longrightarrow> inittab_ok t \<and> safe_mode_entry t \<noteq> [] \<and> length (startup_list t) \<le> length ls)"
proof -
  have "inittab_ok empty_inittab" by (simp add: inittab_ok_def empty_inittab_def)
  from read_loop_returns [OF assms this, of callocs False] show ?thesis
    by (auto simp: read_inittab_def empty_inittab_def)
qed

text \<open>C21: \<open>inittab_parse_entry\<close> always returns and never reads or writes outside an array, on every
  stream (embedded NULs, lines of any length, read errors included): not in the line buffer that
  \<open>fscanf\<close> fills and the tokeniser overwrites, and not in the arrays \<open>ctty_path\<close> and
  \<open>process_name\<close> of the entry that \<open>strcpy\<close> fills.\<close>

theorem inittab_parse_entry_safe: "\<exists>r e' fp'. inittab_parse_entry fp e = Inr (r, e', fp')"
  by (rule parse_entry_returns)

section \<open>Every accepted entry is well formed\<close>

definition entry_wf :: "inittab_entry \<Rightarrow> bool" where
  "entry_wf e \<longleftrightarrow> - 1 \<le> order e \<and> order e \<le> INT32_MAX \<and> - 1 \<le> core_id e \<and> core_id e \<le> INT32_MAX \<and>
     (order e = - 1 \<longrightarrow> entry_type e = SAFE_MODE) \<and> length (ctty_path e) < 256 \<and>
     process_name e \<noteq> [] \<and> length (process_name e) < 4096 \<and> NUL \<notin> set (process_name e)"

lemma safe_strtoi32_t_range: "safe_strtoi32_t s = Some n \<Longrightarrow> INT32_MIN \<le> n \<and> n \<le> INT32_MAX"
  by (auto simp: safe_strtoi32_t_def split: prod.splits if_splits)

lemma number_field_result:
  "number_field g (l, e) = Inr (Some (l', e')) \<Longrightarrow> \<exists>n. e' = g n e \<and> - 1 \<le> n \<and> n \<le> INT32_MAX"
  by (auto simp: number_field_def res_simps dest!: safe_strtoi32_t_range split: if_splits option.splits)

lemma type_field_result:
  "type_field (l, e) = Inr (Some (l', e')) \<Longrightarrow>
   \<exists>t. e' = e\<lparr>entry_type := t\<rparr> \<and> (order e = - 1 \<longrightarrow> t = SAFE_MODE)"
  by (auto simp: type_field_def res_simps split: if_splits option.splits)

lemma ctty_field_result:
  "ctty_field (l, e) = Inr (Some (l', e')) \<Longrightarrow> \<exists>c. e' = e\<lparr>ctty_path := c\<rparr> \<and> length c < 256"
  by (auto simp: ctty_field_def strcpy_def CTTY_PATH_SIZE_def res_simps split: if_splits)

lemma process_field_result:
  assumes "lexer_ok l" "process_field (l, e) = Inr (Some (l', e'))"
  shows "\<exists>s. e' = e\<lparr>process_name := s\<rparr> \<and> s \<noteq> [] \<and> length s < 4096 \<and> NUL \<notin> set s"
  using next_token_unquoted_ok [OF assms(1), of NUL False] assms(2)
  by (auto simp: process_field_def strcpy_def PROCESS_NAME_SIZE_def token_text_def cstring_at_def cstring_no_NUL
      split: if_splits)

lemma run_fields_Cons_Some:
  "run_fields (f # fs) st = Inr (Some st') \<longleftrightarrow>
   (\<exists>st1. f st = Inr (Some st1) \<and> run_fields fs st1 = Inr (Some st'))"
  by (auto simp: res_simps split: option.splits)

lemma safe_stepD: "safe_step f \<Longrightarrow> lexer_ok l \<Longrightarrow> f (l, e) = Inr (Some (l', e')) \<Longrightarrow> lexer_ok l'"
  unfolding safe_step_def by (metis sum.inject(2))

lemma run_fields_wf:
  assumes "lexer_ok l" "run_fields all_fields (l, e) = Inr (Some (l', e'))"
  shows "entry_wf e'"
proof -
  obtain l1 e1 l2 e2 l3 e3 l4 e4 where steps:
    "order_field (l, e) = Inr (Some (l1, e1))" "core_id_field (l1, e1) = Inr (Some (l2, e2))"
    "type_field (l2, e2) = Inr (Some (l3, e3))" "ctty_field (l3, e3) = Inr (Some (l4, e4))"
    "process_field (l4, e4) = Inr (Some (l', e'))"
    using assms(2) by (auto simp only: run_fields_Cons_Some run_fields.simps(1) prod.inject
        sum.inject option.inject split_paired_Ex)
  have "lexer_ok l4" using safe_fields assms(1) steps by (auto dest: safe_stepD)
  from process_field_result [OF this steps(5)] ctty_field_result [OF steps(4)]
    type_field_result [OF steps(3)] number_field_result [OF steps(2) [unfolded core_id_field_def]]
    number_field_result [OF steps(1) [unfolded order_field_def]]
  show ?thesis by (auto simp: entry_wf_def)
qed

text \<open>C22: whatever the file holds, an entry that \<open>inittab_parse_entry\<close> accepts has an order
  and a core in range, a blank order only if it is the safe-mode entry, and a terminal path and a
  process name that fit their arrays.\<close>

theorem inittab_parse_entry_wf:
  assumes "inittab_parse_entry fp e = Inr (RESULT_OK, e', fp')"
  shows "entry_wf e'"
proof -
  obtain nxt b fp1 where nl: "inittab_next_line fp (replicate BUFFER_LEN NUL) = Inr (nxt, b, fp1)"
    and "length b = BUFFER_LEN" using next_line_safe [of "replicate BUFFER_LEN NUL" fp] by auto
  then have ok: "lexer_ok (init_lexer b (of_nat BUFFER_LEN))"
    by (simp add: lexer_ok_def init_lexer_def BUFFER_LEN_def LINE_SIZE_def)
  have "\<exists>l'. run_fields all_fields (init_lexer b (of_nat BUFFER_LEN), e) = Inr (Some (l', e'))"
    using assms nl
    by (auto simp: inittab_parse_entry_def res_bind_Inr_iff simp del: run_fields.simps
        split: if_splits next_line_result.splits option.splits)
  with run_fields_wf [OF ok] show ?thesis by blast
qed

section \<open>A file that does not end its last line\<close>

lemma read_loop_after_eof:
  assumes "eof_flag fp" "set callocs \<subseteq> {True}"
  shows "read_loop callocs fp t err = None"
proof (rule ccontr)
  assume "read_loop callocs fp t err \<noteq> None"
  then obtain r where ret: "read_loop callocs fp t err = Some r" by blast
  have "eof_flag fp \<longrightarrow> \<not> set callocs \<subseteq> {True}"
  proof (rule read_loop.raw_induct
      [where P = "\<lambda>cs fp t err r. eof_flag fp \<longrightarrow> \<not> set cs \<subseteq> {True}", OF _ ret], goal_cases)
    case (1 f cs fp t err r)
    then show ?case by (cases cs) (fastforce simp: inittab_parse_entry_def)+
  qed
  with assms show False by blast
qed

text \<open>At most one safe-mode entry so far: every entry finds its place.\<close>

fun somes :: "'a option list \<Rightarrow> 'a list" where
  "somes [] = []"
| "somes (None # ms) = somes ms"
| "somes (Some x # ms) = x # somes ms"

definition placeable :: "inittab \<Rightarrow> inittab_entry option list \<Rightarrow> bool" where
  "placeable t ms \<longleftrightarrow> length (safe_mode_entry t @ safe_mode_entries (somes ms)) \<le> 1"

lemma placeable_Cons:
  assumes "placeable t (m # ms)"
  shows "(case m of None \<Rightarrow> placeable t ms
    | Some e \<Rightarrow> \<exists>t'. place_entry e t = (True, t') \<and> placeable t' ms)"
proof (cases m)
  case (Some e)
  with assms entry_kinds [of e] show ?thesis
    by (cases "safe_mode_entry t") (auto simp: placeable_def place_entry_cases split: if_splits)
qed (use assms in \<open>simp add: placeable_def\<close>)

lemma parse_entry_unterminated:
  assumes "well_separated (ls @ [l])" "entry_line l" "next_line_spec ls = (NEXT_LINE_EOF, l0, ls')"
  shows "inittab_parse_entry (file_of (unlines ls @ l)) zero_entry =
    line_result (parse_line l) ((file_of [])\<lparr>eof_flag := True\<rparr>)"
proof -
  let ?fp = "file_of (unlines ls @ l)" and ?b = "replicate BUFFER_LEN NUL"
  have is_text: "\<forall>x \<in> set (ls @ [l]). text_line x" using assms(1) by (simp add: well_separated_def)
  obtain b0 where skip: "inittab_next_line ?fp ?b = inittab_next_line (?fp\<lparr>unread := l\<rparr>) b0"
    and b0: "length b0 = BUFFER_LEN" "(\<forall>x \<in> set ls. \<not> comment_line x) \<longrightarrow> b0 = ?b"
    using next_line_skips [of ?fp ls l ?b l0 ls'] assms(3) is_text
    by (auto simp: file_of_def BUFFER_LEN_def line_buffer_def)
  have "inittab_next_line (?fp\<lparr>unread := l\<rparr>) b0 =
      Inr (NEXT_LINE_OK, write_line l b0, (file_of [])\<lparr>eof_flag := True\<rparr>)"
    using next_line_unterminated [of "?fp\<lparr>unread := l\<rparr>" l b0] is_text assms(2) b0(1)
    by (auto simp: BUFFER_LEN_def entry_line_def comment_line_def file_of_def hit_end_def)
  moreover have "(\<forall>x \<in> set (ls @ [l]). \<not> comment_line x) \<longrightarrow> b0 = ?b" using b0(2) by simp
  ultimately show ?thesis
    using line_in_buffer [OF b0(1) assms(2) well_separated_line [OF assms(1,2), of b0]] skip
    by (cases "parse_line l")
      (auto simp: inittab_parse_entry_def line_result_def file_of_def simp del: run_fields.simps)
qed

lemma read_loop_unterminated:
  assumes "well_separated (ls @ [l])" "entry_line l" "set callocs \<subseteq> {True}"
    and "placeable t (parse_lines ls @ [parse_line l])"
  shows "read_loop callocs (file_of (unlines ls @ l)) t err = None"
  using assms
proof (induction ls arbitrary: callocs t err rule: length_induct)
  case (1 ls)
  obtain res l1 ls' where nl: "next_line_spec ls = (res, l1, ls')" by (cases "next_line_spec ls")
  have sep: "well_separated ls" using "1.prems"(1) by (rule well_separated_subset) auto
  have is_text: "\<forall>l \<in> set ls. text_line l" using sep by (simp add: well_separated_def)
  note spec = next_line_spec_cases [OF nl is_text]
  obtain cs where cs: "pop_ok callocs = (True, cs)" "set cs \<subseteq> {True}"
    using "1.prems"(3) by (cases callocs) auto
  show ?case
  proof (cases "res = NEXT_LINE_EOF")
    case True
    then have "parse_lines ls = []" by (simp add: parse_lines_next [of ls] nl)
    then have "placeable t [parse_line l]" using "1.prems"(4) by simp
    note place = placeable_Cons [OF this]
    show ?thesis
      using parse_entry_unterminated [OF "1.prems"(1,2)] nl True cs place
      by (subst read_loop.simps)
        (auto simp: line_result_def read_loop_after_eof split: option.splits)
  next
    case False
    define m where "m = (if res = NEXT_LINE_OK then parse_line l1 else None)"
    have ms: "parse_lines ls = m # parse_lines ls'"
      using spec False by (cases res) (auto simp: parse_lines_next [of ls] nl m_def)
    have sep': "well_separated (ls' @ [l])"
      using "1.prems"(1) by (rule well_separated_subset) (use spec in auto)
    have IH: "read_loop cs (file_of (unlines ls' @ l)) t' err' = None"
      if "placeable t' (parse_lines ls' @ [parse_line l])" for t' err'
      using "1.IH" [rule_format, of ls' cs t' err'] spec False sep' "1.prems"(2) cs(2) that by simp
    have "placeable t (m # parse_lines ls' @ [parse_line l])" using "1.prems"(4) ms by simp
    note place = placeable_Cons [OF this]
    have "inittab_parse_entry (file_of (unlines ls @ l)) zero_entry =
        line_result m (file_of (unlines ls' @ l))"
      using parse_entry_spec [OF sep nl, of l] False spec by (cases res) (auto simp: m_def)
    with cs place IH show ?thesis
      by (subst read_loop.simps) (auto simp: line_result_def split: option.splits)
  qed
qed

lemma parse_entry_single:
  assumes "text_line l" "entry_line l"
  shows "inittab_parse_entry (file_of (l @ [newline])) zero_entry = line_result (parse_line l) (file_of [])"
proof -
  have "well_separated [l]" "next_line_spec [l] = (NEXT_LINE_OK, l, [])"
    using assms by (auto simp: well_separated_def entry_line_def comment_line_def)
  from parse_entry_spec [OF this, of "[]"] show ?thesis by simp
qed

section \<open>Fields left behind by a comment\<close>

text \<open>
  A line that breaks off after its third field, behind a comment of which
  \<open>ctty:proc\<close> is left in the buffer: the code takes the two missing fields from there.
\<close>

lemma run_fields_stale:
  assumes at: "at l [] (ord @ CHR '':'' # core @ CHR '':'' # ty @ NUL # ctty @ CHR '':'' # proc @ NUL # post)"
    and colon: "CHR '':'' \<notin> set ord" "CHR '':'' \<notin> set core" "CHR '':'' \<notin> set ty" "CHR '':'' \<notin> set ctty"
    and nul: "NUL \<notin> set ord" "NUL \<notin> set core" "NUL \<notin> set ty" "NUL \<notin> set ctty" "NUL \<notin> set proc"
  shows "\<exists>l'. run_fields all_fields (l, zero_entry) =
    Inr (map_option (Pair l') (entry_spec ord core ty ctty proc))"
  unfolding entry_spec_chain
proof (rule order_reader.chain [of _ "[]" _ "core @ CHR '':'' # ty" "ctty @ CHR '':'' # proc @ NUL # post"])
  fix l e assume "at l ([] @ ord @ [NUL]) ((core @ CHR '':'' # ty) @ NUL # ctty @ CHR '':'' # proc @ NUL # post)"
  then have at1: "at l (ord @ [NUL]) (core @ CHR '':'' # ty @ NUL # ctty @ CHR '':'' # proc @ NUL # post)"
    by simp
  show "\<exists>l'. run_fields [core_id_field, type_field, ctty_field, process_field] (l, e) =
    Inr (map_option (Pair l')
      (Option.bind (core_id_spec core e) (\<lambda>e. Option.bind (type_spec ty e)
        (\<lambda>e. Option.bind (ctty_spec ctty e) (process_spec proc)))))"
  proof (rule core_id_reader.chain [OF at1 colon(2) nul(2,3)])
    fix l e assume at2: "at l ((ord @ [NUL]) @ core @ [NUL]) (ty @ NUL # ctty @ CHR '':'' # proc @ NUL # post)"
    obtain l2 where "run_fields [type_field, ctty_field, process_field] (l, e) =
        (case type_spec ty e of None \<Rightarrow> Inr None | Some e' \<Rightarrow> run_fields [ctty_field, process_field] (l2, e'))"
      and at3: "at l2 (((ord @ [NUL]) @ core @ [NUL]) @ ty @ [NUL]) (ctty @ CHR '':'' # proc @ NUL # post)"
      using type_reader.run_reads_last [OF at2 colon(3) nul(3)] by blast
    moreover have "\<exists>l'. run_fields [ctty_field, process_field] (l2, e') =
        Inr (map_option (Pair l') (Option.bind (ctty_spec ctty e') (process_spec proc)))" for e'
      by (rule ctty_reader.chain [OF at3 colon(4) nul(4,5)]) (rule run_process [OF _ nul(5)])
    ultimately show "\<exists>l'. run_fields [type_field, ctty_field, process_field] (l, e) =
        Inr (map_option (Pair l') (Option.bind (type_spec ty e)
          (\<lambda>e. Option.bind (ctty_spec ctty e) (process_spec proc))))"
      by (auto split: option.splits)
  qed
qed (use assms in auto)

section \<open>Results\<close>

text \<open>C4: on a file of newline-terminated lines that has no comment lines, or four colons on every
  entry line, and whose allocations succeed, \<open>read_inittab\<close>
  terminates and returns exactly what the lines mean: false if some line is malformed or too long
  or if there is not exactly one safe-mode entry; otherwise the startup and the shutdown entries,
  each stably sorted by their order, and the safe-mode entry.\<close>

theorem read_inittab_correct:
  assumes "well_separated ls" "set callocs \<subseteq> {True}"
  shows "read_inittab callocs (Some (file_of (unlines ls))) empty_inittab = Some (Inr (inittab_spec ls))"
  using assms by (rule read_inittab_spec)

definition sample_lines :: "string list" where
  "sample_lines = [''# sample'', ''2::<one-shot>::/bin/a'', ''1:0:<service>:/dev/tty1:/bin/b x'', [],
     ''::<safe-mode>::/bin/s'', ''2::<safe-service>::/bin/c'', ''0::<shutdown>::/bin/d'']"

lemma sample_lines_separated: "well_separated sample_lines"
  by code_simp

theorem read_inittab_correct_witness:
  "well_separated sample_lines \<and>
   (\<exists>t. read_inittab [True] (Some (file_of (unlines sample_lines))) empty_inittab = Some (Inr (Some t)) \<and>
     map process_name (startup_list t) = [''/bin/b x'', ''/bin/a'', ''/bin/c''] \<and>
     map process_name (shutdown_list t) = [''/bin/d''] \<and>
     map process_name (safe_mode_entry t) = [''/bin/s''])"
proof -
  have "case inittab_spec sample_lines of None \<Rightarrow> False
    | Some t \<Rightarrow> map process_name (startup_list t) = [''/bin/b x'', ''/bin/a'', ''/bin/c''] \<and>
        map process_name (shutdown_list t) = [''/bin/d''] \<and>
        map process_name (safe_mode_entry t) = [''/bin/s'']"
    by code_simp
  with read_inittab_correct [OF sample_lines_separated, of "[True]"] sample_lines_separated
  show ?thesis by (auto split: option.splits)
qed

text \<open>C30: if the last line of the file is an entry without a newline behind it, then
  \<open>read_inittab\<close> never returns: the next call finds the end-of-file flag set, answers
  RESULT_ERROR instead of RESULT_DONE, and an error does not leave the loop.\<close>

theorem read_inittab_unterminated_hangs:
  assumes "well_separated (ls @ [l])" "entry_line l" "set callocs \<subseteq> {True}"
    and "placeable empty_inittab (parse_lines ls @ [parse_line l])"
  shows "read_inittab callocs (Some (file_of (unlines ls @ l))) empty_inittab = None"
  using read_loop_unterminated [OF assms] by (simp add: read_inittab_def)

theorem read_inittab_unterminated_hangs_witness:
  "read_inittab [] (Some (file_of (unlines [''0::<service>::/bin/a''] @ ''::<safe-mode>::/bin/s'')))
     empty_inittab = None"
proof (rule read_inittab_unterminated_hangs)
  show "well_separated ([''0::<service>::/bin/a''] @ [''::<safe-mode>::/bin/s''])" by code_simp
  show "entry_line ''::<safe-mode>::/bin/s''" by code_simp
  show "set [] \<subseteq> {True}" by simp
  show "placeable empty_inittab (parse_lines [''0::<service>::/bin/a''] @ [parse_line ''::<safe-mode>::/bin/s''])"
    by code_simp
qed

text \<open>C31: an entry line that breaks off after its type, behind a comment that is long enough,
  is accepted with a terminal and a process taken from the text of the comment.\<close>

theorem stale_comment_completes_entry:
  assumes line: "l = ord @ CHR '':'' # core @ CHR '':'' # ty" "text_line l" "entry_line l"
    and comment: "c = CHR ''#'' # pad @ ctty @ CHR '':'' # proc" "length pad = length l"
      "text_line c" "length c \<le> LINE_SIZE"
    and colon: "CHR '':'' \<notin> set ord" "CHR '':'' \<notin> set core" "CHR '':'' \<notin> set ty" "CHR '':'' \<notin> set ctty"
    and entry: "entry_spec ord core ty ctty proc = Some e"
  shows "inittab_parse_entry (file_of (unlines [c, l])) zero_entry = Inr (RESULT_OK, e, file_of [])"
proof -
  let ?b = "replicate BUFFER_LEN NUL"
  let ?b2 = "write_line l (write_line c ?b)"
  have nul: "NUL \<notin> set ord" "NUL \<notin> set core" "NUL \<notin> set ty" "NUL \<notin> set ctty" "NUL \<notin> set proc"
    using line(1,2) comment(1,3) by (auto simp: text_line_def)
  have room: "LINE_SIZE < length (write_line c ?b)" using comment(4) by (simp add: length_write_line BUFFER_LEN_def)
  have "inittab_next_line (file_of (unlines [c, l])) ?b = inittab_next_line (file_of (unlines [l])) (write_line c ?b)"
    using next_line_comment [of "file_of (unlines [c, l])" c "unlines [l]" ?b] comment(1,3,4)
    by (simp add: file_of_def text_line_def)
  also have "\<dots> = Inr (NEXT_LINE_OK, ?b2, file_of [])"
    using next_line_ok [of "file_of (unlines [l])" l "[]" "write_line c ?b"] line(2,3) room
    by (auto simp: file_of_def entry_line_def comment_line_def)
  finally have nl: "inittab_next_line (file_of (unlines [c, l])) ?b = Inr (NEXT_LINE_OK, ?b2, file_of [])" .
  have len: "length ?b2 = BUFFER_LEN"
    using line(3) comment(4) by (simp add: length_write_line entry_line_def BUFFER_LEN_def)
  have b2: "?b2 = ord @ CHR '':'' # core @ CHR '':'' # ty @ NUL # ctty @ CHR '':'' # proc @ NUL #
      drop (Suc (length c)) ?b"
    using comment(2) by (simp add: write_line_def comment(1) line(1))
  have "at (init_lexer ?b2 (of_nat BUFFER_LEN)) []
      (ord @ CHR '':'' # core @ CHR '':'' # ty @ NUL # ctty @ CHR '':'' # proc @ NUL # drop (Suc (length c)) ?b)"
    using at_line_buffer [OF len] by (simp only: b2)
  from run_fields_stale [OF this colon nul] nl entry show ?thesis
    by (auto simp: inittab_parse_entry_def file_of_def simp del: run_fields.simps)
qed

theorem stale_comment_completes_entry_witness:
  "inittab_parse_entry (file_of (unlines [''#0123456789ab/dev/tty9:/bin/stale'', ''0::<service>'']))
     zero_entry =
   Inr (RESULT_OK, \<lparr>process_name = ''/bin/stale'', ctty_path = ''/dev/tty9'', order = 0, core_id = - 1,
     entry_type = SERVICE\<rparr>, file_of [])"
  by (rule stale_comment_completes_entry [where ord = "''0''" and core = "[]" and ty = "''<service>''"
        and pad = "''0123456789ab''" and ctty = "''/dev/tty9''" and proc = "''/bin/stale''"])
    code_simp+

theorem inittab_parse_entry_wf_witness:
  "\<exists>e' fp'. inittab_parse_entry (file_of (''7:1:<safe-service>::/bin/x'' @ [newline])) zero_entry =
     Inr (RESULT_OK, e', fp') \<and> entry_wf e'"
proof -
  have "text_line ''7:1:<safe-service>::/bin/x''" "entry_line ''7:1:<safe-service>::/bin/x''"
    by code_simp+
  moreover have "parse_line ''7:1:<safe-service>::/bin/x'' = Some \<lparr>process_name = ''/bin/x'',
      ctty_path = [], order = 7, core_id = 1, entry_type = SAFE_SERVICE\<rparr>" by code_simp
  ultimately have ok: "inittab_parse_entry (file_of (''7:1:<safe-service>::/bin/x'' @ [newline])) zero_entry =
      Inr (RESULT_OK, \<lparr>process_name = ''/bin/x'', ctty_path = [], order = 7, core_id = 1,
        entry_type = SAFE_SERVICE\<rparr>, file_of [])"
    by (simp only: parse_entry_single line_result_def option.case)
  from inittab_parse_entry_wf [OF ok] ok show ?thesis by blast
qed

text \<open>C37: the entries of \<open>specs/inittab-spec.txt\<close> have four fields, the code wants a fifth for the
  controlling terminal: every file of newline-terminated lines, none of them a comment, with an entry
  line of fewer than four colons is refused as a whole. The example of the specification is such a
  file.\<close>

theorem short_entries_refused:
  assumes "\<forall>x \<in> set ls. text_line x \<and> \<not> comment_line x" "set callocs \<subseteq> {True}"
    and "l \<in> set ls" "entry_line l" "count_list l (CHR '':'') < 4"
  shows "read_inittab callocs (Some (file_of (unlines ls))) empty_inittab = Some (Inr None)"
proof -
  have "well_separated ls" using assms(1) by (simp add: well_separated_def)
  moreover have "None \<in> set (parse_lines ls)"
    using assms(3-5) parse_line_short [OF assms(5)] by (induction ls) (auto simp: entry_line_def)
  then have "inittab_spec ls = None" by (simp add: inittab_spec_def Let_def)
  ultimately show ?thesis using read_inittab_spec [of ls callocs] assms(2) by simp
qed

definition documented_lines :: "string list" where
  "documented_lines = [''0::<safe-one-shot>:/usr/bin/stl'', ''1:0:<safe-service>:/usr/bin/safe-service1'',
     ''1:1:<safe-service>:/usr/bin/safe-service2 --production'',
     ''::<safe-mode>:/usr/bin/safe-mode -p <proc> -c <exitcode>'', ''0::<safe-shutdown>:/usr/bin/stl --keyoff'']"

theorem short_entries_refused_witness:
  "read_inittab [] (Some (file_of (unlines documented_lines))) empty_inittab = Some (Inr None)"
proof (rule short_entries_refused)
  show "\<forall>x \<in> set documented_lines. text_line x \<and> \<not> comment_line x" by code_simp
  show "''0::<safe-one-shot>:/usr/bin/stl'' \<in> set documented_lines" by code_simp
  show "entry_line ''0::<safe-one-shot>:/usr/bin/stl''" by code_simp
  show "count_list ''0::<safe-one-shot>:/usr/bin/stl'' (CHR '':'') < 4" by code_simp
qed simp

end
