(* ===== verification/Tokens.thy ===== *)
theory Tokens
  imports Lexer
begin

text \<open>
  What the users of the tokeniser rely on. \<open>parse_cmdline\<close> (cmdline.c) and
  \<open>parse_fstab_mnt_options\<close> (mount.c) call \<open>next_token\<close> in a loop on a copy of
  a string and keep the pointers it hands out. The locale \<open>token_stream\<close> states that
  interface: which tokens are still ahead, what a pointer that was handed out denotes, and
  that later calls do not disturb it although they keep moving the text in the array. It is
  interpreted on \<open>next_token\<close>.
\<close>

section \<open>All tokens of a string\<close>

lemma token_of_rest_shorter:
  "token_of d q rm s = (u, t, Some r) \<Longrightarrow> length r < length s"
proof (induction s arbitrary: u t r rule: token_of_induct [where d = d and q = q])
  case (plain c s)
  then show ?case by (auto simp: token_of_plain less_Suc_eq split: prod.splits)
next
  case (quoted c inner s)
  then show ?case by (fastforce simp: token_of_quoted split: prod.splits)
qed (auto simp: token_of_delim token_of_open)

text \<open>Each token comes with the mark that its quote was left open.\<close>

function tokens_of :: "char \<Rightarrow> bool \<Rightarrow> bool \<Rightarrow> string \<Rightarrow> (bool \<times> string) list" where
  "tokens_of d quoted rm s =
     (case token_of d quoted rm s of
        (u, t, None) \<Rightarrow> [(u, t)]
      | (u, t, Some r) \<Rightarrow> (u, t) # tokens_of d quoted rm r)"
  by pat_completeness auto
termination
  by (relation "measure (\<lambda>(d, q, rm, s). length s)") 
    (auto dest: token_of_rest_shorter [OF sym])

declare tokens_of.simps [simp del]

text \<open>A token that ended properly and is not empty.\<close>

definition proper :: "bool \<times> string \<Rightarrow> bool" where
  "proper ut \<longleftrightarrow> \<not> fst ut \<and> snd ut \<noteq> []"

lemma token_status_proper: "token_status u t = TOKEN_OK \<longleftrightarrow> proper (u, t)"
  by (simp add: token_status_def proper_def)

lemma token_status_not_end: "token_status u t \<noteq> TOKEN_END"
  by (simp add: token_status_def)

section \<open>Progress of the cursor\<close>

text \<open>
  The loops over the tokens end because every token handed out leaves less of the array
  between the cursor and the end, on any array whatever.
\<close>

definition to_go :: "lexer_data \<Rightarrow> nat" where
  "to_go l = unat (lsize l) - unat (pos l)"

lemma next_token_loop_step:
  assumes "next_token_loop d q rm l qg qt qs = Inr (l', u)"
  shows "l' = l \<or> (\<exists>l1 qg1 qt1 qs1. to_go l1 < to_go l \<and>
           next_token_loop d q rm l1 qg1 qt1 qs1 = Inr (l', u))"
proof (cases "pos l < lsize l")
  case True
  have step: "to_go (l\<lparr>pos := pos l + 1\<rparr>) < to_go l"
    using loop_measure_step [OF True] by (simp add: to_go_def)
  have remove: "to_go (l1\<lparr>pos := pos l1 + 1\<rparr>) < to_go l"
    if "remove_quote_pair l qs (pos l) = Inr l1" for l1
    using loop_measure_remove [OF True] remove_quote_pair_fields [OF that] by (simp add: to_go_def)
  note unfolded = assms [unfolded next_token_loop.simps [of d q rm l qg qt qs] Let_def]
  show ?thesis
  proof (cases "qg \<and> buf l ! unat (pos l) = qt \<and> rm \<and> buf l ! unat (pos l) \<noteq> NUL")
    case True
    with unfolded step remove show ?thesis by (fastforce simp: res_simps split: if_splits)
  next
    case False
    with unfolded step show ?thesis by (auto split: if_splits)
  qed
next
  case False
  with assms show ?thesis by (simp add: next_token_loop.simps)
qed

lemma next_token_loop_to_go:
  "next_token_loop d q rm l qg qt qs = Inr (l', u) \<Longrightarrow> to_go l' \<le> to_go l"
proof (induction "to_go l" arbitrary: l qg qt qs rule: less_induct)
  case less
  from next_token_loop_step [OF less.prems] show ?case
    using less.hyps by (metis less_or_eq_imp_le order_trans)
qed

lemma next_token_to_go:
  assumes "next_token l d q rm = Inr (tr, off, l')" "tr = TOKEN_OK \<or> tr = TOKEN_BLANK"
  shows "to_go l' < to_go l"
proof (cases "next_token_loop d q rm l False NUL 0")
  case (Inr r)
  obtain l1 u where r: "r = (l1, u)" by (cases r)
  have lt: "pos l1 < lsize l1" and l': "lsize l' = lsize l1" "pos l' = pos l1 + 1"
    using assms by (auto simp: next_token_def Let_def Inr r res_bind_Inr_iff split: if_splits)
  have "to_go l' < to_go l1" using loop_measure_step [OF lt] l' by (simp add: to_go_def)
  also have "\<dots> \<le> to_go l" using Inr r by (simp add: next_token_loop_to_go)
  finally show ?thesis .
qed (use assms in \<open>simp add: next_token_def\<close>)

section \<open>The interface\<close>

locale token_stream =
  fixes nxt :: "'s \<Rightarrow> (token_result \<times> nat option \<times> 's) c_res"
    and ahead :: "'s \<Rightarrow> (bool \<times> string) list \<Rightarrow> bool"
    and den :: "'s \<Rightarrow> nat \<Rightarrow> string \<Rightarrow> bool"
  assumes nxt_Nil: "ahead s [] \<Longrightarrow> nxt s = Inr (TOKEN_END, None, s)"
    and nxt_Cons: "ahead s ((u, t) # ts) \<Longrightarrow>
      \<exists>i s'. nxt s = Inr (token_status u t, Some i, s') \<and> ahead s' ts \<and> den s' i t \<and>
             (\<forall>j x. den s j x \<longrightarrow> den s' j x)"
begin

text \<open>The pointers handed out so far, and what they denote.\<close>

definition handed :: "'s \<Rightarrow> nat list \<Rightarrow> string list \<Rightarrow> bool" where
  "handed s is xs \<longleftrightarrow> list_all2 (den s) is xs"

lemma handed_Nil [simp]: "handed s [] xs \<longleftrightarrow> xs = []"
  by (auto simp: handed_def)

lemma handed_length: "handed s is xs \<Longrightarrow> length is = length xs"
  by (auto simp: handed_def dest: list_all2_lengthD)

text \<open>A token that ended properly joins the ones handed out; the others stay as they were.\<close>

lemma nxt_proper:
  assumes "ahead s ((u, t) # ts)" "proper (u, t)"
  obtains i s' where "nxt s = Inr (TOKEN_OK, Some i, s')" "ahead s' ts" "den s' i t"
    "\<And>is xs. handed s is xs \<Longrightarrow> handed s' (is @ [i]) (xs @ [t])"
    "\<And>is xs. handed s is xs \<Longrightarrow> handed s' is xs"
proof -
  obtain i s' where s': "nxt s = Inr (token_status u t, Some i, s')" "ahead s' ts" "den s' i t"
      "\<forall>j x. den s j x \<longrightarrow> den s' j x"
    using nxt_Cons [OF assms(1)] by blast
  have keep: "handed s is xs \<Longrightarrow> handed s' is xs" for "is" xs
    using s'(4) by (auto simp: handed_def elim: list_all2_mono)
  then have "handed s is xs \<Longrightarrow> handed s' (is @ [i]) (xs @ [t])" for "is" xs
    using s'(3) by (auto simp: handed_def intro: list_all2_appendI)
  with s' keep assms(2) that show ?thesis by (simp add: token_status_proper [symmetric])
qed

lemma nxt_improper:
  assumes "ahead s ((u, t) # ts)" "\<not> proper (u, t)"
  obtains tr i s' where "nxt s = Inr (tr, Some i, s')" "tr \<noteq> TOKEN_OK" "tr \<noteq> TOKEN_END"
    "tr = TOKEN_BLANK \<longleftrightarrow> \<not> u" "ahead s' ts"
proof -
  obtain i s' where "nxt s = Inr (token_status u t, Some i, s')" "ahead s' ts"
    using nxt_Cons [OF assms(1)] by blast
  with assms(2) that show ?thesis by (auto simp: token_status_def proper_def split: if_splits)
qed

end

section \<open>The tokeniser provides it\<close>

definition lexer_ahead :: "char \<Rightarrow> bool \<Rightarrow> bool \<Rightarrow> lexer_data \<Rightarrow> (bool \<times> string) list \<Rightarrow> bool" where
  "lexer_ahead d q rm l ts \<longleftrightarrow>
     (\<exists>p. at l p [] \<and> ts = []) \<or>
     (\<exists>p s. at l p (s @ [NUL]) \<and> NUL \<notin> set s \<and> ts = tokens_of d q rm s)"

definition lexer_den :: "lexer_data \<Rightarrow> nat \<Rightarrow> string \<Rightarrow> bool" where
  "lexer_den l i t \<longleftrightarrow> (\<exists>p r s. at l (p @ t @ NUL # r) s \<and> length p = i \<and> NUL \<notin> set t)"

lemma tokens_of_not_Nil: "tokens_of d q rm s \<noteq> []"
  by (subst tokens_of.simps) (auto split: prod.splits option.splits)

lemma at_unique: "at l p s \<Longrightarrow> at l p' s' \<Longrightarrow> p = p' \<and> s = s'"
  by (auto simp: at_def append_eq_append_conv)

lemma lexer_den_text: "lexer_den l i t \<Longrightarrow> cstring_at (buf l) i = t"
proof -
  assume "lexer_den l i t"
  then obtain p r s where at: "at l (p @ t @ NUL # r) s" and i: "length p = i" and t: "NUL \<notin> set t"
    by (auto simp: lexer_den_def)
  have "buf l = p @ t @ NUL # r @ s @ drop (unat (lsize l)) (buf l)"
    using buf_live [of l] at by (simp add: at_def)
  with i t show ?thesis by (metis cstring_at_append)
qed

lemma lexer_ahead_init:
  assumes "length s + 1 < 2 ^ 64" "NUL \<notin> set s"
  shows "lexer_ahead d q rm (init_lexer (s @ [NUL]) (of_nat (length s + 1))) (tokens_of d q rm s)"
  using at_init_lexer [of "s @ [NUL]"] assms by (auto simp: lexer_ahead_def)

interpretation lexer: token_stream "\<lambda>l. next_token l d q rm" "lexer_ahead d q rm" lexer_den
  for d q rm
proof
  fix l assume "lexer_ahead d q rm l []"
  then obtain p where "at l p []" 
    by (auto simp: lexer_ahead_def tokens_of_not_Nil [symmetric])
  then show "next_token l d q rm = Inr (TOKEN_END, None, l)"
    by (intro next_token_end at_Nil_end)
next
  fix l u t ts assume "lexer_ahead d q rm l ((u, t) # ts)"
  then obtain p s where at: "at l p (s @ [NUL])" and s: "NUL \<notin> set s"
    and ts: "(u, t) # ts = tokens_of d q rm s" by (auto simp: lexer_ahead_def)
  obtain r where tok: "token_of d q rm s = (u, t, r)"
    and rest: "ts = (case r of None \<Rightarrow> [] | Some r' \<Rightarrow> tokens_of d q rm r')"
    using ts by (subst (asm) tokens_of.simps) (auto split: prod.splits option.splits)
  have sub: "NUL \<notin> set t" "\<And>r'. r = Some r' \<Longrightarrow> NUL \<notin> set r'"
    using token_of_set [OF tok] s by auto
  obtain l' where nt: "next_token l d q rm = Inr (token_status u t, Some (length p), l')"
    and at': "at l' (p @ t @ [NUL]) (after_token r [])"
    using next_token_at [OF at s tok] by blast
  have "lexer_ahead d q rm l' ts"
    using at' rest sub(2) unfolding lexer_ahead_def
    by (cases r) (auto simp: after_token_def)
  moreover have "lexer_den l' (length p) t" using at' sub(1) by (auto simp: lexer_den_def)
  moreover have "lexer_den l' j x" if "lexer_den l j x" for j x
  proof -
    from that obtain p0 r0 s0 where "at l (p0 @ x @ NUL # r0) s0" "length p0 = j" "NUL \<notin> set x"
      by (auto simp: lexer_den_def)
    moreover from this have "p = p0 @ x @ NUL # r0" using at_unique at by blast
    ultimately show ?thesis using at' by (auto simp: lexer_den_def)
  qed
  ultimately show "\<exists>i l'. next_token l d q rm = Inr (token_status u t, Some i, l') \<and>
      lexer_ahead d q rm l' ts \<and> lexer_den l' i t \<and> (\<forall>j x. lexer_den l j x \<longrightarrow> lexer_den l' j x)"
    using nt by blast
qed

end
