(* ===== verification/Cmdline.thy ===== *)
theory Cmdline
  imports Tokens
begin

text \<open>
  Command lines (\<open>src/cmdline.c\<close>): a line is copied, cut into tokens in place, and the
  arrays \<open>args\<close> and \<open>env\<close> are filled with pointers into the copy. The main results are
  that the pointers denote, when \<open>parse_cmdline\<close> returns, exactly the tokens of the line
  (although the text was moved around in between), that the arrays handed to \<open>execvpe\<close>
  are always NULL-terminated, and that a quoted list of arguments is read back unchanged.
\<close>

section \<open>Definitions\<close>

definition ARGS_MAX :: nat where "ARGS_MAX = 128"
definition ENV_MAX :: nat where "ENV_MAX = 128"

text \<open>
  A \<open>const char *\<close> of the arrays: an offset into the copied line, or (in the placeholder
  of safe mode only) a string kept elsewhere.
\<close>

datatype arg_ptr = Into_Line nat | Into_Text string

record cmdline_contents =
  args :: "arg_ptr option list"
  env :: "arg_ptr option list"
  freeable :: "char list option"

text \<open>\<open>struct cmdline_contents cmd_contents = {}\<close>\<close>

definition zero_contents :: cmdline_contents where
  "zero_contents = \<lparr>args = replicate ARGS_MAX None, env = replicate ENV_MAX None, freeable = None\<rparr>"

text \<open>The loop of \<open>add_env\<close> and \<open>add_arg\<close>: the first NULL of the first \<open>n\<close> slots is taken.\<close>

fun fill_slot :: "nat \<Rightarrow> arg_ptr \<Rightarrow> arg_ptr option list \<Rightarrow> (arg_ptr option list) option" where
  "fill_slot 0 p slots = None"
| "fill_slot (Suc n) p [] = None"
| "fill_slot (Suc n) p (None # slots) = Some (Some p # slots)"
| "fill_slot (Suc n) p (Some q # slots) = map_option ((#) (Some q)) (fill_slot n p slots)"

definition add_env :: "arg_ptr \<Rightarrow> cmdline_contents \<Rightarrow> bool \<times> cmdline_contents" where
  "add_env e c = (case fill_slot (ENV_MAX - 1) e (env c) of
     None \<Rightarrow> (False, c) | Some slots \<Rightarrow> (True, c\<lparr>env := slots\<rparr>))"

definition add_arg :: "arg_ptr \<Rightarrow> cmdline_contents \<Rightarrow> bool \<times> cmdline_contents" where
  "add_arg a c = (case fill_slot (ARGS_MAX - 1) a (args c) of
     None \<Rightarrow> (False, c) | Some slots \<Rightarrow> (True, c\<lparr>args := slots\<rparr>))"

text \<open>
  The first loop: environment variables, up to the first token without \<open>=\<close>, whose offset
  is returned (\<open>None\<close> stands for \<open>goto end\<close>).
\<close>

function env_loop :: "lexer_data \<Rightarrow> cmdline_contents \<Rightarrow> (nat option \<times> lexer_data \<times> cmdline_contents) c_res"
where
  "env_loop l c =
     res_bind (next_token l (CHR '' '') True True)
       (\<lambda>(tr, token, l'). case (tr, token) of
          (TOKEN_OK, Some i) \<Rightarrow>
            if CHR ''='' \<in> set (cstring_at (buf l') i) then
              (case add_env (Into_Line i) c of
                 (False, c') \<Rightarrow> Inr (None, l', c')
               | (True, c') \<Rightarrow> env_loop l' c')
            else Inr (Some i, l', c)
        | _ \<Rightarrow> Inr (None, l', c))"
  by pat_completeness auto
termination
  by (relation "measure (\<lambda>(l, c). to_go l)") (auto dest: next_token_to_go [OF _ disjI1])

text \<open>The second loop: everything up to the end of the line is an argument.\<close>

function args_loop :: "lexer_data \<Rightarrow> cmdline_contents \<Rightarrow> (bool \<times> lexer_data \<times> cmdline_contents) c_res"
where
  "args_loop l c =
     res_bind (next_token l (CHR '' '') True True)
       (\<lambda>(tr, token, l'). case (tr, token) of
          (TOKEN_OK, Some i) \<Rightarrow>
            (case add_arg (Into_Line i) c of
               (False, c') \<Rightarrow> Inr (False, l', c')
             | (True, c') \<Rightarrow> args_loop l' c')
        | (TOKEN_END, _) \<Rightarrow> Inr (True, l', c)
        | _ \<Rightarrow> Inr (False, l', c))"
  by pat_completeness auto
termination
  by (relation "measure (\<lambda>(l, c). to_go l)") (auto dest: next_token_to_go [OF _ disjI1])

declare env_loop.simps [simp del] args_loop.simps [simp del]

text \<open>
  \<open>parse_cmdline\<close>; \<open>dup_ok\<close> says whether \<open>strdup\<close> had memory. On failure the copy is
  freed and the pointers already stored in \<open>contents\<close> dangle, as in the code.
\<close>

definition parse_cmdline :: "bool \<Rightarrow> string \<Rightarrow> cmdline_contents \<Rightarrow> (bool \<times> cmdline_contents) c_res" where
  "parse_cmdline dup_ok cmdline contents =
     (if \<not> dup_ok then Inr (False, contents)
      else
        let dup_cmdline = cmdline @ [NUL] in
        res_bind (env_loop (init_lexer dup_cmdline (of_nat (length cmdline + 1))) contents)
          (\<lambda>(program, l, c). case program of
             None \<Rightarrow> Inr (False, c)
           | Some i \<Rightarrow>
               (case add_arg (Into_Line i) c of
                  (False, c') \<Rightarrow> Inr (False, c')
                | (True, c') \<Rightarrow>
                    res_bind (args_loop l c')
                      (\<lambda>(ok, l', c''). if ok then Inr (True, c''\<lparr>freeable := Some (buf l')\<rparr>)
                                       else Inr (False, c'')))))"

definition free_cmdline_contents :: "cmdline_contents \<Rightarrow> cmdline_contents" where
  "free_cmdline_contents c = c\<lparr>freeable := None\<rparr>"

subsection \<open>What it means\<close>

text \<open>
  The environment and the arguments of a line: the leading tokens with \<open>=\<close>, then the
  program and its arguments. Every token must be proper; 127 of each at most.
\<close>

definition is_env :: "bool \<times> string \<Rightarrow> bool" where
  "is_env ut \<longleftrightarrow> proper ut \<and> CHR ''='' \<in> set (snd ut)"

definition cmdline_spec :: "string \<Rightarrow> (string list \<times> string list) option" where
  "cmdline_spec s =
     (let ts = tokens_of (CHR '' '') True True s;
          es = takeWhile is_env ts; as = dropWhile is_env ts
      in if as \<noteq> [] \<and> list_all proper as \<and> length es < ENV_MAX \<and> length as < ARGS_MAX
         then Some (map snd es, map snd as) else None)"

text \<open>An array of pointers is a NULL-terminated list of strings over the copy \<open>b\<close>.\<close>

fun arg_text :: "char list \<Rightarrow> arg_ptr \<Rightarrow> string" where
  "arg_text b (Into_Line i) = cstring_at b i"
| "arg_text b (Into_Text s) = s"

definition denotes :: "char list \<Rightarrow> nat \<Rightarrow> arg_ptr option list \<Rightarrow> string list \<Rightarrow> bool" where
  "denotes b n slots xs \<longleftrightarrow>
     (\<exists>ps. slots = map Some ps @ replicate (n - length ps) None \<and> length ps < n \<and>
           map (arg_text b) ps = xs)"

text \<open>Words in double quotes, separated by blanks: how a command line is written.\<close>

fun command_line :: "string list \<Rightarrow> string" where
  "command_line [] = []"
| "command_line [x] = dquote # x @ [dquote]"
| "command_line (x # y # xs) = dquote # x @ dquote # CHR '' '' # command_line (y # xs)"

text \<open>Words that survive: not empty, and without a double quote or NUL inside.\<close>

definition writable :: "string \<Rightarrow> bool" where
  "writable x \<longleftrightarrow> x \<noteq> [] \<and> dquote \<notin> set x \<and> NUL \<notin> set x"

section \<open>Filling the arrays\<close>

lemma fill_slot_used:
  "fill_slot (n - 1) p (map Some ps @ replicate (n - length ps) None) =
     (if length ps < n - 1 then Some (map Some (ps @ [p]) @ replicate (n - length (ps @ [p])) None)
      else None)"
proof (induction ps arbitrary: n)
  case Nil
  show ?case
  proof (cases "1 < n")
    case True
    then obtain m where "n = Suc (Suc m)" by (metis One_nat_def less_imp_Suc_add plus_1_eq_Suc)
    then show ?thesis by simp
  qed (auto simp: not_less)
next
  case (Cons q ps)
  show ?case
  proof (cases "1 < n")
    case True
    then obtain m where "n = Suc (Suc m)" by (metis One_nat_def less_imp_Suc_add plus_1_eq_Suc)
    then show ?thesis using Cons [of "Suc m"] by simp
  qed (auto simp: not_less)
qed

abbreviation lines :: "nat list \<Rightarrow> arg_ptr list" where "lines is \<equiv> map Into_Line is"

text \<open>The arrays while the line is parsed: slots used so far, NULL behind them.\<close>

definition used_slots :: "nat \<Rightarrow> nat list \<Rightarrow> arg_ptr option list" where
  "used_slots n is = map Some (lines is) @ replicate (n - length is) None"

lemma add_env_slots:
  "env c = used_slots ENV_MAX is \<Longrightarrow> add_env (Into_Line i) c =
     (if Suc (length is) < ENV_MAX then (True, c\<lparr>env := used_slots ENV_MAX (is @ [i])\<rparr>) else (False, c))"
  using fill_slot_used [of ENV_MAX "Into_Line i" "lines is"]
  by (simp add: add_env_def used_slots_def less_diff_conv)

lemma add_arg_slots:
  "args c = used_slots ARGS_MAX is \<Longrightarrow> add_arg (Into_Line i) c =
     (if Suc (length is) < ARGS_MAX then (True, c\<lparr>args := used_slots ARGS_MAX (is @ [i])\<rparr>) else (False, c))"
  using fill_slot_used [of ARGS_MAX "Into_Line i" "lines is"]
  by (simp add: add_arg_def used_slots_def less_diff_conv)

lemma used_slots_Nil: "used_slots n [] = replicate n None"
  by (simp add: used_slots_def)

lemma handed_denotes:
  assumes "lexer.handed l is xs" "length is < n"
  shows "denotes (buf l) n (used_slots n is) xs"
proof -
  from assms(1) have "map (\<lambda>i. cstring_at (buf l) i) is = xs"
    unfolding lexer.handed_def by (induction rule: list_all2_induct) (auto simp: lexer_den_text)
  then show ?thesis using assms(2) unfolding denotes_def used_slots_def
    by (intro exI [of _ "lines is"]) (simp add: comp_def)
qed

section \<open>The two loops\<close>

abbreviation cmd_ahead :: "lexer_data \<Rightarrow> (bool \<times> string) list \<Rightarrow> bool" where
  "cmd_ahead \<equiv> lexer_ahead (CHR '' '') True True"

text \<open>What the first loop leaves, for \<open>n\<close> slots used and \<open>xs\<close> read before.\<close>

definition env_outcome ::
    "(bool \<times> string) list \<Rightarrow> nat \<Rightarrow> string list \<Rightarrow> nat option \<Rightarrow> lexer_data \<Rightarrow> nat list \<Rightarrow> bool" where
  "env_outcome ts n xs prog l' is' \<longleftrightarrow>
     (let es = takeWhile is_env ts; rest = dropWhile is_env ts in
      case prog of
        None \<Rightarrow> rest = [] \<or> \<not> proper (hd rest) \<or> ENV_MAX \<le> n + length es
      | Some i \<Rightarrow> rest \<noteq> [] \<and> proper (hd rest) \<and> n + length es < ENV_MAX \<and>
          cmd_ahead l' (tl rest) \<and> lexer.handed l' is' (xs @ map snd es) \<and>
          length is' < ENV_MAX \<and> lexer.handed l' [i] [snd (hd rest)])"

lemma env_outcome_Cons:
  "is_env (u, t) \<Longrightarrow> env_outcome ts (Suc n) (xs @ [t]) prog l' is' \<Longrightarrow>
   env_outcome ((u, t) # ts) n xs prog l' is'"
  by (auto simp: env_outcome_def Let_def split: option.splits)

lemma env_loop_spec:
  assumes "cmd_ahead l ts" "lexer.handed l is xs" "env c = used_slots ENV_MAX is" "length is < ENV_MAX"
  shows "\<exists>l' is' prog. env_loop l c = Inr (prog, l', c\<lparr>env := used_slots ENV_MAX is'\<rparr>) \<and>
     env_outcome ts (length is) xs prog l' is'"
  using assms
proof (induction ts arbitrary: l "is" xs c)
  case Nil
  from lexer.nxt_Nil [OF Nil(1)] have "env_loop l c = Inr (None, l, c\<lparr>env := used_slots ENV_MAX is\<rparr>)"
    using Nil(3) by (subst env_loop.simps) simp
  then show ?case by (fastforce simp: env_outcome_def)
next
  case (Cons ut ts)
  obtain u t where ut: "ut = (u, t)" by (cases ut)
  have keep: "c\<lparr>env := used_slots ENV_MAX is\<rparr> = c" using Cons.prems(3) by simp
  show ?case
  proof (cases "proper (u, t)")
    case False
    with Cons.prems(1) ut obtain tr i l1 where
      "next_token l (CHR '' '') True True = Inr (tr, Some i, l1)" "tr \<noteq> TOKEN_OK"
      using lexer.nxt_improper by metis
    then have "env_loop l c = Inr (None, l1, c\<lparr>env := used_slots ENV_MAX is\<rparr>)"
      unfolding keep by (subst env_loop.simps) (auto split: token_result.splits)
    with False ut show ?thesis by (fastforce simp: is_env_def env_outcome_def)
  next
    case True
    obtain i l1 where nt: "next_token l (CHR '' '') True True = Inr (TOKEN_OK, Some i, l1)"
      and ahead: "cmd_ahead l1 ts" and den: "lexer_den l1 i t"
      and h1: "\<And>is xs. lexer.handed l is xs \<Longrightarrow> lexer.handed l1 (is @ [i]) (xs @ [t])"
      and h2: "\<And>is xs. lexer.handed l is xs \<Longrightarrow> lexer.handed l1 is xs"
      using lexer.nxt_proper [OF Cons.prems(1) [unfolded ut] True] by metis
    have tok: "cstring_at (buf l1) i = t" using den by (rule lexer_den_text)
    show ?thesis
    proof (cases "CHR ''='' \<in> set t")
      case False
      then have "env_loop l c = Inr (Some i, l1, c\<lparr>env := used_slots ENV_MAX is\<rparr>)"
        using nt tok unfolding keep by (subst env_loop.simps) simp
      moreover have "env_outcome (ut # ts) (length is) xs (Some i) l1 is"
        using h1 [of "[]" "[]"] h2 [OF Cons.prems(2)] False True ut ahead Cons.prems(4)
        by (simp add: is_env_def env_outcome_def)
      ultimately show ?thesis by blast
    next
      case eq: True
      have unf: "env_loop l c = (case add_env (Into_Line i) c of
          (False, c') \<Rightarrow> Inr (None, l1, c') | (True, c') \<Rightarrow> env_loop l1 c')"
        using nt tok eq by (subst env_loop.simps) simp
      have env: "is_env (u, t)" using eq True by (simp add: is_env_def)
      show ?thesis
      proof (cases "Suc (length is) < ENV_MAX")
        case True
        let ?c = "c\<lparr>env := used_slots ENV_MAX (is @ [i])\<rparr>"
        have "env_loop l c = env_loop l1 ?c" using unf True add_env_slots [OF Cons.prems(3)] by simp
        with Cons.IH [OF ahead h1 [OF Cons.prems(2)], of ?c] True env_outcome_Cons [OF env] ut
        show ?thesis by simp metis
      next
        case False
        then have "env_loop l c = Inr (None, l1, c\<lparr>env := used_slots ENV_MAX is\<rparr>)"
          using unf add_env_slots [OF Cons.prems(3)] unfolding keep by simp
        moreover have "env_outcome (ut # ts) (length is) xs None l1 is"
          using False env ut by (simp add: env_outcome_def)
        ultimately show ?thesis by blast
      qed
    qed
  qed
qed

text \<open>What the second loop leaves.\<close>

definition args_outcome ::
    "(bool \<times> string) list \<Rightarrow> nat \<Rightarrow> string list \<Rightarrow> lexer_data \<Rightarrow> bool \<Rightarrow> lexer_data \<Rightarrow> nat list \<Rightarrow> bool" where
  "args_outcome ts n xs l ok l' is' \<longleftrightarrow>
     (if ok then list_all proper ts \<and> n + length ts < ARGS_MAX \<and> length is' < ARGS_MAX \<and>
        lexer.handed l' is' (xs @ map snd ts) \<and>
        (\<forall>js ys. lexer.handed l js ys \<longrightarrow> lexer.handed l' js ys)
      else \<not> list_all proper ts \<or> ARGS_MAX \<le> n + length ts)"

lemma args_outcome_Cons:
  assumes "proper (u, t)" "args_outcome ts (Suc n) (xs @ [t]) l1 ok l' is'"
    and "\<And>is xs. lexer.handed l is xs \<Longrightarrow> lexer.handed l1 is xs"
  shows "args_outcome ((u, t) # ts) n xs l ok l' is'"
  using assms by (auto simp: args_outcome_def split: if_splits)

lemma args_loop_spec:
  assumes "cmd_ahead l ts" "lexer.handed l is xs" "args c = used_slots ARGS_MAX is" "length is < ARGS_MAX"
  shows "\<exists>l' is' ok. args_loop l c = Inr (ok, l', c\<lparr>args := used_slots ARGS_MAX is'\<rparr>) \<and>
     args_outcome ts (length is) xs l ok l' is'"
  using assms
proof (induction ts arbitrary: l "is" xs c)
  case Nil
  from lexer.nxt_Nil [OF Nil(1)] have "args_loop l c = Inr (True, l, c\<lparr>args := used_slots ARGS_MAX is\<rparr>)"
    using Nil(3) by (subst args_loop.simps) simp
  moreover have "args_outcome [] (length is) xs l True l is"
    using Nil(2,4) by (simp add: args_outcome_def)
  ultimately show ?case by blast
next
  case (Cons ut ts)
  obtain u t where ut: "ut = (u, t)" by (cases ut)
  have keep: "c\<lparr>args := used_slots ARGS_MAX is\<rparr> = c" using Cons.prems(3) by simp
  show ?case
  proof (cases "proper (u, t)")
    case False
    with Cons.prems(1) ut obtain tr i l1 where
      "next_token l (CHR '' '') True True = Inr (tr, Some i, l1)" "tr \<noteq> TOKEN_OK" "tr \<noteq> TOKEN_END"
      using lexer.nxt_improper by metis
    then have "args_loop l c = Inr (False, l1, c\<lparr>args := used_slots ARGS_MAX is\<rparr>)"
      unfolding keep by (subst args_loop.simps) (auto split: token_result.splits)
    with False ut show ?thesis by (fastforce simp: args_outcome_def)
  next
    case True
    obtain i l1 where nt: "next_token l (CHR '' '') True True = Inr (TOKEN_OK, Some i, l1)"
      and ahead: "cmd_ahead l1 ts"
      and h1: "\<And>is xs. lexer.handed l is xs \<Longrightarrow> lexer.handed l1 (is @ [i]) (xs @ [t])"
      and h2: "\<And>is xs. lexer.handed l is xs \<Longrightarrow> lexer.handed l1 is xs"
      using lexer.nxt_proper [OF Cons.prems(1) [unfolded ut] True] by metis
    have unf: "args_loop l c = (case add_arg (Into_Line i) c of
        (False, c') \<Rightarrow> Inr (False, l1, c') | (True, c') \<Rightarrow> args_loop l1 c')"
      using nt by (subst args_loop.simps) simp
    show ?thesis
    proof (cases "Suc (length is) < ARGS_MAX")
      case lt: True
      let ?c = "c\<lparr>args := used_slots ARGS_MAX (is @ [i])\<rparr>"
      have "args_loop l c = args_loop l1 ?c" using unf lt add_arg_slots [OF Cons.prems(3)] by simp
      with Cons.IH [OF ahead h1 [OF Cons.prems(2)], of ?c] lt args_outcome_Cons [OF True _ h2] ut
      show ?thesis by simp metis
    next
      case False
      then have "args_loop l c = Inr (False, l1, c\<lparr>args := used_slots ARGS_MAX is\<rparr>)"
        using unf add_arg_slots [OF Cons.prems(3)] unfolding keep by simp
      moreover have "args_outcome (ut # ts) (length is) xs l False l1 is"
        using False ut by (simp add: args_outcome_def)
      ultimately show ?thesis by blast
    qed
  qed
qed

lemma parse_cmdline_spec:
  assumes "length s + 1 < 2 ^ 64" "NUL \<notin> set s"
  shows "\<exists>c. parse_cmdline True s zero_contents = Inr (cmdline_spec s \<noteq> None, c) \<and>
    (case cmdline_spec s of
       None \<Rightarrow> freeable c = None
     | Some (es, as) \<Rightarrow> \<exists>b. freeable c = Some b \<and> denotes b ENV_MAX (env c) es \<and>
                                 denotes b ARGS_MAX (args c) as)"
proof -
  let ?ts = "tokens_of (CHR '' '') True True s"
  let ?es = "takeWhile is_env ?ts" and ?rest = "dropWhile is_env ?ts"
  let ?l = "init_lexer (s @ [NUL]) (of_nat (length s + 1))"
  have pos: "0 < ENV_MAX" "0 < ARGS_MAX" by (simp_all add: ENV_MAX_def ARGS_MAX_def)
  obtain l1 is1 prog where loop: "env_loop ?l zero_contents =
      Inr (prog, l1, zero_contents\<lparr>env := used_slots ENV_MAX is1\<rparr>)"
    and out: "env_outcome ?ts 0 [] prog l1 is1"
    using env_loop_spec [OF lexer_ahead_init [OF assms], of "[]" "[]" zero_contents] pos
    by (auto simp: used_slots_Nil zero_contents_def)
  show ?thesis
  proof (cases prog)
    case None
    then have "cmdline_spec s = None"
      using out hd_in_set [of ?rest]
      by (auto simp: env_outcome_def cmdline_spec_def Let_def list_all_iff simp del: dropWhile_eq_Nil_conv)
    with None loop show ?thesis by (simp add: parse_cmdline_def zero_contents_def)
  next
    case (Some i)
    obtain h r where split: "?rest = h # r"
      using out Some by (cases ?rest) (simp_all add: env_outcome_def Let_def)
    have rest: "proper h" "length ?es < ENV_MAX" "cmd_ahead l1 r"
      "lexer.handed l1 is1 (map snd ?es)" "length is1 < ENV_MAX" "lexer.handed l1 [i] [snd h]"
      using out Some split by (simp_all add: env_outcome_def Let_def)
    let ?c = "zero_contents\<lparr>env := used_slots ENV_MAX is1, args := used_slots ARGS_MAX [i]\<rparr>"
    have add: "add_arg (Into_Line i) (zero_contents\<lparr>env := used_slots ENV_MAX is1\<rparr>) = (True, ?c)"
      using add_arg_slots [of "zero_contents\<lparr>env := used_slots ENV_MAX is1\<rparr>" "[]" i]
      by (simp add: zero_contents_def used_slots_Nil ARGS_MAX_def)
    obtain l2 is2 ok where loop2: "args_loop l1 ?c = Inr (ok, l2, ?c\<lparr>args := used_slots ARGS_MAX is2\<rparr>)"
      and out2: "args_outcome r 1 [snd h] l1 ok l2 is2"
      using args_loop_spec [OF rest(3,6), of ?c] by (auto simp: ARGS_MAX_def)
    have spec: "cmdline_spec s = (if ok then Some (map snd ?es, map snd (h # r)) else None)"
      using rest(1,2) out2 unfolding cmdline_spec_def Let_def split
      by (auto simp: args_outcome_def split: if_splits)
    have "denotes (buf l2) ENV_MAX (used_slots ENV_MAX is1) (map snd ?es)" if ok
      using out2 that rest(4,5) by (intro handed_denotes) (auto simp: args_outcome_def)
    moreover have "denotes (buf l2) ARGS_MAX (used_slots ARGS_MAX is2) (map snd (h # r))"
      if ok using out2 that by (intro handed_denotes) (auto simp: args_outcome_def)
    ultimately show ?thesis using loop loop2 add Some spec
      by (simp add: parse_cmdline_def zero_contents_def)
  qed
qed

section \<open>Writing and reading\<close>

lemma tokens_of_command_line:
  "xs \<noteq> [] \<Longrightarrow> list_all writable xs \<Longrightarrow>
   tokens_of (CHR '' '') True True (command_line xs) = map (Pair False) xs"
proof (induction xs rule: command_line.induct)
  case (2 x)
  then have "dquote \<notin> set x" by (simp add: writable_def)
  then have "token_of (CHR '' '') True True (dquote # x @ dquote # []) = (False, x, None)"
    by (subst token_of_quoted) simp_all
  then show ?case by (subst tokens_of.simps) simp
next
  case (3 x y xs)
  then have "dquote \<notin> set x" by (simp add: writable_def)
  then have "token_of (CHR '' '') True True (dquote # x @ dquote # CHR '' '' # command_line (y # xs)) =
      (False, x, Some (command_line (y # xs)))"
    by (subst token_of_quoted) (simp_all add: token_of_delim)
  with 3 show ?case by (subst tokens_of.simps) simp
qed simp

lemma command_line_no_NUL: "list_all writable xs \<Longrightarrow> NUL \<notin> set (command_line xs)"
  by (induction xs rule: command_line.induct) (auto simp: writable_def)

lemma cmdline_spec_command_line:
  assumes "list_all writable (es @ as)" "list_all (\<lambda>e. CHR ''='' \<in> set e) es"
    and "as \<noteq> []" "CHR ''='' \<notin> set (hd as)" "length es < ENV_MAX" "length as < ARGS_MAX"
  shows "cmdline_spec (command_line (es @ as)) = Some (es, as)"
proof -
  have ok: "list_all proper (map (Pair False) as)" "list_all is_env (map (Pair False) es)"
    using assms(1,2) by (auto simp: list_all_iff writable_def proper_def is_env_def)
  obtain a as' where as: "as = a # as'" using assms(3) by (cases as) auto
  have a: "\<not> is_env (False, a)" using assms(4) as by (simp add: is_env_def)
  have "tokens_of (CHR '' '') True True (command_line (es @ as)) =
      map (Pair False) es @ (False, a) # map (Pair False) as'"
    using tokens_of_command_line [of "es @ as"] assms(1,3) as by simp
  moreover have "takeWhile is_env (map (Pair False) es @ (False, a) # ts) = map (Pair False) es"
    "dropWhile is_env (map (Pair False) es @ (False, a) # ts) = (False, a) # ts" for ts
    using ok(2) a by (induction es) simp_all
  ultimately show ?thesis using ok(1) as a assms(5,6)
    by (simp add: cmdline_spec_def Let_def comp_def)
qed

section \<open>Results\<close>

text \<open>C8: on every line \<open>parse_cmdline\<close> returns without leaving its arrays; it succeeds
  exactly when the line has a meaning (leading tokens with an equals sign, a program, its
  arguments, no empty token and no open quote, at most 127 of each), and then the pointers in
  \<open>env\<close> and \<open>args\<close> denote, in the copy the contents own, these tokens in order, with
  NULL behind them.\<close>

theorem parse_cmdline_correct:
  assumes "length s + 1 < 2 ^ 64" "NUL \<notin> set s"
  shows "\<exists>c. parse_cmdline True s zero_contents = Inr (cmdline_spec s \<noteq> None, c) \<and>
    (case cmdline_spec s of
       None \<Rightarrow> freeable c = None
     | Some (es, as) \<Rightarrow> \<exists>b. freeable c = Some b \<and> denotes b ENV_MAX (env c) es \<and>
                                 denotes b ARGS_MAX (args c) as)"
  using assms by (rule parse_cmdline_spec)

theorem parse_cmdline_correct_witness:
  "\<exists>c b. parse_cmdline True (''A='' @ [dquote] @ ''b c'' @ [dquote] @ '' ls -l'') zero_contents =
     Inr (True, c) \<and> freeable c = Some b \<and>
     denotes b ENV_MAX (env c) [''A=b c''] \<and> denotes b ARGS_MAX (args c) [''ls'', ''-l'']"
proof -
  let ?s = "''A='' @ [dquote] @ ''b c'' @ [dquote] @ '' ls -l''"
  have spec: "cmdline_spec ?s = Some ([''A=b c''], [''ls'', ''-l''])" by code_simp
  have "length ?s + 1 < 2 ^ 64" "NUL \<notin> set ?s" by simp_all
  from parse_cmdline_correct [OF this] show ?thesis unfolding spec by auto
qed

text \<open>C23: environment and arguments that are written out as double-quoted words come back
  unchanged from \<open>parse_cmdline\<close>, blanks and single quotes inside them included.\<close>

theorem parse_cmdline_roundtrip:
  assumes "list_all writable (es @ as)" "list_all (\<lambda>e. CHR ''='' \<in> set e) es"
    and "as \<noteq> []" "CHR ''='' \<notin> set (hd as)" "length es < ENV_MAX" "length as < ARGS_MAX"
    and "length (command_line (es @ as)) + 1 < 2 ^ 64"
  shows "\<exists>c b. parse_cmdline True (command_line (es @ as)) zero_contents = Inr (True, c) \<and>
    freeable c = Some b \<and> denotes b ENV_MAX (env c) es \<and> denotes b ARGS_MAX (args c) as"
  using parse_cmdline_spec [OF assms(7) command_line_no_NUL [OF assms(1)]]
    cmdline_spec_command_line [OF assms(1-6)] by auto

theorem parse_cmdline_roundtrip_witness:
  "\<exists>c b. parse_cmdline True (command_line ([''X=1 2''] @ [''/bin/sh'', ''-c'', ''it is''])) zero_contents =
     Inr (True, c) \<and> freeable c = Some b \<and> denotes b ENV_MAX (env c) [''X=1 2''] \<and>
     denotes b ARGS_MAX (args c) [''/bin/sh'', ''-c'', ''it is'']"
  by (rule parse_cmdline_roundtrip) (simp_all add: writable_def ENV_MAX_def ARGS_MAX_def)

end
