(* ===== verification/Safe_Mode.thy ===== *)
theory Safe_Mode
  imports Cmdline
begin

text \<open>
  The hand-over to safe mode (\<open>src/safe-mode.c\<close>). Init writes a \<open>struct shared_info\<close>
  into a pipe (\<open>execute_safe_mode\<close>); the placeholder process reads it, parses the command line
  of the safe mode application, substitutes the tags and executes it (\<open>safe_mode_wait\<close>). Both
  ends may be interrupted and may transfer any number of bytes per call. The main result is that
  however the bytes are cut up the placeholder executes the command with the name and the signal
  init was given.
\<close>

section \<open>The shared structure\<close>

definition NAME_SIZE :: nat where "NAME_SIZE = 1024"

text \<open>Size of the structure: the array and a 4 byte \<open>int\<close> (no padding is needed).\<close>

definition INFO_SIZE :: nat where "INFO_SIZE = NAME_SIZE + 4"

record shared_info =
  info_name :: "char list"
  info_signal :: "32 word"

text \<open>The bytes of an \<open>int\<close>, low byte first.\<close>

fun nat_bytes :: "nat \<Rightarrow> nat \<Rightarrow> char list" where
  "nat_bytes 0 n = []"
| "nat_bytes (Suc k) n = char_of (n mod 256) # nat_bytes k (n div 256)"

fun bytes_nat :: "char list \<Rightarrow> nat" where
  "bytes_nat [] = 0"
| "bytes_nat (b # bs) = of_char b + 256 * bytes_nat bs"

definition info_bytes :: "shared_info \<Rightarrow> char list" where
  "info_bytes info = info_name info @ nat_bytes 4 (unat (info_signal info))"

definition info_of_bytes :: "char list \<Rightarrow> shared_info" where
  "info_of_bytes bs = \<lparr>info_name = take NAME_SIZE bs,
                       info_signal = of_nat (bytes_nat (drop NAME_SIZE bs))\<rparr>"

text \<open>\<open>strncpy(info.process_name, cmd, 1023)\<close> into a zeroed array, last byte NUL.\<close>

definition copy_name :: "string \<Rightarrow> char list" where
  "copy_name cmd = (let s = take (NAME_SIZE - 1) (cstring cmd)
                    in s @ replicate (NAME_SIZE - length s) NUL)"

section \<open>Writing\<close>

text \<open>Answers of \<open>write\<close>: a number of bytes it would take, an interruption, an error.\<close>

datatype write_answer = Takes nat | Write_EINTR | Write_Error

text \<open>
  The loop of \<open>execute_safe_mode\<close>: success and the bytes in the pipe. \<open>write\<close> takes at
  most what it is given; with no answer left it takes everything.
\<close>

fun write_loop :: "char list \<Rightarrow> nat \<Rightarrow> write_answer list \<Rightarrow> char list \<Rightarrow> bool \<times> char list" where
  "write_loop data written [] pipe = (True, pipe @ drop written data)"
| "write_loop data written (a # as) pipe =
     (if written = length data then (True, pipe)
      else case a of
        Write_EINTR \<Rightarrow> write_loop data written as pipe
      | Write_Error \<Rightarrow> (False, pipe)
      | Takes n \<Rightarrow>
          (let size = min n (length data - written) in
           if 0 < size then write_loop data (written + size) as (pipe @ take size (drop written data))
           else (False, pipe)))"

definition execute_safe_mode :: "int \<Rightarrow> string \<Rightarrow> 32 word \<Rightarrow> write_answer list \<Rightarrow> (bool \<times> char list) c_res" where
  "execute_safe_mode pipe_fd failed_process_cmd sig answers =
     (if pipe_fd = 0 then Inl Assertion_Failed
      else Inr (write_loop (info_bytes \<lparr>info_name = copy_name failed_process_cmd, info_signal = sig\<rparr>)
                  0 answers []))"

section \<open>Reading\<close>

text \<open>Answers of \<open>read\<close>: the bytes it delivers (none at the end of the pipe), or an error.\<close>

datatype read_answer = Delivers "char list" | Read_EINTR | Read_Error

text \<open>What the placeholder does in the end; with no answer left it waits.\<close>

datatype wait_outcome = Waits | Exits | Execs cmdline_contents

datatype read_outcome = Read_Waits | Read_Exits | Read_Done "char list"

fun read_info :: "char list \<Rightarrow> read_answer list \<Rightarrow> read_outcome" where
  "read_info so_far [] = Read_Waits"
| "read_info so_far (Read_EINTR # as) = read_info so_far as"
| "read_info so_far (Read_Error # as) = Read_Exits"
| "read_info so_far (Delivers bs # as) =
     (let new = take (INFO_SIZE - length so_far) bs in
      if new = [] then Read_Exits
      else if length so_far + length new = INFO_SIZE then Read_Done (so_far @ new)
      else read_info (so_far @ new) as)"

text \<open>\<open>%d\<close>: the decimal digits of a number.\<close>

function digits :: "nat \<Rightarrow> string" where
  "digits n = (if n < 10 then [char_of (48 + n)] else digits (n div 10) @ [char_of (48 + n mod 10)])"
  by pat_completeness auto
termination by (relation "measure id") auto

declare digits.simps [simp del]

definition show_int :: "32 word \<Rightarrow> string" where
  "show_int w = (if sint w < 0 then CHR ''-'' # digits (nat (- sint w)) else digits (nat (sint w)))"

text \<open>The loop that replaces the tags, up to the first NULL of \<open>args\<close>.\<close>

fun substitute_tags ::
    "char list \<Rightarrow> string \<Rightarrow> string option \<Rightarrow> arg_ptr option list \<Rightarrow> arg_ptr option list c_res" where
  "substitute_tags b proc sig [] = Inl Out_Of_Bounds"
| "substitute_tags b proc sig (None # slots) = Inr (None # slots)"
| "substitute_tags b proc sig (Some p # slots) =
     res_bind (substitute_tags b proc sig slots)
       (\<lambda>slots'. Inr (Some (if arg_text b p = ''<proc>'' then Into_Text proc
                            else case sig of
                              Some s \<Rightarrow> if arg_text b p = ''<exitcode>'' then Into_Text s else p
                            | None \<Rightarrow> p) # slots'))"

text \<open>
  \<open>safe_mode_wait\<close>; \<open>dup_ok\<close> and \<open>print_ok\<close> are the answers of \<open>strdup\<close> and
  \<open>asprintf\<close>.
\<close>

definition safe_mode_wait :: "string \<Rightarrow> read_answer list \<Rightarrow> bool \<Rightarrow> bool \<Rightarrow> wait_outcome c_res" where
  "safe_mode_wait safe_mode_cmd answers dup_ok print_ok =
     (case read_info [] answers of
        Read_Waits \<Rightarrow> Inr Waits
      | Read_Exits \<Rightarrow> Inr Exits
      | Read_Done bs \<Rightarrow>
          (let info = info_of_bytes bs in
           res_bind (parse_cmdline dup_ok safe_mode_cmd zero_contents)
             (\<lambda>(ok, c). case freeable c of
                Some b \<Rightarrow>
                  if ok then
                    (let signal_str = (if print_ok then Some (show_int (info_signal info)) else None) in
                     res_bind (substitute_tags b (cstring (info_name info)) signal_str (args c))
                       (\<lambda>args'. Inr (Execs (c\<lparr>args := args'\<rparr>))))
                  else Inr Exits
              | None \<Rightarrow> Inr Exits)))"

subsection \<open>What it means\<close>

definition replace_tag :: "string \<Rightarrow> string \<Rightarrow> string \<Rightarrow> string" where
  "replace_tag proc sig a = (if a = ''<proc>'' then proc else if a = ''<exitcode>'' then sig else a)"

text \<open>The bytes a sequence of successful reads delivers, cut up anyhow and with interruptions.\<close>

fun delivered :: "read_answer list \<Rightarrow> char list" where
  "delivered [] = []"
| "delivered (Delivers bs # as) = bs @ delivered as"
| "delivered (_ # as) = delivered as"

definition undisturbed :: "read_answer list \<Rightarrow> bool" where
  "undisturbed as \<longleftrightarrow> list_all (\<lambda>a. a \<noteq> Read_Error \<and> a \<noteq> Delivers []) as"

section \<open>The structure survives the transfer\<close>

lemma length_nat_bytes [simp]: "length (nat_bytes k n) = k"
  by (induction k arbitrary: n) auto

lemma bytes_nat_bytes: "bytes_nat (nat_bytes k n) = n mod 256 ^ k"
proof (induction k arbitrary: n)
  case (Suc k)
  have "n mod 256 ^ Suc k = n mod 256 + 256 * (n div 256 mod 256 ^ k)"
    by (simp add: mod_mult2_eq)
  with Suc show ?case by simp
qed simp

lemma length_copy_name [simp]: "length (copy_name s) = NAME_SIZE"
  by (simp add: copy_name_def Let_def NAME_SIZE_def)

lemma cstring_copy_name: "cstring (copy_name s) = take (NAME_SIZE - 1) (cstring s)"
proof -
  let ?s = "take (NAME_SIZE - 1) (cstring s)"
  have "NUL \<notin> set ?s" using cstring_no_NUL [of s] by (meson in_set_takeD)
  moreover have "replicate (NAME_SIZE - length ?s) NUL = NUL # replicate (NAME_SIZE - length ?s - 1) NUL"
    by (cases "NAME_SIZE - length ?s") (auto simp: NAME_SIZE_def)
  ultimately show ?thesis unfolding copy_name_def Let_def by (metis cstring_append_NUL)
qed

lemma length_info_bytes [simp]: "length (info_name i) = NAME_SIZE \<Longrightarrow> length (info_bytes i) = INFO_SIZE"
  by (simp add: info_bytes_def INFO_SIZE_def)

lemma info_of_info_bytes: "length (info_name i) = NAME_SIZE \<Longrightarrow> info_of_bytes (info_bytes i) = i"
proof -
  assume len: "length (info_name i) = NAME_SIZE"
  have "unat (info_signal i) mod 256 ^ 4 = unat (info_signal i)"
    using unsigned_less [of "info_signal i", where ?'a = nat] by simp
  with len show ?thesis by (simp add: info_of_bytes_def info_bytes_def bytes_nat_bytes)
qed

text \<open>A loop that succeeds has put the whole structure into the pipe, and nothing else.\<close>

lemma write_loop_complete:
  "write_loop data w as p = (True, p') \<Longrightarrow> w \<le> length data \<Longrightarrow> p' = p @ drop w data"
proof (induction "as" arbitrary: w p)
  case (Cons a as)
  show ?case
  proof (cases "w < length data \<and> (\<exists>n. a = Takes n)")
    case True
    then obtain n where a: "a = Takes n" by blast
    let ?n = "min n (length data - w)"
    have "write_loop data (w + ?n) as (p @ take ?n (drop w data)) = (True, p')"
      using Cons.prems(1) True a by (auto simp: Let_def split: if_splits)
    then have "p' = (p @ take ?n (drop w data)) @ drop (w + ?n) data" using True by (intro Cons.IH) auto
    moreover have "drop (w + ?n) data = drop ?n (drop w data)" by (simp only: drop_drop add.commute)
    ultimately show ?thesis by (simp only: append_assoc append_take_drop_id)
  next
    case False
    with Cons show ?thesis by (cases a) (auto split: if_splits)
  qed
qed simp

text \<open>Without an error, and with at least one byte taken per call, the loop succeeds.\<close>

lemma write_loop_progress:
  "list_all (\<lambda>a. a \<noteq> Write_Error \<and> a \<noteq> Takes 0) as \<Longrightarrow> w \<le> length data \<Longrightarrow>
   fst (write_loop data w as p)"
proof (induction data w as p rule: write_loop.induct)
  case (2 data w a as p)
  then show ?case by (cases a) (auto simp: Let_def)
qed simp

lemma read_info_complete:
  "undisturbed as \<Longrightarrow> length b < INFO_SIZE \<Longrightarrow> INFO_SIZE \<le> length (b @ delivered as) \<Longrightarrow>
   read_info b as = Read_Done (take INFO_SIZE (b @ delivered as))"
proof (induction b as rule: read_info.induct)
  case (4 b bs as)
  let ?new = "take (INFO_SIZE - length b) bs"
  have ne: "?new \<noteq> []" using 4 by (auto simp: undisturbed_def)
  show ?case
  proof (cases "length b + length ?new = INFO_SIZE")
    case True
    with ne show ?thesis by (auto simp: Let_def)
  next
    case False
    then have less: "length b + length bs < INFO_SIZE" using "4.prems"(2) by (auto simp: min_def split: if_splits)
    then have "?new = bs" by simp
    with ne less 4 show ?thesis by (simp add: Let_def undisturbed_def)
  qed
qed (auto simp: undisturbed_def)

section \<open>The command\<close>

lemma substitute_tags_denotes:
  assumes "denotes b n slots xs"
  shows "\<exists>slots'. substitute_tags b proc (Some sig) slots = Inr slots' \<and>
    denotes b n slots' (map (replace_tag proc sig) xs)"
proof -
  obtain ps where ps: "slots = map Some ps @ replicate (n - length ps) None" "length ps < n"
    "map (arg_text b) ps = xs" using assms by (auto simp: denotes_def)
  define f where "f p = (if arg_text b p = ''<proc>'' then Into_Text proc
    else if arg_text b p = ''<exitcode>'' then Into_Text sig else p)" for p
  have step: "substitute_tags b proc (Some sig) (map Some ps @ None # r) = Inr (map Some (map f ps) @ None # r)" for r
    by (induction ps) (auto simp: f_def)
  have "replicate (n - length ps) None = None # replicate (n - length ps - 1) None"
    using ps(2) by (cases "n - length ps") auto
  with step ps(1) have "substitute_tags b proc (Some sig) slots = Inr (map Some (map f ps) @ replicate (n - length ps) None)"
    by metis
  moreover have "map (arg_text b) (map f ps) = map (replace_tag proc sig) xs"
    using ps(3) by (auto simp: f_def replace_tag_def)
  ultimately show ?thesis using ps(2) unfolding denotes_def by (metis length_map)
qed

text \<open>What was written is read back, and the tags of the command get its name and signal.\<close>

lemma handover:
  assumes "execute_safe_mode fd name sig wanswers = Inr (True, pipe)"
    and "undisturbed ranswers" "delivered ranswers = pipe"
    and "NUL \<notin> set cmd" "length cmd + 1 < 2 ^ 64" "cmdline_spec cmd = Some (es, as)"
  shows "\<exists>c b. safe_mode_wait cmd ranswers True True = Inr (Execs c) \<and> freeable c = Some b \<and>
    denotes b ENV_MAX (env c) es \<and>
    denotes b ARGS_MAX (args c) (map (replace_tag (take 1023 (cstring name)) (show_int sig)) as)"
proof -
  let ?info = "\<lparr>info_name = copy_name name, info_signal = sig\<rparr>"
  have pipe: "pipe = info_bytes ?info"
    using assms(1) write_loop_complete [of "info_bytes ?info" 0 wanswers "[]" pipe]
    by (auto simp: execute_safe_mode_def split: if_splits)
  then have "length pipe = INFO_SIZE" by simp
  then have "read_info [] ranswers = Read_Done pipe"
    using read_info_complete [OF assms(2), of "[]"] assms(3) by (simp add: INFO_SIZE_def)
  moreover have "info_of_bytes pipe = ?info" by (simp add: pipe info_of_info_bytes)
  moreover obtain c b where c: "parse_cmdline True cmd zero_contents = Inr (True, c)" "freeable c = Some b"
      "denotes b ENV_MAX (env c) es" "denotes b ARGS_MAX (args c) as"
    using parse_cmdline_spec [of cmd] assms(4-6) by auto
  moreover obtain args' where "substitute_tags b (take 1023 (cstring name)) (Some (show_int sig)) (args c) = Inr args'"
      "denotes b ARGS_MAX args' (map (replace_tag (take 1023 (cstring name)) (show_int sig)) as)"
    using substitute_tags_denotes [OF c(4)] by blast
  ultimately show ?thesis by (simp add: safe_mode_wait_def cstring_copy_name NAME_SIZE_def)
qed

section \<open>Results\<close>

text \<open>C12: when \<open>execute_safe_mode\<close> reports success, the placeholder that reads these bytes from
  the pipe, cut into any chunks and interrupted any number of times, executes the safe mode command
  with its environment, every argument \<open><proc>\<close> replaced by the name of the failed process
  (its first 1023 characters) and every \<open><exitcode>\<close> by the decimal signal number.\<close>

theorem safe_mode_handover:
  assumes "execute_safe_mode fd name sig wanswers = Inr (True, pipe)"
    and "undisturbed ranswers" "delivered ranswers = pipe"
    and "NUL \<notin> set cmd" "length cmd + 1 < 2 ^ 64" "cmdline_spec cmd = Some (es, as)"
  shows "\<exists>c b. safe_mode_wait cmd ranswers True True = Inr (Execs c) \<and> freeable c = Some b \<and>
    denotes b ENV_MAX (env c) es \<and>
    denotes b ARGS_MAX (args c) (map (replace_tag (take 1023 (cstring name)) (show_int sig)) as)"
  using assms by (rule handover)

theorem safe_mode_handover_witness:
  "\<exists>pipe c b. execute_safe_mode 5 ''/bin/app -x'' 11 [Takes 1, Write_EINTR, Takes 700] = Inr (True, pipe) \<and>
     safe_mode_wait ''/bin/safe <proc> <exitcode>'' [Delivers (take 3 pipe), Read_EINTR, Delivers (drop 3 pipe)]
       True True = Inr (Execs c) \<and>
     freeable c = Some b \<and> denotes b ARGS_MAX (args c) [''/bin/safe'', ''/bin/app -x'', ''11'']"
proof -
  let ?cmd = "''/bin/safe <proc> <exitcode>''"
  have run: "case execute_safe_mode 5 ''/bin/app -x'' 11 [Takes 1, Write_EINTR, Takes 700] of
      Inr (ok, p) \<Rightarrow> ok \<and> take 3 p \<noteq> [] \<and> drop 3 p \<noteq> [] | Inl _ \<Rightarrow> False" by code_simp
  then obtain pipe where ex: "execute_safe_mode 5 ''/bin/app -x'' 11 [Takes 1, Write_EINTR, Takes 700] = Inr (True, pipe)"
    and ne: "take 3 pipe \<noteq> []" "drop 3 pipe \<noteq> []" by (auto split: sum.splits)
  let ?r = "[Delivers (take 3 pipe), Read_EINTR, Delivers (drop 3 pipe)]"
  have r: "undisturbed ?r" "delivered ?r = pipe" using ne by (simp_all add: undisturbed_def)
  have spec: "cmdline_spec ?cmd = Some ([], [''/bin/safe'', ''<proc>'', ''<exitcode>''])" by code_simp
  have shown: "show_int 11 = ''11''" by code_simp
  have "NUL \<notin> set ?cmd" "length ?cmd + 1 < 2 ^ 64" by simp_all
  from safe_mode_handover [OF ex r this spec] ex show ?thesis
    unfolding shown by (auto simp: replace_tag_def cstring_def)
qed

text \<open>C25: \<open>execute_safe_mode\<close> succeeds whenever its descriptor is not 0, no write fails and each
  takes at least a byte; then exactly the bytes of the structure are in the pipe, from which the name
  (cut to 1023 characters) and the signal are recovered.\<close>

theorem execute_safe_mode_delivers:
  assumes "fd \<noteq> 0" "list_all (\<lambda>a. a \<noteq> Write_Error \<and> a \<noteq> Takes 0) answers"
  shows "\<exists>pipe. execute_safe_mode fd name sig answers = Inr (True, pipe) \<and> length pipe = INFO_SIZE \<and>
    cstring (info_name (info_of_bytes pipe)) = take 1023 (cstring name) \<and>
    info_signal (info_of_bytes pipe) = sig"
proof -
  let ?info = "\<lparr>info_name = copy_name name, info_signal = sig\<rparr>"
  obtain ok pipe where wl: "write_loop (info_bytes ?info) 0 answers [] = (ok, pipe)"
    by (cases "write_loop (info_bytes ?info) 0 answers []")
  have ok using write_loop_progress [OF assms(2), of 0 "info_bytes ?info" "[]"] wl by simp
  with wl have "pipe = info_bytes ?info" using write_loop_complete [of "info_bytes ?info" 0 answers "[]" pipe] by simp
  moreover have "info_of_bytes (info_bytes ?info) = ?info" by (simp add: info_of_info_bytes)
  ultimately show ?thesis using wl \<open>ok\<close> assms(1)
    by (simp add: execute_safe_mode_def cstring_copy_name NAME_SIZE_def)
qed

theorem execute_safe_mode_delivers_witness:
  "\<exists>pipe. execute_safe_mode 7 ''a'' 6 [Takes 1000, Write_EINTR] = Inr (True, pipe) \<and> length pipe = INFO_SIZE \<and>
    cstring (info_name (info_of_bytes pipe)) = ''a'' \<and> info_signal (info_of_bytes pipe) = 6"
  using execute_safe_mode_delivers [of 7 "[Takes 1000, Write_EINTR]" "''a''" 6] by (simp add: cstring_def)

end
