(* ===== verification/Mainloop.thy ===== *)
theory Mainloop
  imports Prelude
begin

text \<open>
  The event loop (\<open>src/mainloop.c\<close>). Its file-scope variables are the fields of an
  extensible record, which the components that register callbacks extend. Callback objects are
  allocated on a heap of their own (addresses are never reused, so that an access to a freed
  object shows as \<open>Use_After_Free\<close>); the kernel's side is the table of open descriptors
  (a new descriptor is the lowest free number) and the interest list of the epoll instance, which
  holds raw pointers to the callback objects. Function pointers are the functions of the program
  that are registered as callbacks; calling one is an argument of the loop.
\<close>

section \<open>State\<close>

datatype callback_type = CALLBACK_SIGNAL | CALLBACK_TIMEOUT

datatype timeout_result = TIMEOUT_STOP | TIMEOUT_CONTINUE

text \<open>The functions that are passed as callbacks in main.c and watchdog.c.\<close>

datatype fn_ptr = signal_handler_fn | stage_maintenance_fn | kill_timeout_fn | one_shot_timeout_fn
  | watchdog_feed_fn

text \<open>
  \<open>struct mainloop_signal_handler\<close> and \<open>struct mainloop_timeout\<close>: both begin with the
  \<open>callback_data\<close> (descriptor and type) the loop looks at first. \<open>period\<close> is the setting of
  the timer behind a timeout's descriptor (seconds and nanoseconds).
\<close>

record callback_object =
  cb_fd :: nat
  cb_type :: callback_type
  cb_fn :: fn_ptr
  period :: "nat \<times> nat"

record mainloop =
  epollfd :: "nat option"
  should_exit :: bool
  post_iteration_callback :: "fn_ptr option"
  objects :: "nat \<Rightarrow> callback_object option"
  next_addr :: nat
  open_fds :: "nat list"
  interest :: "nat \<Rightarrow> nat option"
  alloc_ok :: "bool list"
  sys_ok :: "bool list"

section \<open>Kernel and allocator\<close>

text \<open>The lowest descriptor number not in use.\<close>

definition lowest_free :: "nat list \<Rightarrow> nat" where
  "lowest_free fds = hd (filter (\<lambda>n. n \<notin> set fds) [0..<Suc (length fds)])"

definition sys_answer :: "'a mainloop_scheme \<Rightarrow> bool \<times> 'a mainloop_scheme" where
  "sys_answer s = (case pop_ok (sys_ok s) of (b, bs) \<Rightarrow> (b, s\<lparr>sys_ok := bs\<rparr>))"

definition alloc_answer :: "'a mainloop_scheme \<Rightarrow> bool \<times> 'a mainloop_scheme" where
  "alloc_answer s = (case pop_ok (alloc_ok s) of (b, bs) \<Rightarrow> (b, s\<lparr>alloc_ok := bs\<rparr>))"

text \<open>A call that returns a new descriptor, or fails.\<close>

definition sys_open :: "'a mainloop_scheme \<Rightarrow> nat option \<times> 'a mainloop_scheme" where
  "sys_open s = (case sys_answer s of (ok, s1) \<Rightarrow>
     if ok then (Some (lowest_free (open_fds s1)), s1\<lparr>open_fds := lowest_free (open_fds s1) # open_fds s1\<rparr>)
     else (None, s1))"

text \<open>\<open>close\<close> also takes the descriptor off the interest list.\<close>

definition sys_close :: "nat \<Rightarrow> 'a mainloop_scheme \<Rightarrow> 'a mainloop_scheme" where
  "sys_close fd s = s\<lparr>open_fds := filter (\<lambda>n. n \<noteq> fd) (open_fds s), interest := (interest s)(fd := None)\<rparr>"

section \<open>Operations\<close>

definition add_fd :: "nat \<Rightarrow> nat \<Rightarrow> 'a mainloop_scheme \<Rightarrow> (bool \<times> 'a mainloop_scheme) c_res" where
  "add_fd fd data s =
     (if epollfd s = None then Inl Assertion_Failed
      else case sys_answer s of (ok, s1) \<Rightarrow>
        Inr (ok, if ok then s1\<lparr>interest := (interest s1)(fd \<mapsto> data)\<rparr> else s1))"

definition remove_fd :: "nat \<Rightarrow> 'a mainloop_scheme \<Rightarrow> 'a mainloop_scheme" where
  "remove_fd fd s = (if epollfd s \<noteq> None then s\<lparr>interest := (interest s)(fd := None)\<rparr> else s)"

definition mainloop_setup :: "'a mainloop_scheme \<Rightarrow> (bool \<times> 'a mainloop_scheme) c_res" where
  "mainloop_setup s =
     (if epollfd s \<noteq> None then Inl Assertion_Failed
      else case sys_open s of (fd, s1) \<Rightarrow> Inr (fd \<noteq> None, s1\<lparr>epollfd := fd\<rparr>))"

definition mainloop_exit :: "'a mainloop_scheme \<Rightarrow> 'a mainloop_scheme c_res" where
  "mainloop_exit s = (if should_exit s then Inl Assertion_Failed else Inr (s\<lparr>should_exit := True\<rparr>))"

definition mainloop_set_post_iteration_callback ::
    "fn_ptr option \<Rightarrow> 'a mainloop_scheme \<Rightarrow> 'a mainloop_scheme" where
  "mainloop_set_post_iteration_callback cb s = s\<lparr>post_iteration_callback := cb\<rparr>"

text \<open>\<open>timerfd_settime\<close> accepts a setting whose nanoseconds are below a second.\<close>

definition valid_timespec :: "nat \<times> nat \<Rightarrow> bool" where
  "valid_timespec ts \<longleftrightarrow> snd ts < 1000000000"

definition timespec_of :: "uint32_t \<Rightarrow> nat \<times> nat" where
  "timespec_of msec = (unat msec div 1000, unat msec mod 1000 * 1000000)"

text \<open>
  What \<open>mainloop_add_timeout\<close> and \<open>mainloop_add_signal_handler\<close> have in common: memory
  for the object, a descriptor, the setting of the timer (whose failure is an assertion),
  registration, and the error paths. The address of the object is returned, or NULL.
\<close>

definition add_object ::
    "bool \<Rightarrow> (nat \<Rightarrow> callback_object) \<Rightarrow> 'a mainloop_scheme \<Rightarrow> (nat option \<times> 'a mainloop_scheme) c_res" where
  "add_object set_ok obj s =
     (case alloc_answer s of (ok, s1) \<Rightarrow>
        if \<not> ok then Inr (None, s1)
        else case sys_open s1 of
          (None, s2) \<Rightarrow> Inr (None, s2)
        | (Some fd, s2) \<Rightarrow>
            if \<not> set_ok then Inl Assertion_Failed
            else
              let a = next_addr s2;
                  s3 = s2\<lparr>objects := (objects s2)(a \<mapsto> obj fd), next_addr := Suc a\<rparr>
              in res_bind (add_fd fd a s3)
                   (\<lambda>(added, s4). if added then Inr (Some a, s4)
                      else Inr (None, (sys_close fd s4)\<lparr>objects := (objects s4)(a := None)\<rparr>)))"

definition mainloop_add_timeout ::
    "uint32_t \<Rightarrow> fn_ptr \<Rightarrow> 'a mainloop_scheme \<Rightarrow> (nat option \<times> 'a mainloop_scheme) c_res" where
  "mainloop_add_timeout msec timeout_cb s =
     (if msec = 0 \<or> epollfd s = None then Inl Assertion_Failed
      else add_object (valid_timespec (timespec_of msec))
             (\<lambda>timerfd. \<lparr>cb_fd = timerfd, cb_type = CALLBACK_TIMEOUT, cb_fn = timeout_cb,
                         period = timespec_of msec\<rparr>) s)"

text \<open>Taking a callback object away: off the interest list, descriptor closed, memory freed.\<close>

definition remove_object :: "nat \<Rightarrow> 'a mainloop_scheme \<Rightarrow> 'a mainloop_scheme c_res" where
  "remove_object a s =
     (case objects s a of
        None \<Rightarrow> Inl Use_After_Free
      | Some obj \<Rightarrow> Inr ((sys_close (cb_fd obj) (remove_fd (cb_fd obj) s))\<lparr>objects := (objects s)(a := None)\<rparr>))"

definition mainloop_remove_timeout :: "nat \<Rightarrow> 'a mainloop_scheme \<Rightarrow> 'a mainloop_scheme c_res" where
  "mainloop_remove_timeout mt s = remove_object mt s"

definition mainloop_remove_signal_handler :: "nat \<Rightarrow> 'a mainloop_scheme \<Rightarrow> 'a mainloop_scheme c_res" where
  "mainloop_remove_signal_handler msh s = remove_object msh s"

definition mainloop_add_signal_handler ::
    "fn_ptr \<Rightarrow> 'a mainloop_scheme \<Rightarrow> (nat option \<times> 'a mainloop_scheme) c_res" where
  "mainloop_add_signal_handler signal_cb s =
     (if epollfd s = None then Inl Assertion_Failed
      else add_object True
             (\<lambda>sig_fd. \<lparr>cb_fd = sig_fd, cb_type = CALLBACK_SIGNAL, cb_fn = signal_cb, period = (0, 0)\<rparr>) s)"

section \<open>The loop\<close>

text \<open>
  An event of \<open>epoll_wait\<close>: the descriptor that is ready (which only the kernel knows), the
  pointer registered with it, whether the \<open>read\<close> on it returns the full size, and the signal
  number it delivers. A call of
  \<open>epoll_wait\<close> is interrupted, fails, or returns up to \<open>MAX_EVENTS\<close> events.
\<close>

definition MAX_EVENTS :: nat where "MAX_EVENTS = 8"

record epoll_event =
  ready_fd :: nat
  data_ptr :: nat
  read_full :: bool
  ssi_signo :: nat

datatype epoll_answer = Wait_EINTR | Wait_Error | Events "epoll_event list"

text \<open>How a batch of events ends: all handled, or a short read (\<open>goto error_reading\<close>).\<close>

datatype 's batch_end = Handled 's | Error_Reading 's

text \<open>A call through a function pointer; a signal handler gets the signal number.\<close>

type_synonym 's callbacks = "fn_ptr \<Rightarrow> nat \<Rightarrow> 's \<Rightarrow> (timeout_result \<times> 's) c_res"

definition run_post_callback :: "'a mainloop_scheme callbacks \<Rightarrow> 'a mainloop_scheme \<Rightarrow> 'a mainloop_scheme c_res" where
  "run_post_callback call s =
     (case post_iteration_callback s of
        None \<Rightarrow> Inr s
      | Some cb \<Rightarrow> res_bind (call cb 0 s) (\<lambda>(_, s'). Inr s'))"

text \<open>The body of the \<open>for\<close> loop: one event.\<close>

definition handle_event ::
    "'a mainloop_scheme callbacks \<Rightarrow> epoll_event \<Rightarrow> 'a mainloop_scheme \<Rightarrow> 'a mainloop_scheme batch_end c_res" where
  "handle_event call ev s =
     (case objects s (data_ptr ev) of
        None \<Rightarrow> Inl Use_After_Free
      | Some cb_data \<Rightarrow>
          if \<not> read_full ev then Inr (Error_Reading s)
          else case cb_type cb_data of
            CALLBACK_SIGNAL \<Rightarrow>
              res_bind (call (cb_fn cb_data) (ssi_signo ev) s)
                (\<lambda>(_, s1). res_bind (run_post_callback call s1) (\<lambda>s2. Inr (Handled s2)))
          | CALLBACK_TIMEOUT \<Rightarrow>
              res_bind (call (cb_fn cb_data) 0 s)
                (\<lambda>(r, s1).
                   res_bind (if r \<noteq> TIMEOUT_CONTINUE then mainloop_remove_timeout (data_ptr ev) s1 else Inr s1)
                     (\<lambda>s2. res_bind (run_post_callback call s2) (\<lambda>s3. Inr (Handled s3)))))"

fun handle_events ::
    "'a mainloop_scheme callbacks \<Rightarrow> epoll_event list \<Rightarrow> 'a mainloop_scheme \<Rightarrow> 'a mainloop_scheme batch_end c_res" where
  "handle_events call [] s = Inr (Handled s)"
| "handle_events call (ev # evs) s =
     res_bind (handle_event call ev s)
       (\<lambda>r. case r of Handled s1 \<Rightarrow> handle_events call evs s1 | Error_Reading s1 \<Rightarrow> Inr (Error_Reading s1))"

text \<open>
  How the loop stands after a list of answers of \<open>epoll_wait\<close>: it has returned, or it waits
  for the next event.
\<close>

datatype 's loop_end = Returned bool 's | Waiting 's

text \<open>Closing the epoll instance; its interest list goes with it.\<close>

definition close_epoll :: "'a mainloop_scheme \<Rightarrow> 'a mainloop_scheme" where
  "close_epoll s = (case epollfd s of
     None \<Rightarrow> s | Some fd \<Rightarrow> (sys_close fd s)\<lparr>interest := Map.empty\<rparr>)"

fun mainloop_loop ::
    "'a mainloop_scheme callbacks \<Rightarrow> epoll_answer list \<Rightarrow> 'a mainloop_scheme \<Rightarrow> 'a mainloop_scheme loop_end c_res" where
  "mainloop_loop call [] s =
     (if should_exit s then Inr (Returned True ((close_epoll s)\<lparr>epollfd := None\<rparr>)) else Inr (Waiting s))"
| "mainloop_loop call (w # ws) s =
     (if should_exit s then Inr (Returned True ((close_epoll s)\<lparr>epollfd := None\<rparr>))
      else case w of
        Wait_EINTR \<Rightarrow> mainloop_loop call ws s
      | Wait_Error \<Rightarrow> Inl Assertion_Failed
      | Events evs \<Rightarrow>
          res_bind (handle_events call evs s)
            (\<lambda>r. case r of
               Handled s1 \<Rightarrow> mainloop_loop call ws s1
             | Error_Reading s1 \<Rightarrow> Inr (Returned False (close_epoll s1))))"

definition mainloop_start ::
    "'a mainloop_scheme callbacks \<Rightarrow> epoll_answer list \<Rightarrow> 'a mainloop_scheme \<Rightarrow> 'a mainloop_scheme loop_end c_res" where
  "mainloop_start call ws s =
     (if epollfd s = None \<or> \<not> should_exit s then Inl Assertion_Failed
      else mainloop_loop call ws (s\<lparr>should_exit := False\<rparr>))"

subsection \<open>Orderly runs\<close>

text \<open>
  The answers of \<open>epoll_wait\<close> fit the run: no error, one event at a time, each with the pointer
  that is registered for a descriptor at that moment.
\<close>

definition delivered_by :: "'a mainloop_scheme \<Rightarrow> epoll_event \<Rightarrow> bool" where
  "delivered_by s ev \<longleftrightarrow> interest s (ready_fd ev) = Some (data_ptr ev)"

fun orderly :: "'a mainloop_scheme callbacks \<Rightarrow> epoll_answer list \<Rightarrow> 'a mainloop_scheme \<Rightarrow> bool" where
  "orderly call [] s = True"
| "orderly call (w # ws) s =
     (should_exit s \<or>
      (case w of
         Wait_EINTR \<Rightarrow> orderly call ws s
       | Wait_Error \<Rightarrow> False
       | Events [ev] \<Rightarrow> delivered_by s ev \<and>
           (case handle_event call ev s of Inr (Handled s1) \<Rightarrow> orderly call ws s1 | _ \<Rightarrow> True)
       | Events _ \<Rightarrow> False))"

text \<open>No fault but a deliberate \<open>panic\<close>, and a result with the property.\<close>

fun settles :: "'s c_res \<Rightarrow> ('s \<Rightarrow> bool) \<Rightarrow> bool" where
  "settles (Inr x) P = P x"
| "settles (Inl (Panicked msg)) P = True"
| "settles (Inl f) P = False"

text \<open>Executable forms with binary numbers.\<close>

lemma timespec_of_code [code]:
  "timespec_of msec = (nat (uint msec div 1000), nat (uint msec mod 1000 * 1000000))"
  unfolding timespec_of_def unat_eq_nat_uint
  by (simp only: nat_div_distrib nat_mod_distrib nat_mult_distrib uint_ge_0 nat_numeral
      zero_le_numeral pos_mod_sign zero_less_numeral)

lemma valid_timespec_code [code]: "valid_timespec ts \<longleftrightarrow> int (snd ts) < 1000000000"
  unfolding valid_timespec_def using of_nat_less_iff [of "snd ts" 1000000000, where 'a = int] by simp

section \<open>Invariant\<close>

text \<open>
  The interest list and the callback objects belong together: what is registered is a live object
  that owns the descriptor, every live object is registered under its own descriptor, and the epoll
  descriptor is none of them.
\<close>

definition mainloop_ok :: "'a mainloop_scheme \<Rightarrow> bool" where
  "mainloop_ok s \<longleftrightarrow>
     (\<forall>fd a. interest s fd = Some a \<longrightarrow> (\<exists>obj. objects s a = Some obj \<and> cb_fd obj = fd)) \<and>
     (\<forall>a obj. objects s a = Some obj \<longrightarrow>
        a < next_addr s \<and> cb_fd obj \<in> set (open_fds s) \<and> interest s (cb_fd obj) = Some a) \<and>
     (\<forall>e. epollfd s = Some e \<longrightarrow> e \<in> set (open_fds s) \<and> interest s e = None)"

text \<open>A descriptor that is open and has nothing to do with the loop.\<close>

definition quiet :: "'a mainloop_scheme \<Rightarrow> nat \<Rightarrow> bool" where
  "quiet s fd \<longleftrightarrow> fd \<in> set (open_fds s) \<and> interest s fd = None \<and> epollfd s \<noteq> Some fd"

text \<open>What the operations may change: everything else of the state is as it was.\<close>

definition loop_frame :: "'a mainloop_scheme \<Rightarrow> 'a mainloop_scheme \<Rightarrow> bool" where
  "loop_frame s s' \<longleftrightarrow>
     s\<lparr>objects := objects s', next_addr := next_addr s', open_fds := open_fds s', interest := interest s',
       alloc_ok := alloc_ok s', sys_ok := sys_ok s'\<rparr> = s'"

lemma loop_frame_refl [simp]: "loop_frame s s"
  by (simp add: loop_frame_def)

lemma loop_frame_eq: "loop_frame s s' \<Longrightarrow> f s' = f (s\<lparr>objects := objects s', next_addr := next_addr s',
    open_fds := open_fds s', interest := interest s', alloc_ok := alloc_ok s', sys_ok := sys_ok s'\<rparr>)"
  by (simp only: loop_frame_def)

lemma loop_frame_trans:
  assumes "loop_frame s s'" "loop_frame s' s''"
  shows "loop_frame s s''"
proof -
  have "s'\<lparr>objects := ob, next_addr := n, open_fds := fds, interest := i, alloc_ok := al, sys_ok := sy\<rparr> =
      s\<lparr>objects := ob, next_addr := n, open_fds := fds, interest := i, alloc_ok := al, sys_ok := sy\<rparr>"
    for ob n fds i al sy
    by (subst assms(1) [unfolded loop_frame_def, symmetric]) simp
  with assms(2) show ?thesis by (simp only: loop_frame_def)
qed

lemma loop_frame_fields:
  assumes "loop_frame s s'"
  shows "epollfd s' = epollfd s" "should_exit s' = should_exit s"
    "post_iteration_callback s' = post_iteration_callback s"
  using loop_frame_eq [OF assms, of epollfd] loop_frame_eq [OF assms, of should_exit]
    loop_frame_eq [OF assms, of post_iteration_callback] by simp_all

text \<open>Some number up to the length of the table is free; the lowest one is what a call gets.\<close>

lemma some_descriptor_free: "filter (\<lambda>n. n \<notin> set fds) [0..<Suc (length fds)] \<noteq> []"
proof -
  have "\<not> {0..<Suc (length fds)} \<subseteq> set fds"
    using card_mono [of "set fds" "{0..<Suc (length fds)}"] card_length [of fds] by auto
  then show ?thesis by (auto simp: filter_empty_conv simp del: upt_Suc)
qed

lemma lowest_free_fresh: "lowest_free fds \<notin> set fds"
  using hd_in_set [OF some_descriptor_free, of fds] by (simp add: lowest_free_def del: upt_Suc)

lemma lowest_free_least: "n \<notin> set fds \<Longrightarrow> lowest_free fds \<le> n"
proof (cases "n < Suc (length fds)")
  case True
  assume n: "n \<notin> set fds"
  let ?l = "filter (\<lambda>n. n \<notin> set fds) [0..<Suc (length fds)]"
  have "n \<in> set ?l" using True n by (simp del: upt_Suc)
  moreover have "sorted ?l" by (intro sorted_wrt_filter sorted_upt)
  ultimately show ?thesis unfolding lowest_free_def by (cases ?l) (auto simp del: upt_Suc)
next
  case False
  from hd_in_set [OF some_descriptor_free] have "lowest_free fds < Suc (length fds)"
    by (simp add: lowest_free_def del: upt_Suc)
  with False show ?thesis by simp
qed

section \<open>Plenty\<close>

text \<open>All allocations and calls that are still to come succeed.\<close>

definition plentiful :: "'a mainloop_scheme \<Rightarrow> bool" where
  "plentiful s \<longleftrightarrow> set (alloc_ok s) \<subseteq> {True} \<and> set (sys_ok s) \<subseteq> {True}"

lemma pop_plenty: "set bs \<subseteq> {True} \<Longrightarrow> pop_ok bs = (True, tl bs) \<and> set (tl bs) \<subseteq> {True}"
  by (cases bs) auto

lemma plentiful_answers:
  assumes "plentiful s"
  shows "sys_answer s = (True, s\<lparr>sys_ok := tl (sys_ok s)\<rparr>)" "alloc_answer s = (True, s\<lparr>alloc_ok := tl (alloc_ok s)\<rparr>)"
    "sys_open s = (Some (lowest_free (open_fds s)),
       s\<lparr>sys_ok := tl (sys_ok s), open_fds := lowest_free (open_fds s) # open_fds s\<rparr>)"
    "plentiful (s\<lparr>sys_ok := tl (sys_ok s)\<rparr>)" "plentiful (s\<lparr>alloc_ok := tl (alloc_ok s)\<rparr>)"
  using assms pop_plenty [of "sys_ok s"] pop_plenty [of "alloc_ok s"]
  by (simp_all add: plentiful_def sys_answer_def alloc_answer_def sys_open_def)

lemma plentiful_updates [simp]:
  "plentiful (s\<lparr>epollfd := a\<rparr>) = plentiful s" "plentiful (s\<lparr>post_iteration_callback := b\<rparr>) = plentiful s"
  "plentiful (s\<lparr>objects := c\<rparr>) = plentiful s" "plentiful (s\<lparr>next_addr := d\<rparr>) = plentiful s"
  "plentiful (s\<lparr>open_fds := e\<rparr>) = plentiful s" "plentiful (s\<lparr>interest := f\<rparr>) = plentiful s"
  "plentiful (sys_close g s) = plentiful s"
  by (simp_all add: plentiful_def sys_close_def)

lemma add_object_plenty:
  assumes "plentiful s" "epollfd s \<noteq> None"
  shows "\<exists>a s'. add_object True obj s = Inr (Some a, s') \<and> plentiful s' \<and> loop_frame s s'"
proof -
  let ?s1 = "s\<lparr>alloc_ok := tl (alloc_ok s)\<rparr>"
  let ?fd = "lowest_free (open_fds s)"
  let ?s2 = "?s1\<lparr>sys_ok := tl (sys_ok ?s1), open_fds := ?fd # open_fds s\<rparr>"
  let ?s3 = "?s2\<lparr>objects := (objects ?s2)(next_addr ?s2 \<mapsto> obj ?fd), next_addr := Suc (next_addr ?s2)\<rparr>"
  note a = plentiful_answers [OF assms(1)]
  note b = plentiful_answers [OF a(5)]
  have "plentiful ?s3" using b(4) by simp
  from plentiful_answers [OF this] a(2) b(3) assms(2) show ?thesis
    by (simp add: add_object_def add_fd_def Let_def loop_frame_def)
qed

section \<open>The operations keep the invariant\<close>

lemma mainloop_okD:
  assumes "mainloop_ok s"
  shows "interest s fd = Some a \<Longrightarrow> \<exists>obj. objects s a = Some obj \<and> cb_fd obj = fd"
    and "objects s a = Some obj \<Longrightarrow> a < next_addr s"
    and "objects s a = Some obj \<Longrightarrow> cb_fd obj \<in> set (open_fds s)"
    and "objects s a = Some obj \<Longrightarrow> interest s (cb_fd obj) = Some a"
    and "epollfd s = Some e \<Longrightarrow> e \<in> set (open_fds s)"
    and "epollfd s = Some e \<Longrightarrow> interest s e = None"
  using assms by (auto simp: mainloop_ok_def)

lemma mainloop_ok_answers:
  "mainloop_ok (s\<lparr>sys_ok := x\<rparr>) = mainloop_ok s" "mainloop_ok (s\<lparr>alloc_ok := x\<rparr>) = mainloop_ok s"
  by (simp_all add: mainloop_ok_def)

text \<open>Opening a descriptor, and closing one that is neither an object's nor the epoll instance's.\<close>

lemma sys_open_ok:
  assumes "sys_open s = (r, s')" "mainloop_ok s"
  shows "mainloop_ok s' \<and> loop_frame s s' \<and> objects s' = objects s \<and> interest s' = interest s \<and>
    next_addr s' = next_addr s \<and> alloc_ok s' = alloc_ok s \<and>
    (case r of None \<Rightarrow> open_fds s' = open_fds s
     | Some fd \<Rightarrow> fd \<notin> set (open_fds s) \<and> open_fds s' = fd # open_fds s)"
  using assms lowest_free_fresh [of "open_fds s"]
  by (auto simp: sys_open_def sys_answer_def loop_frame_def mainloop_ok_def split: prod.splits if_splits)

lemma sys_close_ok:
  assumes "mainloop_ok s" "interest s fd = None" "epollfd s \<noteq> Some fd"
  shows "mainloop_ok (sys_close fd s)" "loop_frame s (sys_close fd s)" "objects (sys_close fd s) = objects s"
proof -
  have "cb_fd obj \<noteq> fd" if "objects s a = Some obj" for a obj
    using mainloop_okD(4) [OF assms(1) that] assms(2) by auto
  with assms show "mainloop_ok (sys_close fd s)" by (auto simp: mainloop_ok_def sys_close_def)
  show "loop_frame s (sys_close fd s)" "objects (sys_close fd s) = objects s"
    by (simp_all add: loop_frame_def sys_close_def)
qed

text \<open>A fresh object, registered, is all that adding a callback leaves behind.\<close>

lemma object_fresh: "mainloop_ok s \<Longrightarrow> next_addr s \<le> a \<Longrightarrow> objects s a = None"
  by (meson mainloop_okD(2) not_less option.exhaust)

lemma interest_closed: "mainloop_ok s \<Longrightarrow> fd \<notin> set (open_fds s) \<Longrightarrow> interest s fd = None"
  using mainloop_okD(1,3) [of s] by (cases "interest s fd") blast+

lemma register_ok:
  assumes ok: "mainloop_ok s" and fd: "fd \<notin> set (open_fds s)" and obj: "cb_fd obj = fd"
    and e: "epollfd s' = epollfd s" "open_fds s' = fd # open_fds s"
    and s': "objects s' = (objects s)(next_addr s \<mapsto> obj)" "next_addr s' = Suc (next_addr s)"
      "interest s' = (interest s)(fd \<mapsto> next_addr s)"
  shows "mainloop_ok s'"
proof -
  note d = mainloop_okD [OF ok]
  have "\<exists>ob. objects s' a = Some ob \<and> cb_fd ob = f" if "interest s' f = Some a" for f a
  proof (cases "f = fd")
    case True
    with that s' obj show ?thesis by simp
  next
    case False
    with that s' have "interest s f = Some a" by simp
    from d(1) [OF this] obtain ob where "objects s a = Some ob" "cb_fd ob = f" by blast
    with object_fresh [OF ok order_refl] s' show ?thesis by (intro exI [of _ ob]) auto
  qed
  moreover have "a < next_addr s' \<and> cb_fd ob \<in> set (open_fds s') \<and> interest s' (cb_fd ob) = Some a"
    if "objects s' a = Some ob" for a ob
  proof (cases "a = next_addr s")
    case True
    with that s' e obj show ?thesis by simp
  next
    case False
    with that s' have "objects s a = Some ob" by simp
    with d(2-4) [OF this] fd s' e show ?thesis by auto
  qed
  moreover have "x \<in> set (open_fds s') \<and> interest s' x = None" if "epollfd s' = Some x" for x
    using d(5,6) [of x] that e s' fd by auto
  ultimately show ?thesis by (simp only: mainloop_ok_def) blast
qed

lemma add_object_ok:
  assumes ok: "mainloop_ok s" and e: "epollfd s \<noteq> None" and obj: "\<And>fd. cb_fd (obj fd) = fd"
  shows "\<exists>r s'. add_object True obj s = Inr (r, s') \<and> mainloop_ok s' \<and> loop_frame s s' \<and>
    next_addr s \<le> next_addr s' \<and> (\<forall>fd. quiet s fd \<longrightarrow> quiet s' fd) \<and>
    (case r of None \<Rightarrow> objects s' = objects s
     | Some a \<Rightarrow> objects s a = None \<and> (\<exists>fd. objects s' = (objects s)(a \<mapsto> obj fd)))"
proof -
  obtain b al where pop: "pop_ok (alloc_ok s) = (b, al)" by (cases "pop_ok (alloc_ok s)")
  obtain b2 sy where pop2: "pop_ok (sys_ok s) = (b2, sy)" by (cases "pop_ok (sys_ok s)")
  obtain b3 sy3 where pop3: "pop_ok sy = (b3, sy3)" by (cases "pop_ok sy")
  let ?fd = "lowest_free (open_fds s)" and ?a = "next_addr s"
  have fresh: "?fd \<notin> set (open_fds s)" by (rule lowest_free_fresh)
  have i: "interest s ?fd = None" using ok fresh by (rule interest_closed)
  have fl: "filter (\<lambda>n. n \<noteq> ?fd) (open_fds s) = open_fds s" using fresh by (auto simp: filter_id_conv)
  have ob: "(objects s)(?a := None) = objects s" using object_fresh [OF ok order_refl] by auto
  have iu: "(interest s)(?fd := None) = interest s" using i by auto
  note defs = quiet_def add_object_def alloc_answer_def sys_open_def sys_answer_def add_fd_def sys_close_def
  consider (no_memory) "\<not> b" | (no_fd) "b" "\<not> b2" | (refused) "b" "b2" "\<not> b3" | (added) "b" "b2" "b3" by blast
  then show ?thesis
  proof cases
    case no_memory
    with pop ok show ?thesis by (auto simp: defs mainloop_ok_answers loop_frame_def)
  next
    case no_fd
    with pop pop2 ok show ?thesis by (auto simp: defs mainloop_ok_answers loop_frame_def)
  next
    case refused
    with pop pop2 pop3 e have "add_object True obj s = Inr (None, s\<lparr>alloc_ok := al, sys_ok := sy3,
        open_fds := open_fds s, next_addr := Suc ?a, objects := objects s, interest := interest s\<rparr>)"
      by (auto simp: defs fl ob iu)
    moreover have "mainloop_ok (s\<lparr>alloc_ok := al, sys_ok := sy3, open_fds := open_fds s,
        next_addr := Suc ?a, objects := objects s, interest := interest s\<rparr>)"
      using ok by (auto simp: mainloop_ok_def less_Suc_eq)
    ultimately show ?thesis by (auto simp: loop_frame_def quiet_def)
  next
    case added
    let ?s' = "s\<lparr>alloc_ok := al, sys_ok := sy3, open_fds := ?fd # open_fds s, next_addr := Suc ?a,
        objects := (objects s)(?a \<mapsto> obj ?fd), interest := (interest s)(?fd \<mapsto> ?a)\<rparr>"
    have "add_object True obj s = Inr (Some ?a, ?s')"
      using added pop pop2 pop3 e by (auto simp: defs Let_def)
    moreover have "mainloop_ok ?s'" by (rule register_ok [OF ok fresh obj]) simp_all
    ultimately show ?thesis using object_fresh [OF ok order_refl] fresh
      by (auto simp: loop_frame_def quiet_def)
  qed
qed

text \<open>
  What adding a callback leaves behind exactly: nothing if it fails, which takes a call or an
  allocation that fails; otherwise one object, one descriptor and one registration.
\<close>

lemma add_object_exact:
  assumes ok: "mainloop_ok s" and e: "epollfd s \<noteq> None" and add: "add_object True obj s = Inr (r, s')"
  shows "case r of
     None \<Rightarrow> \<not> plentiful s \<and> objects s' = objects s \<and> open_fds s' = open_fds s \<and> interest s' = interest s
   | Some a \<Rightarrow> \<exists>fd. fd \<notin> set (open_fds s) \<and> objects s' = (objects s)(a \<mapsto> obj fd) \<and>
       open_fds s' = fd # open_fds s \<and> interest s' = (interest s)(fd \<mapsto> a)"
proof -
  let ?fd = "lowest_free (open_fds s)"
  have fresh: "?fd \<notin> set (open_fds s)" by (rule lowest_free_fresh)
  have fl: "filter (\<lambda>n. n \<noteq> ?fd) (open_fds s) = open_fds s" using fresh by (auto simp: filter_id_conv)
  have ob: "(objects s)(next_addr s := None) = objects s" using object_fresh [OF ok order_refl] by auto
  have iu: "(interest s)(?fd := None) = interest s" using interest_closed [OF ok fresh] by auto
  have "r \<noteq> None" if "plentiful s" using add_object_plenty [OF that e, of obj] add by auto
  then show ?thesis using add e fresh
    by (auto simp: add_object_def alloc_answer_def sys_open_def sys_answer_def add_fd_def sys_close_def Let_def
        fl ob iu split: prod.splits if_splits)
qed

lemma timespec_valid: "valid_timespec (timespec_of msec)"
  by (simp add: valid_timespec_def timespec_of_def)

lemma remove_object_ok:
  assumes ok: "mainloop_ok s" and a: "objects s a = Some obj"
  shows "\<exists>s'. remove_object a s = Inr s' \<and> mainloop_ok s' \<and> loop_frame s s' \<and>
    objects s' = (objects s)(a := None) \<and> next_addr s' = next_addr s \<and> (\<forall>fd. quiet s fd \<longrightarrow> quiet s' fd)"
proof -
  let ?s' = "(sys_close (cb_fd obj) (remove_fd (cb_fd obj) s))\<lparr>objects := (objects s)(a := None)\<rparr>"
  note d = mainloop_okD [OF ok]
  have fields: "objects ?s' = (objects s)(a := None)" "interest ?s' = (interest s)(cb_fd obj := None)"
    "open_fds ?s' = filter (\<lambda>n. n \<noteq> cb_fd obj) (open_fds s)" "epollfd ?s' = epollfd s" "next_addr ?s' = next_addr s"
    by (auto simp: sys_close_def remove_fd_def)
  have own: "interest s (cb_fd obj) = Some a" using d(4) a .
  have "\<exists>ob. objects ?s' b = Some ob \<and> cb_fd ob = f" if "interest ?s' f = Some b" for f b
  proof -
    from that fields have f: "f \<noteq> cb_fd obj" "interest s f = Some b" by (auto split: if_splits)
    with d(1) obtain ob where "objects s b = Some ob" "cb_fd ob = f" by blast
    with f a fields show ?thesis by auto
  qed
  moreover have "b < next_addr ?s' \<and> cb_fd ob \<in> set (open_fds ?s') \<and> interest ?s' (cb_fd ob) = Some b"
    if "objects ?s' b = Some ob" for b ob
  proof -
    from that fields have b: "b \<noteq> a" "objects s b = Some ob" by (auto split: if_splits)
    with d(4) own have "cb_fd ob \<noteq> cb_fd obj" by force
    with d(2-4) [OF b(2)] fields show ?thesis by simp
  qed
  moreover have "x \<in> set (open_fds ?s') \<and> interest ?s' x = None" if "epollfd ?s' = Some x" for x
    using d(5,6) [of x] that fields own by auto
  ultimately have "mainloop_ok ?s'" by (simp only: mainloop_ok_def) blast
  moreover have "loop_frame s ?s'" by (simp add: loop_frame_def sys_close_def remove_fd_def)
  moreover have "quiet ?s' fd" if "quiet s fd" for fd
    using that own by (auto simp: quiet_def sys_close_def remove_fd_def)
  ultimately show ?thesis using a fields(1,5) by (auto simp: remove_object_def)
qed

section \<open>The contract of the callbacks\<close>

lemma settles_Inl: "settles (Inl f) P \<longleftrightarrow> (\<exists>msg. f = Panicked msg)"
  by (cases f) auto

lemma settles_bind: "settles m (\<lambda>x. settles (f x) P) \<Longrightarrow> settles (res_bind m f) P"
  by (cases m) (simp_all add: settles_Inl)

lemma settles_mono: "settles m P \<Longrightarrow> (\<And>x. m = Inr x \<Longrightarrow> P x \<Longrightarrow> Q x) \<Longrightarrow> settles m Q"
  by (cases m) (simp_all add: settles_Inl)

lemma settles_Inr: "settles m P \<Longrightarrow> m = Inr x \<Longrightarrow> P x"
  by simp

text \<open>
  What a program that registers callbacks must provide: an invariant that contains the one of the
  loop and that every callback keeps, a timeout that asks to be stopped leaving its object to be
  removed. The loop then runs without a fault, one event at a time.
\<close>

locale callback_contract =
  fixes call :: "'a mainloop_scheme callbacks"
    and inv :: "'a mainloop_scheme \<Rightarrow> bool"
  assumes inv_ok: "inv s \<Longrightarrow> mainloop_ok s"
    and signal_keeps: "inv s \<Longrightarrow> \<not> should_exit s \<Longrightarrow> objects s a = Some obj \<Longrightarrow>
      cb_type obj = CALLBACK_SIGNAL \<Longrightarrow>
      settles (call (cb_fn obj) n s) (\<lambda>(_, s'). inv s' \<and> \<not> should_exit s')"
    and timeout_keeps: "inv s \<Longrightarrow> \<not> should_exit s \<Longrightarrow> objects s a = Some obj \<Longrightarrow>
      cb_type obj = CALLBACK_TIMEOUT \<Longrightarrow>
      settles (call (cb_fn obj) 0 s) (\<lambda>(r, s').
        if r = TIMEOUT_CONTINUE then inv s' \<and> \<not> should_exit s'
        else settles (mainloop_remove_timeout a s') (\<lambda>s''. inv s'' \<and> \<not> should_exit s''))"
    and post_keeps: "inv s \<Longrightarrow> \<not> should_exit s \<Longrightarrow> post_iteration_callback s = Some cb \<Longrightarrow>
      settles (call cb 0 s) (\<lambda>(_, s'). inv s')"
begin

lemma post_settles: "inv s \<Longrightarrow> \<not> should_exit s \<Longrightarrow> settles (run_post_callback call s) inv"
  unfolding run_post_callback_def
  by (auto split: option.split intro!: settles_bind elim!: settles_mono [OF post_keeps])

lemma handle_event_settles:
  assumes "inv s" "\<not> should_exit s" "delivered_by s ev"
  shows "settles (handle_event call ev s) (\<lambda>r. case r of Handled s' \<Rightarrow> inv s' | Error_Reading s' \<Rightarrow> s' = s \<and> \<not> read_full ev)"
proof -
  obtain obj where obj: "objects s (data_ptr ev) = Some obj"
    using mainloop_okD(1) [OF inv_ok [OF assms(1)]] assms(3) by (auto simp: delivered_by_def)
  have handled: "settles (res_bind (run_post_callback call s1) (\<lambda>s2. Inr (Handled s2)))
      (\<lambda>r. case r of Handled s' \<Rightarrow> inv s' | Error_Reading s' \<Rightarrow> s' = s \<and> \<not> read_full ev)" if "inv s1 \<and> \<not> should_exit s1" for s1
    using that by (auto intro!: settles_bind elim!: settles_mono [OF post_settles])
  show ?thesis
  proof (cases "read_full ev")
    case True
    show ?thesis
    proof (cases "cb_type obj")
      case CALLBACK_SIGNAL
      from signal_keeps [OF assms(1,2) obj this, of "ssi_signo ev"] show ?thesis
        using obj True CALLBACK_SIGNAL
        by (auto simp: handle_event_def intro!: settles_bind elim!: settles_mono intro: handled post_settles)
    next
      case CALLBACK_TIMEOUT
      from timeout_keeps [OF assms(1,2) obj this] show ?thesis
        using obj True CALLBACK_TIMEOUT
        by (auto simp: handle_event_def intro!: settles_bind elim!: settles_mono split: if_splits)
          (simp_all add: post_settles)
    qed
  qed (use obj in \<open>simp add: handle_event_def\<close>)
qed

lemma loop_settles:
  "inv s \<Longrightarrow> orderly call ws s \<Longrightarrow>
   settles (mainloop_loop call ws s) (\<lambda>r. case r of
     Waiting s' \<Rightarrow> inv s' \<and> \<not> should_exit s'
   | Returned True s' \<Rightarrow> (\<exists>s0. inv s0 \<and> should_exit s0 \<and> s' = (close_epoll s0)\<lparr>epollfd := None\<rparr>)
   | Returned False s' \<Rightarrow> (\<exists>s0 ev. inv s0 \<and> \<not> should_exit s0 \<and> s' = close_epoll s0 \<and>
       Events [ev] \<in> set ws \<and> \<not> read_full ev))"
proof (induction ws arbitrary: s)
  case (Cons w ws)
  let ?P = "\<lambda>vs r. case r of
     Waiting s' \<Rightarrow> inv s' \<and> \<not> should_exit s'
   | Returned True s' \<Rightarrow> (\<exists>s0. inv s0 \<and> should_exit s0 \<and> s' = (close_epoll s0)\<lparr>epollfd := None\<rparr>)
   | Returned False s' \<Rightarrow> (\<exists>s0 ev. inv s0 \<and> \<not> should_exit s0 \<and> s' = close_epoll s0 \<and>
       Events [ev] \<in> set vs \<and> \<not> read_full ev)"
  have IH: "settles (mainloop_loop call ws s1) (?P (w # ws))" if "inv s1" "orderly call ws s1" for s1
    by (rule settles_mono [OF Cons.IH [OF that]]) (auto split: loop_end.splits bool.splits)
  show ?case
  proof (cases "should_exit s")
    case False
    show ?thesis
    proof (cases w)
      case (Events evs)
      with Cons.prems False obtain ev where ev: "evs = [ev]" "delivered_by s ev"
        by (auto split: list.splits)
      have next_ok: "orderly call ws s1" if "handle_event call ev s = Inr (Handled s1)" for s1
        using Cons.prems False Events ev that by simp
      have "settles (handle_events call evs s) (\<lambda>r. settles (case r of
          Handled s1 \<Rightarrow> mainloop_loop call ws s1 | Error_Reading s1 \<Rightarrow> Inr (Returned False (close_epoll s1))) (?P (w # ws)))"
        using handle_event_settles [OF Cons.prems(1) False ev(2)] ev(1) next_ok IH False Cons.prems(1) Events
        by (auto intro!: settles_bind elim!: settles_mono split: batch_end.splits) blast
      with False Events show ?thesis by (simp add: settles_bind)
    qed (use Cons.prems IH False in auto)
  qed (use Cons in auto)
qed auto

end

lemma mainloop_add_timeout_ok:
  assumes "mainloop_ok s" "msec \<noteq> 0" "epollfd s \<noteq> None"
  shows "\<exists>r s'. mainloop_add_timeout msec cb s = Inr (r, s') \<and> mainloop_ok s' \<and> loop_frame s s' \<and>
    next_addr s \<le> next_addr s' \<and> (\<forall>fd. quiet s fd \<longrightarrow> quiet s' fd) \<and>
    (case r of
       None \<Rightarrow> objects s' = objects s
     | Some a \<Rightarrow> objects s a = None \<and>
         (\<exists>obj. objects s' = (objects s)(a \<mapsto> obj) \<and> cb_type obj = CALLBACK_TIMEOUT \<and> cb_fn obj = cb \<and>
            interest s' (cb_fd obj) = Some a \<and>
            fst (period obj) * 1000 + snd (period obj) div 1000000 = unat msec))"
proof -
  let ?obj = "\<lambda>fd. \<lparr>cb_fd = fd, cb_type = CALLBACK_TIMEOUT, cb_fn = cb, period = timespec_of msec\<rparr>"
  obtain r s' where add: "add_object True ?obj s = Inr (r, s')" "mainloop_ok s'" "loop_frame s s'"
      "next_addr s \<le> next_addr s'" "\<forall>fd. quiet s fd \<longrightarrow> quiet s' fd"
      "case r of None \<Rightarrow> objects s' = objects s
       | Some a \<Rightarrow> objects s a = None \<and> (\<exists>fd. objects s' = (objects s)(a \<mapsto> ?obj fd))"
    using add_object_ok [OF assms(1,3), of ?obj] by auto
  have ms: "fst (timespec_of msec) * 1000 + snd (timespec_of msec) div 1000000 = unat msec"
    by (simp add: timespec_of_def)
  have "interest s' fd = Some a" if "objects s' = (objects s)(a \<mapsto> ?obj fd)" for a fd
    using mainloop_okD(4) [OF add(2), of a "?obj fd"] that by simp
  with add ms assms(2,3) show ?thesis
    by (auto simp: mainloop_add_timeout_def timespec_valid split: option.splits)
qed

lemma mainloop_add_timeout_exact:
  assumes "mainloop_ok s" "msec \<noteq> 0" "epollfd s \<noteq> None" "mainloop_add_timeout msec cb s = Inr (r, s')"
  shows "case r of
     None \<Rightarrow> \<not> plentiful s \<and> objects s' = objects s \<and> open_fds s' = open_fds s \<and> interest s' = interest s
   | Some a \<Rightarrow> \<exists>obj. objects s' = (objects s)(a \<mapsto> obj) \<and> cb_fd obj \<notin> set (open_fds s) \<and>
       open_fds s' = cb_fd obj # open_fds s \<and> interest s' = (interest s)(cb_fd obj \<mapsto> a)"
proof -
  let ?obj = "\<lambda>fd. \<lparr>cb_fd = fd, cb_type = CALLBACK_TIMEOUT, cb_fn = cb, period = timespec_of msec\<rparr>"
  have "add_object True ?obj s = Inr (r, s')"
    using assms(2-4) by (auto simp: mainloop_add_timeout_def timespec_valid)
  note exact = add_object_exact [OF assms(1,3) this]
  show ?thesis
  proof (cases r)
    case (Some a)
    with exact obtain fd where "fd \<notin> set (open_fds s)" "objects s' = (objects s)(a \<mapsto> ?obj fd)"
      "open_fds s' = fd # open_fds s" "interest s' = (interest s)(fd \<mapsto> a)" by auto
    with Some show ?thesis by (simp, intro exI [of _ "?obj fd"]) simp
  qed (use exact in simp)
qed

section \<open>Results\<close>

text \<open>C18: adding a timeout to a running loop never fails an assertion; when it returns an object,
  this is a new one, registered with the epoll instance under a new descriptor of its own, and its
  timer is set to exactly the milliseconds asked for. When it returns NULL, which it does only if an
  allocation or a system call failed, nothing is left behind: the same objects, open descriptors and
  registrations as before. The rest of the state is untouched and the interest list still points to
  live objects only.\<close>

theorem mainloop_add_timeout_correct:
  assumes "mainloop_ok s" "msec \<noteq> 0" "epollfd s \<noteq> None"
  shows "\<exists>r s'. mainloop_add_timeout msec cb s = Inr (r, s') \<and> mainloop_ok s' \<and> loop_frame s s' \<and>
    next_addr s \<le> next_addr s' \<and> (\<forall>fd. quiet s fd \<longrightarrow> quiet s' fd) \<and>
    (case r of
       None \<Rightarrow> \<not> plentiful s \<and> objects s' = objects s \<and> open_fds s' = open_fds s \<and> interest s' = interest s
     | Some a \<Rightarrow> objects s a = None \<and>
         (\<exists>obj. objects s' = (objects s)(a \<mapsto> obj) \<and> cb_type obj = CALLBACK_TIMEOUT \<and> cb_fn obj = cb \<and>
            cb_fd obj \<notin> set (open_fds s) \<and> open_fds s' = cb_fd obj # open_fds s \<and>
            interest s' = (interest s)(cb_fd obj \<mapsto> a) \<and>
            fst (period obj) * 1000 + snd (period obj) div 1000000 = unat msec))"
proof -
  obtain r s' where add: "mainloop_add_timeout msec cb s = Inr (r, s')" "mainloop_ok s'" "loop_frame s s'"
      "next_addr s \<le> next_addr s'" "\<forall>fd. quiet s fd \<longrightarrow> quiet s' fd"
      "case r of None \<Rightarrow> objects s' = objects s
       | Some a \<Rightarrow> objects s a = None \<and>
           (\<exists>obj. objects s' = (objects s)(a \<mapsto> obj) \<and> cb_type obj = CALLBACK_TIMEOUT \<and> cb_fn obj = cb \<and>
              interest s' (cb_fd obj) = Some a \<and>
              fst (period obj) * 1000 + snd (period obj) div 1000000 = unat msec)"
    using mainloop_add_timeout_ok [OF assms, of cb] by blast
  show ?thesis
  proof (cases r)
    case None
    with add(1-5) mainloop_add_timeout_exact [OF assms add(1)] show ?thesis by auto
  next
    case (Some a)
    with add(6) obtain obj where o: "objects s a = None" "objects s' = (objects s)(a \<mapsto> obj)" "cb_type obj = CALLBACK_TIMEOUT"
        "cb_fn obj = cb" "fst (period obj) * 1000 + snd (period obj) div 1000000 = unat msec" by auto
    from Some mainloop_add_timeout_exact [OF assms add(1)] obtain ob where "objects s' = (objects s)(a \<mapsto> ob)"
        "cb_fd ob \<notin> set (open_fds s)" "open_fds s' = cb_fd ob # open_fds s" "interest s' = (interest s)(cb_fd ob \<mapsto> a)" by auto
    moreover from this(1) o(2) have "ob = obj" by (metis fun_upd_same option.inject)
    ultimately show ?thesis using Some add(1-5) o by auto
  qed
qed

theorem mainloop_add_timeout_correct_witness:
  "case mainloop_add_timeout 3500 kill_timeout_fn \<lparr>epollfd = Some 3, should_exit = False,
       post_iteration_callback = None, objects = Map.empty, next_addr = 0, open_fds = [0, 1, 2, 3],
       interest = Map.empty, alloc_ok = [], sys_ok = []\<rparr> of
     Inr (Some a, s') \<Rightarrow> a = 0 \<and> map_option period (objects s' a) = Some (3, 500000000) | _ \<Rightarrow> False"
proof -
  let ?s = "\<lparr>epollfd = Some 3, should_exit = False, post_iteration_callback = None,
    objects = Map.empty, next_addr = 0, open_fds = [0, 1, 2, 3], interest = Map.empty, alloc_ok = [], sys_ok = []\<rparr>"
  have "mainloop_ok ?s" by (simp add: mainloop_ok_def)
  from mainloop_add_timeout_correct [OF this, of 3500 kill_timeout_fn]
  obtain r s' where "mainloop_add_timeout 3500 kill_timeout_fn ?s = Inr (r, s')" by auto
  then show ?thesis
    by (auto simp: mainloop_add_timeout_def add_object_def alloc_answer_def sys_open_def sys_answer_def
        add_fd_def valid_timespec_def timespec_of_def Let_def)
qed

end
