(* ===== verification/Watchdog.thy ===== *)
theory Watchdog
  imports Mainloop
begin

text \<open>
  The watchdog (\<open>src/watchdog.c\<close>): the device is opened, its period is read (or set), and a
  timeout of nine tenths of it feeds the device. The results bound the feeding period, with the
  product kept at 32 bits, and follow the descriptor through \<open>close_watchdog\<close>.
\<close>

section \<open>Definitions\<close>

definition WATCHDOG_TIMEOUT_DEFAULT_SECS :: int where "WATCHDOG_TIMEOUT_DEFAULT_SECS = 60"

text \<open>What the device is told.\<close>

datatype wd_command = Keepalive | Set_Timeout int | Disable_Card | Magic_Close

record watchdog_state = mainloop +
  watchdog_fd :: int
  watchdog_timeout :: "nat option"
  wd_commands :: "(int \<times> wd_command) list"

text \<open>A command to the device behind a descriptor; the answer is \<open>ioctl\<close>'s or \<open>write\<close>'s.\<close>

definition wd_send :: "wd_command \<Rightarrow> 'a watchdog_state_scheme \<Rightarrow> bool \<times> 'a watchdog_state_scheme" where
  "wd_send c s = (case sys_answer s of
     (ok, s1) \<Rightarrow> (ok, s1\<lparr>wd_commands := wd_commands s1 @ [(watchdog_fd s1, c)]\<rparr>))"

definition watchdog_feed :: "'a watchdog_state_scheme \<Rightarrow> timeout_result \<times> 'a watchdog_state_scheme" where
  "watchdog_feed s = (TIMEOUT_CONTINUE, snd (wd_send Keepalive s))"

definition close_watchdog :: "bool \<Rightarrow> 'a watchdog_state_scheme \<Rightarrow> 'a watchdog_state_scheme c_res" where
  "close_watchdog disarm s =
     (if 0 < watchdog_fd s then
        let s1 = (if disarm then snd (wd_send Magic_Close (snd (wd_send Disable_Card s))) else s);
            s2 = sys_close (nat (watchdog_fd s1)) s1
        in case watchdog_timeout s2 of
             None \<Rightarrow> Inr s2
           | Some mt \<Rightarrow> res_bind (mainloop_remove_timeout mt s2) (\<lambda>s3. Inr (s3\<lparr>watchdog_timeout := None\<rparr>))
      else Inr s)"

text \<open>Milliseconds between two feeds: \<open>(uint32_t)timeout * 900U\<close>.\<close>

definition feed_period :: "int \<Rightarrow> uint32_t" where
  "feed_period timeout = of_int timeout * 900"

text \<open>
  \<open>start_watchdog\<close>; \<open>get\<close> is the period \<open>WDIOC_GETTIMEOUT\<close> reports, \<open>None\<close> when the
  call fails.
\<close>

definition start_watchdog :: "int option \<Rightarrow> 'a watchdog_state_scheme \<Rightarrow> 'a watchdog_state_scheme c_res" where
  "start_watchdog get s =
     (case sys_open s of
        (None, s1) \<Rightarrow> Inr (s1\<lparr>watchdog_fd := - 1\<rparr>)
      | (Some fd, s1) \<Rightarrow>
          let s2 = s1\<lparr>watchdog_fd := int fd\<rparr>;
              reported = (case get of Some t \<Rightarrow> 1 \<le> t | None \<Rightarrow> False);
              timeout = (if reported then the get else WATCHDOG_TIMEOUT_DEFAULT_SECS);
              (set_ok, s3) = (if reported then (True, s2) else wd_send (Set_Timeout timeout) s2)
          in if \<not> set_ok then close_watchdog False s3
             else res_bind (mainloop_add_timeout (feed_period timeout) watchdog_feed_fn s3)
                    (\<lambda>(mt, s4). let s5 = s4\<lparr>watchdog_timeout := mt\<rparr> in
                       if mt = None then close_watchdog False s5 else Inr s5))"

section \<open>Invariant\<close>

text \<open>The timeout, if any, is a live one that feeds the device.\<close>

definition watchdog_ok :: "'a watchdog_state_scheme \<Rightarrow> bool" where
  "watchdog_ok s \<longleftrightarrow>
     (\<forall>mt. watchdog_timeout s = Some mt \<longrightarrow>
        (\<exists>obj. objects s mt = Some obj \<and> cb_type obj = CALLBACK_TIMEOUT \<and> cb_fn obj = watchdog_feed_fn))"

lemma watchdog_frame:
  assumes "loop_frame s s'"
  shows "watchdog_fd s' = watchdog_fd s" "watchdog_timeout s' = watchdog_timeout s"
    "wd_commands s' = wd_commands s"
  using loop_frame_eq [OF assms, of watchdog_fd] loop_frame_eq [OF assms, of watchdog_timeout]
    loop_frame_eq [OF assms, of wd_commands] by simp_all

lemma wd_send_fields:
  "epollfd (snd (wd_send c s)) = epollfd s" "objects (snd (wd_send c s)) = objects s"
  "interest (snd (wd_send c s)) = interest s" "open_fds (snd (wd_send c s)) = open_fds s"
  "next_addr (snd (wd_send c s)) = next_addr s" "watchdog_fd (snd (wd_send c s)) = watchdog_fd s"
  "watchdog_timeout (snd (wd_send c s)) = watchdog_timeout s"
  "should_exit (snd (wd_send c s)) = should_exit s"
  "wd_commands (snd (wd_send c s)) = wd_commands s @ [(watchdog_fd s, c)]"
  by (auto simp: wd_send_def sys_answer_def split: prod.splits)

section \<open>Starting\<close>

lemma feed_period_exact:
  assumes "1 \<le> t" "t \<le> 4772185"
  shows "unat (feed_period t) = nat t * 900"
proof -
  have "feed_period t = word_of_int (t * 900)" by (simp add: feed_period_def)
  moreover have "uint (word_of_int (t * 900) :: uint32_t) = t * 900"
    using assms by (subst uint_word_of_int) (simp add: mod_pos_pos_trivial)
  ultimately have "unat (feed_period t) = nat (t * 900)" by (simp only: unat_eq_nat_uint)
  then show ?thesis using assms by (simp add: nat_mult_distrib)
qed

lemma mainloop_ok_watchdog [simp]:
  "mainloop_ok (s\<lparr>watchdog_fd := x\<rparr>) = mainloop_ok s" "mainloop_ok (s\<lparr>watchdog_timeout := y\<rparr>) = mainloop_ok s"
  "mainloop_ok (s\<lparr>wd_commands := z\<rparr>) = mainloop_ok s"
  by (simp_all add: mainloop_ok_def)

lemma plentiful_watchdog [simp]:
  "plentiful (s\<lparr>watchdog_fd := x\<rparr>) = plentiful s" "plentiful (s\<lparr>watchdog_timeout := y\<rparr>) = plentiful s"
  "plentiful (s\<lparr>wd_commands := z\<rparr>) = plentiful s"
  by (simp_all add: plentiful_def)

lemma close_watchdog_no_timeout:
  assumes "mainloop_ok s" "watchdog_timeout s = None" "interest s (nat (watchdog_fd s)) = None"
    "epollfd s \<noteq> Some (nat (watchdog_fd s))"
  shows "\<exists>s'. close_watchdog False s = Inr s' \<and> mainloop_ok s' \<and> objects s' = objects s \<and>
    watchdog_timeout s' = None \<and>
    (0 < watchdog_fd s \<longrightarrow> open_fds s' = filter (\<lambda>n. n \<noteq> nat (watchdog_fd s)) (open_fds s))"
  using assms sys_close_ok [OF assms(1,3,4)] watchdog_frame(2) [of s "sys_close (nat (watchdog_fd s)) s"]
  by (auto simp: close_watchdog_def Let_def sys_close_def)

lemma start_watchdog_ok:
  assumes "mainloop_ok s" "epollfd s \<noteq> None" "watchdog_timeout s = None" "1 \<le> t" "t \<le> 4772185"
  shows "\<exists>s'. start_watchdog (Some t) s = Inr s' \<and> mainloop_ok s' \<and> watchdog_ok s' \<and>
    (case watchdog_timeout s' of
       None \<Rightarrow> \<not> plentiful s \<and> objects s' = objects s \<and> (0 \<in> set (open_fds s) \<longrightarrow> open_fds s' = open_fds s)
     | Some mt \<Rightarrow> (\<exists>fd obj. watchdog_fd s' = int fd \<and> fd \<notin> set (open_fds s) \<and> fd \<in> set (open_fds s') \<and>
         objects s' = (objects s)(mt \<mapsto> obj) \<and> cb_type obj = CALLBACK_TIMEOUT \<and> cb_fn obj = watchdog_feed_fn \<and>
         interest s' (cb_fd obj) = Some mt \<and>
         fst (period obj) * 1000 + snd (period obj) div 1000000 = nat t * 900 \<and> nat t * 900 < nat t * 1000 \<and>
         wd_commands (snd (watchdog_feed s')) = wd_commands s' @ [(int fd, Keepalive)]))"
proof -
  obtain r s1 where op: "sys_open s = (r, s1)" by (cases "sys_open s")
  note s1 = sys_open_ok [OF op assms(1)]
  have t: "nat t * 900 < nat t * 1000" "feed_period t \<noteq> 0"
    using assms(4) feed_period_exact [OF assms(4,5)] by auto
  show ?thesis
  proof (cases r)
    case None
    then have "start_watchdog (Some t) s = Inr (s1\<lparr>watchdog_fd := - 1\<rparr>)" by (simp add: start_watchdog_def op)
    moreover have "\<not> plentiful s" using plentiful_answers(3) [of s] op None by auto
    ultimately show ?thesis using s1 None assms(3) watchdog_frame(2) [of s s1] by (simp add: watchdog_ok_def)
  next
    case (Some fd)
    let ?s2 = "s1\<lparr>watchdog_fd := int fd\<rparr>"
    have fd: "fd \<notin> set (open_fds s)" "open_fds s1 = fd # open_fds s" using s1 Some by simp_all
    have e: "epollfd s1 = epollfd s" using s1 loop_frame_fields(1) by blast
    have "mainloop_ok ?s2" "epollfd ?s2 \<noteq> None" using s1 e assms(2) by simp_all
    from mainloop_add_timeout_ok [OF this(1) t(2) this(2), of watchdog_feed_fn]
    obtain mt s4 where add: "mainloop_add_timeout (feed_period t) watchdog_feed_fn ?s2 = Inr (mt, s4)"
      "mainloop_ok s4" "loop_frame ?s2 s4"
      "case mt of None \<Rightarrow> objects s4 = objects ?s2
       | Some a \<Rightarrow> objects ?s2 a = None \<and>
         (\<exists>obj. objects s4 = (objects ?s2)(a \<mapsto> obj) \<and> cb_type obj = CALLBACK_TIMEOUT \<and>
            cb_fn obj = watchdog_feed_fn \<and> interest s4 (cb_fd obj) = Some a \<and>
            fst (period obj) * 1000 + snd (period obj) div 1000000 = unat (feed_period t))" by blast
    have "mainloop_ok ?s2" "epollfd ?s2 \<noteq> None" using s1 e assms(2) by simp_all
    note exact = mainloop_add_timeout_exact [OF this(1) t(2) this(2) add(1)]
    let ?s5 = "s4\<lparr>watchdog_timeout := mt\<rparr>"
    have start: "start_watchdog (Some t) s = (if mt = None then close_watchdog False ?s5 else Inr ?s5)"
      using Some add(1) assms(4) by (auto simp: start_watchdog_def op)
    have wfd: "watchdog_fd s4 = int fd" "epollfd s4 = epollfd s"
      using watchdog_frame(1) [OF add(3)] loop_frame_fields(1) [OF add(3)] e by simp_all
    show ?thesis
    proof (cases mt)
      case None
      then have obs: "objects s4 = objects s" using add(4) s1 by simp
      have "interest s4 fd = None"
        using mainloop_okD(1) [OF add(2), of fd] mainloop_okD(3) [OF assms(1)] fd(1) obs
        by (cases "interest s4 fd") auto
      moreover have "epollfd s \<noteq> Some fd" using mainloop_okD(5) [OF assms(1)] fd by auto
      ultimately obtain s' where s': "close_watchdog False ?s5 = Inr s'" "mainloop_ok s'"
          "objects s' = objects ?s5" "watchdog_timeout s' = None"
          "0 < fd \<longrightarrow> open_fds s' = filter (\<lambda>n. n \<noteq> fd) (open_fds s4)"
        using close_watchdog_no_timeout [of ?s5] add(2) wfd None by auto
      have "\<not> plentiful s" using exact None op Some plentiful_answers(3,4) [of s] by auto
      moreover have "open_fds s' = open_fds s" if "0 \<in> set (open_fds s)"
      proof -
        have "0 < fd" using fd(1) that by (metis gr0I)
        then show ?thesis using s'(5) exact None fd by (auto simp: filter_id_conv)
      qed
      ultimately show ?thesis using s' start None obs by (simp add: watchdog_ok_def)
    next
      case (Some a)
      with add(4) s1 obtain obj where obj: "objects s4 = (objects s)(a \<mapsto> obj)" "cb_type obj = CALLBACK_TIMEOUT"
          "cb_fn obj = watchdog_feed_fn" "interest s4 (cb_fd obj) = Some a"
          "fst (period obj) * 1000 + snd (period obj) div 1000000 = unat (feed_period t)"
        by auto
      have "fd \<in> set (open_fds s4)" using exact Some fd(2) by auto
      with obj start Some add(2) t(1) feed_period_exact [OF assms(4,5)] fd(1) wfd(1)
      show ?thesis
        by (simp add: watchdog_ok_def watchdog_feed_def wd_send_fields, intro exI [of _ obj]) simp
    qed
  qed
qed

section \<open>Results\<close>


definition idle_watchdog :: watchdog_state where
  "idle_watchdog = \<lparr>epollfd = Some 0, should_exit = True, post_iteration_callback = None, objects = Map.empty,
     next_addr = 0, open_fds = [0], interest = Map.empty, alloc_ok = [], sys_ok = [], watchdog_fd = - 1,
     watchdog_timeout = None, wd_commands = []\<rparr>"


text \<open>C32: a device that reports a period of \<open>2 ^ 30\<close> seconds makes init fail an assertion: the
  feeding period wraps around to 0 milliseconds, which \<open>mainloop_add_timeout\<close> does not accept.\<close>

theorem start_watchdog_overflow:
  assumes "sys_open s = (Some fd, s1)"
  shows "start_watchdog (Some (2 ^ 30)) s = Inl Assertion_Failed"
proof -
  have "feed_period (2 ^ 30) = 0" by (simp add: feed_period_def)
  with assms show ?thesis by (simp add: start_watchdog_def mainloop_add_timeout_def)
qed

theorem start_watchdog_overflow_witness:
  "start_watchdog (Some (2 ^ 30)) idle_watchdog = Inl Assertion_Failed"
proof -
  have "sys_open idle_watchdog = (Some 1, idle_watchdog\<lparr>open_fds := [1, 0]\<rparr>)"
    by (simp add: sys_open_def sys_answer_def idle_watchdog_def lowest_free_def)
  then show ?thesis by (rule start_watchdog_overflow)
qed

text \<open>C33: \<open>close_watchdog\<close> leaves the number of the closed descriptor in \<open>watchdog_fd\<close>, so that
  the number is free although the variable still holds it; if all lower numbers are taken, the next
  descriptor that is opened gets it. Whatever has the number later, in any state in which the two
  variables are as they were left, the \<open>close_watchdog\<close> of the shutdown sends the disarm command and
  the magic character to it, closes it and takes it off the interest list of the event loop.\<close>

theorem close_watchdog_hits_reused_descriptor:
  assumes "0 < watchdog_fd s" "watchdog_timeout s = None" "close_watchdog False s = Inr s1"
    and "watchdog_fd s2 = watchdog_fd s1" "watchdog_timeout s2 = watchdog_timeout s1"
  shows "nat (watchdog_fd s) \<notin> set (open_fds s1) \<and>
    ((\<forall>n < nat (watchdog_fd s). n \<in> set (open_fds s1)) \<longrightarrow> fst (sys_open s1) \<in> {None, Some (nat (watchdog_fd s))}) \<and>
    (\<exists>s3. close_watchdog True s2 = Inr s3 \<and>
       wd_commands s3 = wd_commands s2 @ [(watchdog_fd s, Disable_Card), (watchdog_fd s, Magic_Close)] \<and>
       nat (watchdog_fd s) \<notin> set (open_fds s3) \<and> interest s3 (nat (watchdog_fd s)) = None)"
proof -
  let ?n = "nat (watchdog_fd s)"
  have s1: "s1 = sys_close ?n s" "watchdog_fd s1 = watchdog_fd s" "watchdog_timeout s1 = None"
    using assms(1-3) by (auto simp: close_watchdog_def Let_def sys_close_def)
  have free: "?n \<notin> set (open_fds s1)" by (simp add: s1(1) sys_close_def)
  have "lowest_free (open_fds s1) = ?n" if "\<forall>n < ?n. n \<in> set (open_fds s1)"
    using that lowest_free_least [OF free] lowest_free_fresh [of "open_fds s1"] by (metis le_neq_implies_less)
  then have "(\<forall>n < ?n. n \<in> set (open_fds s1)) \<longrightarrow> fst (sys_open s1) \<in> {None, Some ?n}"
    by (auto simp: sys_open_def sys_answer_def split: prod.split)
  moreover have "\<exists>s3. close_watchdog True s2 = Inr s3 \<and>
       wd_commands s3 = wd_commands s2 @ [(watchdog_fd s, Disable_Card), (watchdog_fd s, Magic_Close)] \<and>
       ?n \<notin> set (open_fds s3) \<and> interest s3 ?n = None"
    using assms(1,4,5) s1(2,3)
    by (auto simp: close_watchdog_def Let_def sys_close_def wd_send_fields)
  ultimately show ?thesis using free by blast
qed

text \<open>The example: the descriptor 1 of the device is closed, and the next one opened has its number.\<close>

theorem close_watchdog_hits_reused_descriptor_witness:
  "\<exists>s1 s2 s3. close_watchdog False (idle_watchdog\<lparr>watchdog_fd := 1, open_fds := [1, 0]\<rparr>) = Inr s1 \<and>
     sys_open s1 = (Some 1, s2) \<and> close_watchdog True s2 = Inr s3 \<and> 1 \<in> set (open_fds s2) \<and> 1 \<notin> set (open_fds s3) \<and>
     wd_commands s3 = [(1, Disable_Card), (1, Magic_Close)]"
proof -
  let ?s = "idle_watchdog\<lparr>watchdog_fd := 1, open_fds := [1, 0]\<rparr>"
  let ?s1 = "sys_close 1 ?s" and ?s2 = "(sys_close 1 ?s)\<lparr>open_fds := [1, 0]\<rparr>"
  have run: "close_watchdog False ?s = Inr ?s1" "sys_open ?s1 = (Some 1, ?s2)"
    by (simp_all add: close_watchdog_def idle_watchdog_def sys_close_def sys_open_def sys_answer_def lowest_free_def)
  have "watchdog_fd ?s2 = watchdog_fd ?s1" "watchdog_timeout ?s2 = watchdog_timeout ?s1" "wd_commands ?s2 = []"
    "0 < watchdog_fd ?s" "watchdog_timeout ?s = None" "nat (watchdog_fd ?s) = 1" "watchdog_fd ?s = 1"
    by (simp_all add: sys_close_def idle_watchdog_def)
  with close_watchdog_hits_reused_descriptor [OF this(4,5) run(1) this(1,2)] run show ?thesis by auto
qed

end
