(* ===== verification/Process.thy ===== *)
theory Process
  imports Inittab Safe_Mode Watchdog
begin

text \<open>
  The process manager of init (\<open>src/main.c\<close>): its file-scope variables extend the state of the
  watchdog and of the event loop, and every function that changes them is a definition here. The
  answers of \<open>fork\<close>, \<open>waitpid\<close> and of the writes to the safe mode pipe are fields of the
  state; signals sent with \<open>kill\<close> and the bytes handed to the safe mode placeholder are logged.
  \<open>panic\<close> ends the program and is the fault \<open>Panicked\<close>. This theory holds the definitions
  and what single functions do; \<open>Init\<close> has the invariants of the whole.
\<close>

section \<open>State\<close>

datatype stage = STAGE_SETUP | STAGE_STARTUP | STAGE_RUN | STAGE_TERMINATION | STAGE_SHUTDOWN | STAGE_CLOSE

record process =
  p_addr :: nat
  config :: inittab_entry
  pid :: nat

datatype reboot_command = RB_AUTOBOOT | RB_HALT_SYSTEM | RB_POWER_OFF

text \<open>How a child ended, and what a call of \<open>waitpid\<close> returns.\<close>

datatype wait_status = Exited nat | Signaled nat

datatype wait_answer = Reaped nat wait_status | No_Child | Reap_Error

text \<open>
  \<open>remaining\<close> is the rest of a list of entries the pointer \<open>remaining.remaining\<close> points
  to. A \<open>fork\<close> answers with a process number above 0 or fails (\<open>None\<close>, also when no answer
  is left); each call of \<open>execute_safe_mode\<close> has its list of write answers. \<open>msh\<close> is the
  variable of \<open>main\<close> that holds the signal handler.
\<close>

record init_state = watchdog_state +
  remaining :: "inittab_entry list"
  pending_finish :: uint32_t
  inittab_entries :: inittab
  running_processes :: "process list"
  current_stage :: stage
  kill_timeout :: "nat option"
  one_shot_timeout :: "nat option"
  safe_mode_pipe_fd :: nat
  shutdown_command :: reboot_command
  safe_mode_on :: bool
  msh :: "nat option"
  forks :: "nat option list"
  waits :: "wait_answer list"
  pipe_writes :: "write_answer list list"
  kills :: "(nat \<times> nat) list"
  sent :: "char list list"

definition SIGKILL :: nat where "SIGKILL = 9"
definition SIGUSR1 :: nat where "SIGUSR1 = 10"
definition SIGUSR2 :: nat where "SIGUSR2 = 12"
definition SIGTERM :: nat where "SIGTERM = 15"
definition SIGCHLD :: nat where "SIGCHLD = 17"

definition TIMEOUT_TERM :: uint32_t where "TIMEOUT_TERM = 3000"
definition TIMEOUT_ONE_SHOT :: uint32_t where "TIMEOUT_ONE_SHOT = 3000"

section \<open>The list of processes\<close>

fun unlink_process :: "nat \<Rightarrow> process list \<Rightarrow> process list" where
  "unlink_process p [] = []"
| "unlink_process p (current # list) =
     (if p_addr current = p then list else current # unlink_process p list)"

text \<open>\<open>remove_process\<close>: the list must not be empty and the process must be found.\<close>

definition remove_process :: "nat \<Rightarrow> process list \<Rightarrow> process list c_res" where
  "remove_process p list =
     (if list = [] \<or> p \<notin> p_addr ` set list then Inl Assertion_Failed else Inr (unlink_process p list))"

lemma length_unlink_process:
  "p \<in> p_addr ` set list \<Longrightarrow> Suc (length (unlink_process p list)) = length list"
  by (induction list) auto

function free_process_list :: "process list \<Rightarrow> process list c_res" where
  "free_process_list list =
     (if list = [] then Inr [] else res_bind (remove_process (p_addr (hd list)) list) free_process_list)"
  by pat_completeness auto
termination
proof (relation "measure length")
  fix list x assume "list \<noteq> []" "remove_process (p_addr (hd list)) list = Inr x"
  then show "(x, list) \<in> measure length"
    using length_unlink_process [of "p_addr (hd list)" list]
    by (auto simp: remove_process_def split: if_splits)
qed simp

declare free_process_list.simps [simp del]

fun find_in :: "('p \<Rightarrow> bool) \<Rightarrow> 'p list \<Rightarrow> 'p option" where
  "find_in P [] = None"
| "find_in P (p # list) = (if P p then Some p else find_in P list)"

definition find_process :: "nat \<Rightarrow> 'a init_state_scheme \<Rightarrow> process option" where
  "find_process n s = find_in (\<lambda>p. pid p = n) (running_processes s)"

definition find_safe_mode_process :: "'a init_state_scheme \<Rightarrow> process option" where
  "find_safe_mode_process s = find_in (\<lambda>p. entry_type (config p) = SAFE_MODE) (running_processes s)"

section \<open>Starting processes\<close>

text \<open>\<open>fork\<close> as the parent sees it, in \<open>spawn_exec\<close> and \<open>setup_safe_mode\<close>.\<close>

definition sys_fork :: "'a init_state_scheme \<Rightarrow> nat option \<times> 'a init_state_scheme" where
  "sys_fork s = (case forks s of [] \<Rightarrow> (None, s) | r # rs \<Rightarrow> (map_option Suc r, s\<lparr>forks := rs\<rparr>))"

definition spawn_exec :: "inittab_entry \<Rightarrow> 'a init_state_scheme \<Rightarrow> nat option \<times> 'a init_state_scheme" where
  "spawn_exec entry s = sys_fork s"

text \<open>\<open>calloc\<close> of a \<open>struct process\<close>: its address.\<close>

definition alloc_process :: "'a init_state_scheme \<Rightarrow> nat option \<times> 'a init_state_scheme" where
  "alloc_process s = (case alloc_answer s of (ok, s1) \<Rightarrow>
     if ok then (Some (next_addr s1), s1\<lparr>next_addr := Suc (next_addr s1)\<rparr>) else (None, s1))"

definition start_safe_mode :: "string \<Rightarrow> 32 word \<Rightarrow> 'a init_state_scheme \<Rightarrow> 'a init_state_scheme c_res" where
  "start_safe_mode name sig s =
     (case find_safe_mode_process s of
        None \<Rightarrow> Inl (Panicked ''Safe mode required, but safe mode process placeholder not found!'')
      | Some _ \<Rightarrow>
          let (answers, rest) = (case pipe_writes s of [] \<Rightarrow> ([], []) | a # as \<Rightarrow> (a, as)) in
          res_bind (execute_safe_mode (int (safe_mode_pipe_fd s)) name sig answers)
            (\<lambda>(r, bytes).
               if \<not> r then Inl (Panicked ''Couldn't start safe mode!'')
               else Inr (s\<lparr>pipe_writes := rest, sent := sent s @ [bytes], safe_mode_on := True\<rparr>)))"

text \<open>
  The loop of \<open>start_processes\<close>: its result, \<open>has_one_shot\<close>, the entry it stopped at and
  the state. The order is raised to that of the next entry as long as no one-shot process was
  started.
\<close>

definition next_order :: "inittab_entry list \<Rightarrow> int \<Rightarrow> bool \<Rightarrow> int" where
  "next_order es current_order has_one_shot =
     (case es of
        e # _ \<Rightarrow> if order e \<noteq> current_order \<and> \<not> has_one_shot then order e else current_order
      | [] \<Rightarrow> current_order)"

fun start_loop ::
    "inittab_entry list \<Rightarrow> int \<Rightarrow> bool \<Rightarrow> 'a init_state_scheme \<Rightarrow>
     (bool \<times> bool \<times> inittab_entry list \<times> 'a init_state_scheme) c_res" where
  "start_loop [] current_order has_one_shot s = Inr (True, has_one_shot, [], s)"
| "start_loop (entry # es) current_order has_one_shot s =
     (if order entry \<noteq> current_order then Inr (True, has_one_shot, entry # es, s)
      else case alloc_process s of
        (None, s1) \<Rightarrow> Inr (False, has_one_shot, entry # es, s1)
      | (Some a, s1) \<Rightarrow>
          (case spawn_exec entry s1 of (fork_result, s2) \<Rightarrow>
             res_bind
               (case fork_result of
                  Some p \<Rightarrow>
                    let s3 = (if is_one_shot_entry entry then s2\<lparr>pending_finish := pending_finish s2 + 1\<rparr> else s2)
                    in Inr (has_one_shot \<or> is_one_shot_entry entry,
                            s3\<lparr>running_processes := \<lparr>p_addr = a, config = entry, pid = p\<rparr> # running_processes s3\<rparr>)
                | None \<Rightarrow>
                    if is_safe_entry entry
                    then res_bind (start_safe_mode (process_name entry) (- 1) s2) (\<lambda>s3. Inr (has_one_shot, s3))
                    else Inr (has_one_shot, s2))
               (\<lambda>(has', s4). start_loop es (next_order es current_order has') has' s4)))"

text \<open>The end of \<open>start_processes\<close>: a timer over the one-shot processes.\<close>

definition arm_one_shot :: "bool \<Rightarrow> 'a init_state_scheme \<Rightarrow> (bool \<times> 'a init_state_scheme) c_res" where
  "arm_one_shot result s =
     res_bind (mainloop_add_timeout TIMEOUT_ONE_SHOT one_shot_timeout_fn s)
       (\<lambda>(mt, s1). Inr (result, s1\<lparr>one_shot_timeout := mt\<rparr>))"

definition start_processes :: "inittab_entry list \<Rightarrow> 'a init_state_scheme \<Rightarrow> (bool \<times> 'a init_state_scheme) c_res" where
  "start_processes list s =
     (case list of
        [] \<Rightarrow> Inr (True, s)
      | entry # _ \<Rightarrow>
          res_bind (start_loop list (order entry) False (s\<lparr>pending_finish := 0\<rparr>))
            (\<lambda>(result, has_one_shot, rest, s1).
               let s2 = s1\<lparr>remaining := rest\<rparr> in
               if has_one_shot then arm_one_shot result s2 else Inr (result, s2)))"

text \<open>
  \<open>setup_safe_mode\<close> in the parent: the old pipe is closed, a new one made (its two descriptors
  are the lowest free ones, the write end above the read end), and the placeholder forked.
\<close>

definition sys_pipe :: "'a init_state_scheme \<Rightarrow> (nat \<times> nat) option \<times> 'a init_state_scheme" where
  "sys_pipe s = (case sys_answer s of (ok, s1) \<Rightarrow>
     if \<not> ok then (None, s1)
     else let r = lowest_free (open_fds s1); w = lowest_free (r # open_fds s1)
          in (Some (r, w), s1\<lparr>open_fds := w # r # open_fds s1\<rparr>))"

definition setup_safe_mode :: "inittab_entry option \<Rightarrow> 'a init_state_scheme \<Rightarrow> (bool \<times> 'a init_state_scheme) c_res" where
  "setup_safe_mode entry s =
     (case entry of
        None \<Rightarrow> Inl Assertion_Failed
      | Some e \<Rightarrow>
          let s0 = (if 0 < safe_mode_pipe_fd s then sys_close (safe_mode_pipe_fd s) s else s) in
          (case sys_pipe s0 of
             (None, s1) \<Rightarrow> Inr (False, s1)
           | (Some (r, w), s1) \<Rightarrow>
               (case alloc_process s1 of
                  (None, s2) \<Rightarrow> Inr (False, sys_close w (sys_close r s2))
                | (Some a, s2) \<Rightarrow>
                    (case sys_fork s2 of
                       (None, s3) \<Rightarrow> Inr (False, sys_close w (sys_close r s3))
                     | (Some p, s3) \<Rightarrow>
                         Inr (True, (sys_close r (s3\<lparr>running_processes :=
                               \<lparr>p_addr = a, config = e, pid = p\<rparr> # running_processes s3\<rparr>))
                             \<lparr>safe_mode_pipe_fd := w\<rparr>)))))"

section \<open>Timeouts and stages\<close>

definition one_shot_timeout_cb :: "'a init_state_scheme \<Rightarrow> timeout_result \<times> 'a init_state_scheme" where
  "one_shot_timeout_cb s = (TIMEOUT_STOP, s\<lparr>one_shot_timeout := None\<rparr>)"

text \<open>Every process but the safe mode one gets the signal.\<close>

definition signal_all :: "nat \<Rightarrow> 'a init_state_scheme \<Rightarrow> 'a init_state_scheme" where
  "signal_all sig s = s\<lparr>kills := kills s @
     map (\<lambda>p. (pid p, sig)) (filter (\<lambda>p. entry_type (config p) \<noteq> SAFE_MODE) (running_processes s))\<rparr>"

definition kill_timeout_cb :: "'a init_state_scheme \<Rightarrow> timeout_result \<times> 'a init_state_scheme" where
  "kill_timeout_cb s =
     (TIMEOUT_STOP, (if current_stage s = STAGE_TERMINATION then signal_all SIGKILL s else s)\<lparr>kill_timeout := None\<rparr>)"

definition term_running_process :: "'a init_state_scheme \<Rightarrow> 'a init_state_scheme c_res" where
  "term_running_process s =
     res_bind (mainloop_add_timeout TIMEOUT_TERM kill_timeout_fn (signal_all SIGTERM s))
       (\<lambda>(mt, s1). Inr (s1\<lparr>kill_timeout := mt\<rparr>))"

text \<open>\<open>if (t != NULL) { mainloop_remove_timeout(t); t = NULL; }\<close> for the two timeouts.\<close>

definition cancel_one_shot_timeout :: "'a init_state_scheme \<Rightarrow> 'a init_state_scheme c_res" where
  "cancel_one_shot_timeout s = (case one_shot_timeout s of
     None \<Rightarrow> Inr s
   | Some mt \<Rightarrow> res_bind (mainloop_remove_timeout mt s) (\<lambda>s1. Inr (s1\<lparr>one_shot_timeout := None\<rparr>)))"

definition cancel_kill_timeout :: "'a init_state_scheme \<Rightarrow> 'a init_state_scheme c_res" where
  "cancel_kill_timeout s = (case kill_timeout s of
     None \<Rightarrow> Inr s
   | Some mt \<Rightarrow> res_bind (mainloop_remove_timeout mt s) (\<lambda>s1. Inr (s1\<lparr>kill_timeout := None\<rparr>)))"

text \<open>The two cases of \<open>stage_maintenance\<close> that act, and the common end.\<close>

definition maintain_start :: "'a init_state_scheme \<Rightarrow> 'a init_state_scheme c_res" where
  "maintain_start s =
     (if pending_finish s = 0 then
        res_bind (cancel_one_shot_timeout s)
          (\<lambda>s1. if remaining s1 \<noteq> [] then res_bind (start_processes (remaining s1) s1) (\<lambda>(_, s2). Inr s2)
                else if current_stage s1 = STAGE_STARTUP
                then Inr (mainloop_set_post_iteration_callback None (s1\<lparr>current_stage := STAGE_RUN\<rparr>))
                else Inr (s1\<lparr>current_stage := STAGE_CLOSE\<rparr>))
      else Inr s)"

definition maintain_termination :: "'a init_state_scheme \<Rightarrow> 'a init_state_scheme c_res" where
  "maintain_termination s =
     (if length (running_processes s) \<le> 1 then
        res_bind
          (if shutdown_list (inittab_entries s) \<noteq> [] then
             res_bind (start_processes (shutdown_list (inittab_entries s)) (s\<lparr>current_stage := STAGE_SHUTDOWN\<rparr>))
               (\<lambda>(_, s1). Inr s1)
           else Inr (s\<lparr>current_stage := STAGE_CLOSE\<rparr>))
          cancel_kill_timeout
      else Inr s)"

definition stage_maintenance :: "'a init_state_scheme \<Rightarrow> 'a init_state_scheme c_res" where
  "stage_maintenance s =
     res_bind
       (case current_stage s of
          STAGE_STARTUP \<Rightarrow> maintain_start s
        | STAGE_SHUTDOWN \<Rightarrow> maintain_start s
        | STAGE_TERMINATION \<Rightarrow> maintain_termination s
        | _ \<Rightarrow> Inr s)
       (\<lambda>s1. if current_stage s1 = STAGE_CLOSE then mainloop_exit s1 else Inr s1)"

section \<open>Signals\<close>

definition handle_shutdown_cmd :: "reboot_command \<Rightarrow> 'a init_state_scheme \<Rightarrow> 'a init_state_scheme c_res" where
  "handle_shutdown_cmd command s =
     res_bind (cancel_one_shot_timeout (s\<lparr>remaining := [], pending_finish := 0\<rparr>))
       (\<lambda>s1. res_bind (term_running_process (s1\<lparr>current_stage := STAGE_TERMINATION\<rparr>))
          (\<lambda>s2. Inr (mainloop_set_post_iteration_callback (Some stage_maintenance_fn)
                       (s2\<lparr>shutdown_command := command\<rparr>))))"

text \<open>
  What \<open>handle_child_exit\<close> collects while it reaps: the safe process that died last, its signal
  (kept from an earlier one when the last exited by itself), and whether the placeholder died.
\<close>

record reaped =
  deceased :: "string option"
  deceased_signal :: "32 word"
  restart_placeholder :: bool

definition abnormal :: "wait_status \<Rightarrow> bool" where
  "abnormal st = (case st of Exited c \<Rightarrow> c \<noteq> 0 | Signaled _ \<Rightarrow> True)"

definition note_death :: "process \<Rightarrow> wait_status \<Rightarrow> bool \<Rightarrow> reaped \<Rightarrow> reaped c_res" where
  "note_death p st in_safe_mode acc =
     (if is_safe_entry (config p) \<and> abnormal st then
        if entry_type (config p) = SAFE_MODE then
          if in_safe_mode then Inl (Panicked ''Safe mode process crashed!'')
          else Inr (acc\<lparr>restart_placeholder := True\<rparr>)
        else
          Inr (case st of
            Signaled n \<Rightarrow> acc\<lparr>deceased := Some (process_name (config p)), deceased_signal := of_nat n\<rparr>
          | Exited _ \<Rightarrow> acc\<lparr>deceased := Some (process_name (config p))\<rparr>)
      else Inr acc)"

definition count_finished :: "process \<Rightarrow> 'a init_state_scheme \<Rightarrow> 'a init_state_scheme" where
  "count_finished p s =
     (if is_one_shot_entry (config p) \<and> (current_stage s = STAGE_STARTUP \<or> current_stage s = STAGE_SHUTDOWN)
      then s\<lparr>pending_finish := pending_finish s - 1\<rparr> else s)"

fun reap_loop :: "wait_answer list \<Rightarrow> reaped \<Rightarrow> 'a init_state_scheme \<Rightarrow> (reaped \<times> 'a init_state_scheme) c_res" where
  "reap_loop [] acc s = Inr (acc, s\<lparr>waits := []\<rparr>)"
| "reap_loop (No_Child # ws) acc s = Inr (acc, s\<lparr>waits := ws\<rparr>)"
| "reap_loop (Reap_Error # ws) acc s = Inl (Panicked ''Won't go anywhere if waitpid() is not working!'')"
| "reap_loop (Reaped n st # ws) acc s =
     (case find_process n s of
        None \<Rightarrow> reap_loop ws acc s
      | Some p \<Rightarrow>
          res_bind (note_death p st (safe_mode_on s) acc)
            (\<lambda>acc'. let s1 = count_finished p s in
               res_bind (remove_process (p_addr p) (running_processes s1))
                 (\<lambda>list. reap_loop ws acc' (s1\<lparr>running_processes := list\<rparr>))))"

definition no_deaths :: reaped where
  "no_deaths = \<lparr>deceased = None, deceased_signal = 0, restart_placeholder = False\<rparr>"

text \<open>\<open>inittab_entries.safe_mode_entry\<close> points to the first node of its list.\<close>

definition placeholder_entry :: "'a init_state_scheme \<Rightarrow> inittab_entry option" where
  "placeholder_entry s = (case safe_mode_entry (inittab_entries s) of [] \<Rightarrow> None | e # _ \<Rightarrow> Some e)"

definition handle_child_exit :: "'a init_state_scheme \<Rightarrow> 'a init_state_scheme c_res" where
  "handle_child_exit s =
     res_bind (reap_loop (waits s) no_deaths s)
       (\<lambda>(acc, s1).
          res_bind (case deceased acc of
                      None \<Rightarrow> Inr s1
                    | Some name \<Rightarrow> start_safe_mode name (deceased_signal acc) s1)
            (\<lambda>s2. if restart_placeholder acc then
                    res_bind (setup_safe_mode (placeholder_entry s2) s2)
                      (\<lambda>(ok, s3). if ok then Inr s3
                         else Inl (Panicked ''Can't keep normal execution without safe mode placeholder process''))
                  else Inr s2))"

definition signal_handler :: "nat \<Rightarrow> 'a init_state_scheme \<Rightarrow> 'a init_state_scheme c_res" where
  "signal_handler signo s =
     (if signo = SIGCHLD then handle_child_exit s
      else if signo = SIGTERM then handle_shutdown_cmd RB_AUTOBOOT s
      else if signo = SIGUSR1 then handle_shutdown_cmd RB_HALT_SYSTEM s
      else if signo = SIGUSR2 then handle_shutdown_cmd RB_POWER_OFF s
      else Inr s)"

text \<open>Calls through the function pointers the event loop keeps.\<close>

fun init_callbacks :: "'a init_state_scheme callbacks" where
  "init_callbacks signal_handler_fn signo s = res_bind (signal_handler signo s) (\<lambda>s'. Inr (TIMEOUT_STOP, s'))"
| "init_callbacks stage_maintenance_fn _ s = res_bind (stage_maintenance s) (\<lambda>s'. Inr (TIMEOUT_STOP, s'))"
| "init_callbacks kill_timeout_fn _ s = Inr (kill_timeout_cb s)"
| "init_callbacks one_shot_timeout_fn _ s = Inr (one_shot_timeout_cb s)"
| "init_callbacks watchdog_feed_fn _ s = Inr (watchdog_feed s)"

end
