(* ===== verification/Init.thy ===== *)
theory Init
  imports Process
begin

text \<open>
  The invariants of init (\<open>src/main.c\<close> on top of the event loop). \<open>struct_inv\<close>: the
  pointers to timeouts are live and of the right kind, the process list is well linked, the safe
  mode pipe is open. \<open>schedule_inv\<close>: while init starts the system, \<open>pending_finish\<close> is the
  number of one-shot processes that run, and the order of the inittab is kept. Both are kept by every
  callback, which is what the interpretation of the contract of the event loop states; the safety of
  all runs follows from the loop's own lemmas.
\<close>

section \<open>Definitions\<close>

subsection \<open>Structure\<close>

text \<open>A pointer to a timeout is NULL or points to a live timeout with this callback.\<close>

definition refers :: "'a mainloop_scheme \<Rightarrow> nat option \<Rightarrow> fn_ptr \<Rightarrow> bool" where
  "refers s t fn \<longleftrightarrow> (\<forall>a. t = Some a \<longrightarrow>
     (\<exists>obj. objects s a = Some obj \<and> cb_type obj = CALLBACK_TIMEOUT \<and> cb_fn obj = fn))"

definition timeout_fns :: "fn_ptr set" where
  "timeout_fns = {kill_timeout_fn, one_shot_timeout_fn, watchdog_feed_fn}"

definition typed :: "'a mainloop_scheme \<Rightarrow> bool" where
  "typed s \<longleftrightarrow> (\<forall>a obj. objects s a = Some obj \<longrightarrow>
     (if cb_type obj = CALLBACK_SIGNAL then cb_fn obj = signal_handler_fn else cb_fn obj \<in> timeout_fns))"

text \<open>The signal handler that \<open>main\<close> will remove at the end is a live one.\<close>

definition handler_live :: "'a init_state_scheme \<Rightarrow> bool" where
  "handler_live s \<longleftrightarrow> (\<forall>m. msh s = Some m \<longrightarrow> (\<exists>obj. objects s m = Some obj \<and> cb_type obj = CALLBACK_SIGNAL))"

definition tables_ok :: "inittab \<Rightarrow> bool" where
  "tables_ok t \<longleftrightarrow> safe_mode_entry t \<noteq> [] \<and> entry_type (hd (safe_mode_entry t)) = SAFE_MODE"

definition struct_core :: "'a init_state_scheme \<Rightarrow> bool" where
  "struct_core s \<longleftrightarrow>
     mainloop_ok s \<and> epollfd s \<noteq> None \<and> typed s \<and> handler_live s \<and>
     refers s (kill_timeout s) kill_timeout_fn \<and>
     refers s (one_shot_timeout s) one_shot_timeout_fn \<and>
     refers s (watchdog_timeout s) watchdog_feed_fn \<and>
     post_iteration_callback s \<in> {None, Some stage_maintenance_fn} \<and>
     distinct (map p_addr (running_processes s)) \<and>
     (\<forall>p\<in>set (running_processes s). p_addr p < next_addr s) \<and> tables_ok (inittab_entries s)"

definition struct_inv :: "'a init_state_scheme \<Rightarrow> bool" where
  "struct_inv s \<longleftrightarrow> struct_core s \<and> 0 < safe_mode_pipe_fd s \<and> quiet s (safe_mode_pipe_fd s)"

lemmas struct_inv_unfold = struct_inv_def struct_core_def

subsection \<open>Schedule\<close>

definition one_shots :: "process list \<Rightarrow> nat" where
  "one_shots ps = length (filter (\<lambda>p. is_one_shot_entry (config p)) ps)"

definition is_placeholder :: "process \<Rightarrow> bool" where
  "is_placeholder p \<longleftrightarrow> entry_type (config p) = SAFE_MODE"

text \<open>
  The order of the inittab: what still has to start is sorted and not before anything that runs,
  and no process that runs is of a later order than a one-shot process that runs.
\<close>

definition order_kept :: "process list \<Rightarrow> inittab_entry list \<Rightarrow> bool" where
  "order_kept ps es \<longleftrightarrow>
     sorted (map order es) \<and> list_all (\<lambda>e. entry_type e \<noteq> SAFE_MODE) es \<and>
     (\<forall>p\<in>set ps. \<not> is_placeholder p \<longrightarrow> (\<forall>e\<in>set es. order (config p) \<le> order e)) \<and>
     (\<forall>p\<in>set ps. \<forall>q\<in>set ps. is_one_shot_entry (config p) \<longrightarrow> \<not> is_placeholder q \<longrightarrow>
        order (config q) \<le> order (config p))"

definition stage_ok :: "'a init_state_scheme \<Rightarrow> bool" where
  "stage_ok s \<longleftrightarrow>
     (current_stage s = STAGE_STARTUP \<longrightarrow>
        unat (pending_finish s) = one_shots (running_processes s) \<and>
        order_kept (running_processes s) (remaining s) \<and> length (remaining s) < 2 ^ 32) \<and>
     (current_stage s = STAGE_RUN \<longrightarrow> one_shots (running_processes s) = 0 \<and> remaining s = []) \<and>
     current_stage s \<noteq> STAGE_SETUP"

definition schedule_inv :: "'a init_state_scheme \<Rightarrow> bool" where
  "schedule_inv s \<longleftrightarrow> stage_ok s \<and> (should_exit s \<longleftrightarrow> current_stage s = STAGE_CLOSE)"

definition init_inv :: "'a init_state_scheme \<Rightarrow> bool" where
  "init_inv s \<longleftrightarrow> struct_inv s \<and> schedule_inv s"

text \<open>
  The same while \<open>start_processes\<close> walks its list: \<open>es\<close> are the entries ahead, \<open>co\<close> the
  current order, \<open>h\<close> whether a one-shot process was started.
\<close>

definition scheduling :: "inittab_entry list \<Rightarrow> int \<Rightarrow> bool \<Rightarrow> 'a init_state_scheme \<Rightarrow> bool" where
  "scheduling es co h s \<longleftrightarrow>
     sorted (map order es) \<and> list_all (\<lambda>e. entry_type e \<noteq> SAFE_MODE) es \<and> (\<forall>e\<in>set es. co \<le> order e) \<and>
     (\<forall>p\<in>set (running_processes s). \<not> is_placeholder p \<longrightarrow> order (config p) \<le> co) \<and>
     (\<forall>p\<in>set (running_processes s). is_one_shot_entry (config p) \<longrightarrow> h \<and> order (config p) = co) \<and>
     unat (pending_finish s) = one_shots (running_processes s) \<and>
     one_shots (running_processes s) + length es < 2 ^ 32"

definition scheduled :: "inittab_entry list \<Rightarrow> 'a init_state_scheme \<Rightarrow> bool" where
  "scheduled es s \<longleftrightarrow> unat (pending_finish s) = one_shots (running_processes s) \<and>
     order_kept (running_processes s) es"

section \<open>Frames\<close>

text \<open>The operations of the event loop leave the variables of main.c and watchdog.c alone.\<close>

definition same_init :: "'a init_state_scheme \<Rightarrow> 'a init_state_scheme \<Rightarrow> bool" where
  "same_init s s' \<longleftrightarrow>
     remaining s' = remaining s \<and> pending_finish s' = pending_finish s \<and>
     inittab_entries s' = inittab_entries s \<and> running_processes s' = running_processes s \<and>
     current_stage s' = current_stage s \<and> should_exit s' = should_exit s"

lemma init_frame:
  assumes "loop_frame s s'"
  shows "same_init s s'" "kill_timeout s' = kill_timeout s" "one_shot_timeout s' = one_shot_timeout s"
    "safe_mode_pipe_fd s' = safe_mode_pipe_fd s" "msh s' = msh s"
  using loop_frame_eq [OF assms, of msh] loop_frame_eq [OF assms, of remaining] loop_frame_eq [OF assms, of pending_finish]
    loop_frame_eq [OF assms, of inittab_entries] loop_frame_eq [OF assms, of running_processes]
    loop_frame_eq [OF assms, of current_stage] loop_frame_eq [OF assms, of should_exit]
    loop_frame_eq [OF assms, of kill_timeout] loop_frame_eq [OF assms, of one_shot_timeout]
    loop_frame_eq [OF assms, of safe_mode_pipe_fd]
  by (simp_all add: same_init_def)

lemma stage_ok_cong: "same_init s s' \<Longrightarrow> stage_ok s' = stage_ok s"
  by (simp add: same_init_def stage_ok_def)

interpretation processes: unlink_list p_addr unlink_process
proof
  fix ns :: "process list" and a
  show "distinct (map p_addr ns) \<Longrightarrow> unlink_process a ns = filter (\<lambda>n. p_addr n \<noteq> a) ns"
  proof (induction ns)
    case (Cons n ns)
    then have "filter (\<lambda>m. p_addr m \<noteq> p_addr n) ns = ns" by (auto simp: filter_id_conv dest: sym)
    with Cons show ?case by auto
  qed simp
qed

section \<open>Timeouts\<close>

text \<open>The part of the structure that depends on the callback objects.\<close>

lemma refers_mono:
  "refers s t fn \<Longrightarrow> (\<And>a obj. objects s a = Some obj \<Longrightarrow> objects s' a = Some obj) \<Longrightarrow> refers s' t fn"
  by (fastforce simp: refers_def)

lemma refers_None [simp]: "refers s None fn"
  by (simp add: refers_def)

lemma add_timeout_struct:
  assumes inv: "struct_inv s" and "msec \<noteq> 0" "fn \<in> timeout_fns"
  shows "settles (mainloop_add_timeout msec fn s) (\<lambda>(r, s').
    struct_inv s' \<and> same_init s s' \<and> refers s' r fn)"
proof -
  have s: "mainloop_ok s" "epollfd s \<noteq> None" "typed s" using inv by (auto simp: struct_inv_unfold)
  obtain r s' where add: "mainloop_add_timeout msec fn s = Inr (r, s')" "mainloop_ok s'" "loop_frame s s'"
      "next_addr s \<le> next_addr s'" "\<forall>fd. quiet s fd \<longrightarrow> quiet s' fd"
      "case r of None \<Rightarrow> objects s' = objects s
       | Some a \<Rightarrow> objects s a = None \<and>
         (\<exists>obj. objects s' = (objects s)(a \<mapsto> obj) \<and> cb_type obj = CALLBACK_TIMEOUT \<and> cb_fn obj = fn \<and>
            interest s' (cb_fd obj) = Some a \<and>
            fst (period obj) * 1000 + snd (period obj) div 1000000 = unat msec)"
    using mainloop_add_timeout_ok [OF s(1) assms(2) s(2), of fn] by blast
  have grow: "objects s' a = Some obj" if "objects s a = Some obj" for a obj
    using add(6) that by (cases r) auto
  have "refers s' r fn" using add(6) by (cases r) (auto simp: refers_def)
  moreover have "typed s'" using s(3) add(6) assms(3) by (cases r) (auto simp: typed_def split: if_splits)
  moreover have "handler_live s'" using inv grow init_frame(5) [OF add(3)]
    by (fastforce simp: struct_inv_unfold handler_live_def)
  moreover note init_frame [OF add(3)] loop_frame_fields [OF add(3)] watchdog_frame [OF add(3)]
  ultimately show ?thesis using add(1,2,4,5) inv
    by (auto simp: struct_inv_unfold same_init_def intro: refers_mono [OF _ grow])
qed

lemma remove_timeout_struct:
  assumes inv: "struct_inv s" and a: "objects s a = Some obj" "cb_type obj = CALLBACK_TIMEOUT"
    and w: "watchdog_timeout s \<noteq> Some a"
    and k: "k \<in> {None, kill_timeout s}" "k \<noteq> Some a"
    and t: "t \<in> {None, one_shot_timeout s}" "t \<noteq> Some a"
  shows "settles (mainloop_remove_timeout a s) (\<lambda>s'.
    struct_inv (s'\<lparr>kill_timeout := k, one_shot_timeout := t\<rparr>) \<and> same_init s s' \<and>
    kill_timeout s' = kill_timeout s \<and> one_shot_timeout s' = one_shot_timeout s)"
proof -
  have ok: "mainloop_ok s" using inv by (simp add: struct_inv_unfold)
  obtain s' where rm: "remove_object a s = Inr s'" "mainloop_ok s'" "loop_frame s s'"
      "objects s' = (objects s)(a := None)" "next_addr s' = next_addr s" "\<forall>fd. quiet s fd \<longrightarrow> quiet s' fd"
    using remove_object_ok [OF ok a(1)] by blast
  let ?s = "s'\<lparr>kill_timeout := k, one_shot_timeout := t\<rparr>"
  have ref: "refers ?s x fn" if "refers s x fn" "x \<noteq> Some a" for x fn
    using that rm(4) by (auto simp: refers_def)
  have "refers s k kill_timeout_fn" "refers s t one_shot_timeout_fn" "refers s (watchdog_timeout s) watchdog_feed_fn"
    using inv k t by (auto simp: struct_inv_unfold refers_def)
  then have "refers ?s k kill_timeout_fn" "refers ?s t one_shot_timeout_fn" "refers ?s (watchdog_timeout s) watchdog_feed_fn"
    using k(2) t(2) w by (auto intro!: ref)
  moreover have "typed ?s" using inv rm(4) by (auto simp: struct_inv_unfold typed_def)
  moreover have "handler_live ?s" using inv rm(4) a init_frame(5) [OF rm(3)]
    by (fastforce simp: struct_inv_unfold handler_live_def)
  moreover have "mainloop_ok ?s" "quiet ?s fd = quiet s' fd" for fd
    using rm(2) by (simp_all add: mainloop_ok_def quiet_def)
  moreover note init_frame [OF rm(3)] loop_frame_fields [OF rm(3)] watchdog_frame [OF rm(3)]
  ultimately show ?thesis using rm(1,5,6) inv
    by (auto simp: struct_inv_unfold same_init_def mainloop_remove_timeout_def)
qed

text \<open>Timeouts with different callbacks are different objects.\<close>

lemma refers_distinct: "refers s (Some a) f \<Longrightarrow> refers s (Some a) g \<Longrightarrow> f = g"
  by (auto simp: refers_def)

lemma struct_inv_refers:
  assumes "struct_inv s"
  shows "refers s (kill_timeout s) kill_timeout_fn" "refers s (one_shot_timeout s) one_shot_timeout_fn"
    "refers s (watchdog_timeout s) watchdog_feed_fn"
  using assms by (simp_all add: struct_inv_unfold)

lemma refers_object: "refers s (Some a) fn \<Longrightarrow> \<exists>obj. objects s a = Some obj \<and> cb_type obj = CALLBACK_TIMEOUT"
  by (auto simp: refers_def)

lemma timeout_unchanged [simp]:
  "kill_timeout s = v \<Longrightarrow> s\<lparr>kill_timeout := v\<rparr> = s" "one_shot_timeout s = v \<Longrightarrow> s\<lparr>one_shot_timeout := v\<rparr> = s"
  "kill_timeout s = v \<Longrightarrow> s\<lparr>kill_timeout := v, one_shot_timeout := t\<rparr> = s\<lparr>one_shot_timeout := t\<rparr>"
  "one_shot_timeout s = v \<Longrightarrow> s\<lparr>kill_timeout := k, one_shot_timeout := v\<rparr> = s\<lparr>kill_timeout := k\<rparr>"
  by auto

lemma cancel_one_shot_struct:
  assumes "struct_inv s"
  shows "settles (cancel_one_shot_timeout s) (\<lambda>s'. struct_inv s' \<and> same_init s s' \<and>
    one_shot_timeout s' = None \<and> kill_timeout s' = kill_timeout s)"
proof (cases "one_shot_timeout s")
  case (Some a)
  note r = struct_inv_refers [OF assms]
  obtain obj where "objects s a = Some obj" "cb_type obj = CALLBACK_TIMEOUT" using r(2) Some refers_object by metis
  moreover have "kill_timeout s \<noteq> Some a" "watchdog_timeout s \<noteq> Some a"
    using r Some refers_distinct [of s a] by fastforce+
  ultimately have "settles (mainloop_remove_timeout a s) (\<lambda>s'.
      struct_inv (s'\<lparr>kill_timeout := kill_timeout s, one_shot_timeout := None\<rparr>) \<and> same_init s s' \<and>
      kill_timeout s' = kill_timeout s \<and> one_shot_timeout s' = one_shot_timeout s)"
    using assms by (intro remove_timeout_struct) auto
  then show ?thesis using Some
    by (auto simp: cancel_one_shot_timeout_def same_init_def intro!: settles_bind elim!: settles_mono)
qed (use assms in \<open>simp add: cancel_one_shot_timeout_def same_init_def\<close>)

lemma cancel_kill_struct:
  assumes "struct_inv s"
  shows "settles (cancel_kill_timeout s) (\<lambda>s'. struct_inv s' \<and> same_init s s')"
proof (cases "kill_timeout s")
  case (Some a)
  note r = struct_inv_refers [OF assms]
  obtain obj where "objects s a = Some obj" "cb_type obj = CALLBACK_TIMEOUT" using r(1) Some refers_object by metis
  moreover have "one_shot_timeout s \<noteq> Some a" "watchdog_timeout s \<noteq> Some a"
    using r Some refers_distinct [of s a] by fastforce+
  ultimately have "settles (mainloop_remove_timeout a s) (\<lambda>s'.
      struct_inv (s'\<lparr>kill_timeout := None, one_shot_timeout := one_shot_timeout s\<rparr>) \<and> same_init s s' \<and>
      kill_timeout s' = kill_timeout s \<and> one_shot_timeout s' = one_shot_timeout s)"
    using assms by (intro remove_timeout_struct) auto
  then show ?thesis using Some
    by (auto simp: cancel_kill_timeout_def same_init_def intro!: settles_bind elim!: settles_mono)
qed (use assms in \<open>simp add: cancel_kill_timeout_def same_init_def\<close>)

lemma set_one_shot_timeout:
  "struct_inv s \<Longrightarrow> refers s t one_shot_timeout_fn \<Longrightarrow> struct_inv (s\<lparr>one_shot_timeout := t\<rparr>)"
  by (simp add: struct_inv_unfold mainloop_ok_def quiet_def typed_def refers_def handler_live_def)

lemma set_kill_timeout:
  "struct_inv s \<Longrightarrow> refers s t kill_timeout_fn \<Longrightarrow> struct_inv (s\<lparr>kill_timeout := t\<rparr>)"
  by (simp add: struct_inv_unfold mainloop_ok_def quiet_def typed_def refers_def handler_live_def)

section \<open>Starting processes\<close>

text \<open>Fields the structure does not look at.\<close>

lemma struct_inv_updates [simp]:
  "struct_inv (s\<lparr>pending_finish := x1\<rparr>) = struct_inv s" "struct_inv (s\<lparr>remaining := x2\<rparr>) = struct_inv s"
  "struct_inv (s\<lparr>current_stage := x3\<rparr>) = struct_inv s" "struct_inv (s\<lparr>forks := x4\<rparr>) = struct_inv s"
  "struct_inv (s\<lparr>waits := x5\<rparr>) = struct_inv s" "struct_inv (s\<lparr>pipe_writes := x6\<rparr>) = struct_inv s"
  "struct_inv (s\<lparr>kills := x7\<rparr>) = struct_inv s" "struct_inv (s\<lparr>sent := x8\<rparr>) = struct_inv s"
  "struct_inv (s\<lparr>safe_mode_on := x9\<rparr>) = struct_inv s" "struct_inv (s\<lparr>shutdown_command := x10\<rparr>) = struct_inv s"
  "struct_inv (s\<lparr>alloc_ok := x11\<rparr>) = struct_inv s" "struct_inv (s\<lparr>sys_ok := x12\<rparr>) = struct_inv s"
  "struct_inv (s\<lparr>should_exit := x13\<rparr>) = struct_inv s" "struct_inv (s\<lparr>wd_commands := x14\<rparr>) = struct_inv s"
  by (simp_all add: struct_inv_unfold mainloop_ok_def quiet_def typed_def refers_def handler_live_def)

lemma set_post:
  "struct_inv s \<Longrightarrow> cb \<in> {None, Some stage_maintenance_fn} \<Longrightarrow> struct_inv (s\<lparr>post_iteration_callback := cb\<rparr>)"
  by (simp add: struct_inv_unfold mainloop_ok_def quiet_def typed_def refers_def handler_live_def)

lemma alloc_process_struct:
  assumes "struct_inv s" "alloc_process s = (r, s1)"
  shows "struct_inv s1 \<and> same_init s s1 \<and>
    (case r of None \<Rightarrow> True | Some a \<Rightarrow> a < next_addr s1 \<and> a \<notin> p_addr ` set (running_processes s1))"
proof -
  obtain b al where pop: "pop_ok (alloc_ok s) = (b, al)" by (cases "pop_ok (alloc_ok s)")
  have "struct_inv (s\<lparr>alloc_ok := al, next_addr := Suc (next_addr s)\<rparr>)"
    using assms(1) by (auto simp: struct_inv_unfold mainloop_ok_def quiet_def typed_def refers_def handler_live_def less_Suc_eq)
  moreover have "next_addr s \<notin> p_addr ` set (running_processes s)"
    using assms(1) by (auto simp: struct_inv_unfold)
  ultimately show ?thesis using assms pop
    by (cases b) (auto simp: alloc_process_def alloc_answer_def same_init_def)
qed

lemma add_process_struct:
  assumes "struct_inv s" "p_addr p < next_addr s" "p_addr p \<notin> p_addr ` set (running_processes s)"
  shows "struct_inv (s\<lparr>running_processes := p # running_processes s\<rparr>)"
  using assms by (simp add: struct_inv_unfold mainloop_ok_def quiet_def typed_def refers_def handler_live_def)

lemma start_safe_mode_struct:
  assumes "struct_inv s"
  shows "settles (start_safe_mode name sig s) (\<lambda>s'. struct_inv s' \<and> same_init s s')"
proof (cases "find_safe_mode_process s")
  case (Some p)
  have "safe_mode_pipe_fd s \<noteq> 0" using assms by (simp add: struct_inv_unfold)
  with Some assms show ?thesis
    by (auto simp: start_safe_mode_def execute_safe_mode_def same_init_def split: prod.splits list.splits)
qed (simp add: start_safe_mode_def)

lemma scheduling_scheduled: "scheduling es co h s \<Longrightarrow> scheduled es s"
  unfolding scheduling_def scheduled_def order_kept_def by fastforce

lemma next_order_bounds:
  assumes "sorted (map order es)" "\<forall>e\<in>set es. co \<le> order e"
  shows "co \<le> next_order es co h" "\<forall>e\<in>set es. next_order es co h \<le> order e"
    "h \<Longrightarrow> next_order es co h = co"
  using assms by (cases es; auto simp: next_order_def)+

lemma one_shots_Cons: "one_shots (p # ps) = (if is_one_shot_entry (config p) then Suc (one_shots ps) else one_shots ps)"
  by (simp add: one_shots_def)

lemma pending_Suc: "unat (w :: uint32_t) < 2 ^ 32 - 1 \<Longrightarrow> unat (w + 1) = Suc (unat w)"
  by (simp add: unat_word_ariths)

text \<open>The two ways an entry is passed: nothing was started, or a process was.\<close>

lemma scheduling_skip:
  assumes "scheduling (e # es) co h s" "running_processes s' = running_processes s"
    "pending_finish s' = pending_finish s"
  shows "scheduling es (next_order es co h) h s'"
proof -
  have s: "sorted (map order es)" "\<forall>e\<in>set es. co \<le> order e" using assms(1) by (auto simp: scheduling_def)
  note n = next_order_bounds [OF s, of h]
  have "order (config p) \<le> next_order es co h" if "p \<in> set (running_processes s)" "\<not> is_placeholder p" for p
    using assms(1) that n(1) by (fastforce simp: scheduling_def)
  moreover have "h \<and> order (config p) = next_order es co h"
    if "p \<in> set (running_processes s)" "is_one_shot_entry (config p)" for p
    using assms(1) that n(3) by (auto simp: scheduling_def)
  ultimately show ?thesis using assms s n(2) by (auto simp: scheduling_def)
qed

lemma scheduling_start:
  assumes sch: "scheduling (e # es) co h s" and e: "order e = co"
    and run: "running_processes s' = p # running_processes s" "config p = e"
    and pend: "pending_finish s' = (if is_one_shot_entry e then pending_finish s + 1 else pending_finish s)"
  defines "h' \<equiv> h \<or> is_one_shot_entry e"
  shows "scheduling es (next_order es co h') h' s'"
proof -
  have s: "sorted (map order es)" "\<forall>e\<in>set es. co \<le> order e" using sch by (auto simp: scheduling_def)
  note n = next_order_bounds [OF s, of h']
  have cnt: "unat (pending_finish s) = one_shots (running_processes s)"
    "one_shots (running_processes s) + length es + 1 < 2 ^ 32" using sch by (auto simp: scheduling_def)
  then have "unat (pending_finish s') = one_shots (running_processes s')"
    using pending_Suc [of "pending_finish s"] run pend by (auto simp: one_shots_Cons)
  moreover have "order (config q) \<le> next_order es co h'"
    if "q \<in> set (running_processes s')" "\<not> is_placeholder q" for q
    using sch that n(1) run e by (fastforce simp: scheduling_def)
  moreover have "h' \<and> order (config q) = next_order es co h'"
    if "q \<in> set (running_processes s')" "is_one_shot_entry (config q)" for q
    using sch that n(3) run e by (auto simp: scheduling_def h'_def)
  moreover have "one_shots (running_processes s') + length es < 2 ^ 32"
    using cnt(2) run by (auto simp: one_shots_Cons)
  ultimately show ?thesis using sch s n(2) by (auto simp: scheduling_def)
qed

definition same_stage :: "'a init_state_scheme \<Rightarrow> 'a init_state_scheme \<Rightarrow> bool" where
  "same_stage s s' \<longleftrightarrow> current_stage s' = current_stage s \<and> should_exit s' = should_exit s \<and>
     inittab_entries s' = inittab_entries s"

lemma same_stage_refl [simp]: "same_stage s s"
  by (simp add: same_stage_def)

lemma same_stage_trans: "same_stage s s' \<Longrightarrow> same_stage s' s'' \<Longrightarrow> same_stage s s''"
  by (simp add: same_stage_def)

lemma same_init_stage: "same_init s s' \<Longrightarrow> same_stage s s'"
  by (simp add: same_stage_def same_init_def)

text \<open>One entry: what the loop body leaves before it goes on.\<close>

definition start_entry ::
    "inittab_entry \<Rightarrow> bool \<Rightarrow> nat \<Rightarrow> 'a init_state_scheme \<Rightarrow> (bool \<times> 'a init_state_scheme) c_res" where
  "start_entry entry h a s1 =
     (case spawn_exec entry s1 of (fork_result, s2) \<Rightarrow>
        (case fork_result of
           Some p \<Rightarrow>
             let s3 = (if is_one_shot_entry entry then s2\<lparr>pending_finish := pending_finish s2 + 1\<rparr> else s2)
             in Inr (h \<or> is_one_shot_entry entry,
                     s3\<lparr>running_processes := \<lparr>p_addr = a, config = entry, pid = p\<rparr> # running_processes s3\<rparr>)
         | None \<Rightarrow>
             if is_safe_entry entry
             then res_bind (start_safe_mode (process_name entry) (- 1) s2) (\<lambda>s3. Inr (h, s3))
             else Inr (h, s2)))"

lemma start_loop_Cons:
  "start_loop (e # es) co h s =
     (if order e \<noteq> co then Inr (True, h, e # es, s)
      else case alloc_process s of
        (None, s1) \<Rightarrow> Inr (False, h, e # es, s1)
      | (Some a, s1) \<Rightarrow> res_bind (start_entry e h a s1)
          (\<lambda>(h', s4). start_loop es (next_order es co h') h' s4))"
  by (simp add: start_entry_def split: prod.splits option.splits)

declare start_loop.simps(2) [simp del]

lemma start_entry_keeps:
  assumes "struct_inv s" "a < next_addr s" "a \<notin> p_addr ` set (running_processes s)" "order e = co"
  shows "settles (start_entry e h a s) (\<lambda>(h', s'). struct_inv s' \<and> same_stage s s' \<and>
    (scheduling (e # es) co h s \<longrightarrow> scheduling es (next_order es co h') h' s'))"
proof -
  obtain r s2 where fk: "sys_fork s = (r, s2)" by (cases "sys_fork s")
  have s2: "s2 = s\<lparr>forks := forks s2\<rparr>" using fk by (auto simp: sys_fork_def split: list.splits)
  have inv2: "struct_inv s2" using assms(1) by (subst s2) simp
  have f2: "same_init s s2" "next_addr s2 = next_addr s" by (subst s2, simp add: same_init_def)+
  show ?thesis
  proof (cases r)
    case (Some n)
    let ?s3 = "if is_one_shot_entry e then s2\<lparr>pending_finish := pending_finish s2 + 1\<rparr> else s2"
    let ?p = "\<lparr>p_addr = a, config = e, pid = n\<rparr>"
    let ?s4 = "?s3\<lparr>running_processes := ?p # running_processes ?s3\<rparr>"
    have "struct_inv ?s4"
      using inv2 f2 assms(2,3) by (intro add_process_struct) (auto simp: same_init_def)
    moreover have "same_stage s ?s4" using f2 by (auto simp: same_stage_def same_init_def)
    moreover have "scheduling es (next_order es co (h \<or> is_one_shot_entry e)) (h \<or> is_one_shot_entry e) ?s4"
      if "scheduling (e # es) co h s"
      using f2(1) by (intro scheduling_start [OF that assms(4), where p = ?p]) (auto simp: same_init_def)
    ultimately show ?thesis using fk Some by (simp add: start_entry_def spawn_exec_def Let_def)
  next
    case None
    have skip: "scheduling (e # es) co h s \<longrightarrow> scheduling es (next_order es co h) h s'" if "same_init s s'" for s'
      using that by (auto simp: same_init_def intro: scheduling_skip)
    have "settles (start_safe_mode (process_name e) (- 1) s2) (\<lambda>s'. struct_inv s' \<and> same_init s s')"
      using start_safe_mode_struct [OF inv2, of "process_name e" "- 1"] f2(1)
      by (elim settles_mono) (auto simp: same_init_def)
    then show ?thesis using fk None inv2 f2(1) skip
      by (auto simp: start_entry_def spawn_exec_def same_init_stage intro!: settles_bind elim!: settles_mono)
  qed
qed

lemma start_loop_keeps:
  "struct_inv s \<Longrightarrow> settles (start_loop es co h s) (\<lambda>(b, h', rest, s'). struct_inv s' \<and> same_stage s s' \<and>
     length rest \<le> length es \<and> (scheduling es co h s \<longrightarrow> scheduled rest s'))"
proof (induction es arbitrary: co h s)
  case Nil
  then show ?case by (auto dest: scheduling_scheduled)
next
  case (Cons e es)
  show ?case
  proof (cases "order e = co")
    case False
    then show ?thesis using Cons.prems by (auto simp: start_loop_Cons dest: scheduling_scheduled)
  next
    case True
    obtain r s1 where al: "alloc_process s = (r, s1)" by (cases "alloc_process s")
    note s1 = alloc_process_struct [OF Cons.prems al]
    have sch1: "scheduling (e # es) co h s1" if "scheduling (e # es) co h s"
      using that s1 by (simp add: scheduling_def same_init_def)
    show ?thesis
    proof (cases r)
      case None
      then show ?thesis unfolding start_loop_Cons using al s1 True sch1
        by (auto simp: same_init_stage dest: scheduling_scheduled)
    next
      case (Some a)
      have "settles (start_entry e h a s1) (\<lambda>(h', s'). struct_inv s' \<and> same_stage s1 s' \<and>
          (scheduling (e # es) co h s1 \<longrightarrow> scheduling es (next_order es co h') h' s'))"
        using s1 Some True by (intro start_entry_keeps) auto
      then show ?thesis unfolding start_loop_Cons using al s1 True Some sch1
        by (auto intro!: settles_bind elim!: settles_mono settles_mono [OF Cons.IH]
            intro: same_stage_trans dest: same_init_stage)
    qed
  qed
qed

lemma arm_one_shot_keeps:
  assumes "struct_inv s"
  shows "settles (arm_one_shot b s) (\<lambda>(c, s'). c = b \<and> struct_inv s' \<and> same_init s s')"
proof -
  have "settles (mainloop_add_timeout TIMEOUT_ONE_SHOT one_shot_timeout_fn s)
      (\<lambda>(r, s'). struct_inv s' \<and> same_init s s' \<and> refers s' r one_shot_timeout_fn)"
    using assms by (intro add_timeout_struct) (simp_all add: TIMEOUT_ONE_SHOT_def timeout_fns_def)
  then show ?thesis unfolding arm_one_shot_def
    by (auto intro!: settles_bind elim!: settles_mono simp: same_init_def set_one_shot_timeout)
qed

text \<open>\<open>start_processes\<close>: in a startup with no one-shot process left, the schedule is kept.\<close>

lemma start_processes_keeps:
  assumes inv: "struct_inv s" and ne: "es \<noteq> []"
  shows "settles (start_processes es s) (\<lambda>(_, s'). struct_inv s' \<and> same_stage s s' \<and>
    length (remaining s') \<le> length es \<and>
    (one_shots (running_processes s) = 0 \<and> order_kept (running_processes s) es \<and> length es < 2 ^ 32 \<longrightarrow>
       scheduled (remaining s') s'))"
proof -
  obtain e es' where es: "es = e # es'" using ne by (cases es) auto
  let ?s0 = "s\<lparr>pending_finish := 0\<rparr>"
  have sch: "scheduling es (order e) False ?s0"
    if "one_shots (running_processes s) = 0" "order_kept (running_processes s) es" "length es < 2 ^ 32"
    using that es by (auto simp: scheduling_def order_kept_def one_shots_def filter_empty_conv)
  have loop: "settles (start_loop es (order e) False ?s0) (\<lambda>(b, h', rest, s'). struct_inv s' \<and> same_stage ?s0 s' \<and>
      length rest \<le> length es \<and> (scheduling es (order e) False ?s0 \<longrightarrow> scheduled rest s'))"
    using inv by (intro start_loop_keeps) simp
  show ?thesis unfolding start_processes_def es list.case
  proof (intro settles_bind settles_mono [OF loop [unfolded es]], clarify)
    fix b h :: bool and rest s1
    assume s1: "struct_inv s1" "same_stage ?s0 s1" "length rest \<le> length (e # es')"
      "scheduling (e # es') (order e) False ?s0 \<longrightarrow> scheduled rest s1"
    let ?P = "\<lambda>(_, s'). struct_inv s' \<and> same_stage s s' \<and> length (remaining s') \<le> length (e # es') \<and>
      (one_shots (running_processes s) = 0 \<and> order_kept (running_processes s) (e # es') \<and>
         length (e # es') < 2 ^ 32 \<longrightarrow> scheduled (remaining s') s')"
    have goal: "?P (b, s')" if "struct_inv s'" "same_init (s1\<lparr>remaining := rest\<rparr>) s'" for s'
      using that s1 sch es by (auto simp: same_init_def same_stage_def scheduled_def)
    have "settles (arm_one_shot b (s1\<lparr>remaining := rest\<rparr>)) (\<lambda>(c, s').
        c = b \<and> struct_inv s' \<and> same_init (s1\<lparr>remaining := rest\<rparr>) s')"
      using s1(1) by (intro arm_one_shot_keeps) simp
    then have "settles (arm_one_shot b (s1\<lparr>remaining := rest\<rparr>)) ?P"
      by (elim settles_mono) (use goal in auto)
    then show "settles (let s2 = s1\<lparr>remaining := rest\<rparr> in
        if h then arm_one_shot b s2 else Inr (b, s2)) ?P"
      using goal [of "s1\<lparr>remaining := rest\<rparr>"] s1(1) by (simp add: Let_def same_init_def)
  qed
qed

section \<open>Stages\<close>

lemma maintain_start_keeps:
  assumes inv: "struct_inv s" "stage_ok s" and st: "current_stage s \<in> {STAGE_STARTUP, STAGE_SHUTDOWN}"
  shows "settles (maintain_start s) (\<lambda>s'. struct_inv s' \<and> stage_ok s' \<and> should_exit s' = should_exit s)"
proof (cases "pending_finish s = 0")
  case True
  show ?thesis unfolding maintain_start_def if_P [OF True]
  proof (intro settles_bind settles_mono [OF cancel_one_shot_struct [OF inv(1)]])
    fix s1 assume s1: "struct_inv s1 \<and> same_init s s1 \<and> one_shot_timeout s1 = None \<and> kill_timeout s1 = kill_timeout s"
    then have ok1: "stage_ok s1" using inv(2) stage_ok_cong by blast
    have none: "one_shots (running_processes s1) = 0" if "current_stage s1 = STAGE_STARTUP"
      using ok1 s1 True that by (simp add: stage_ok_def same_init_def)
    show "settles (if remaining s1 \<noteq> [] then res_bind (start_processes (remaining s1) s1) (\<lambda>(_, s2). Inr s2)
        else if current_stage s1 = STAGE_STARTUP
        then Inr (mainloop_set_post_iteration_callback None (s1\<lparr>current_stage := STAGE_RUN\<rparr>))
        else Inr (s1\<lparr>current_stage := STAGE_CLOSE\<rparr>)) (\<lambda>s'. struct_inv s' \<and> stage_ok s' \<and> should_exit s' = should_exit s)"
    proof (cases "remaining s1 = []")
      case True
      with s1 none st show ?thesis
        by (auto simp: mainloop_set_post_iteration_callback_def stage_ok_def same_init_def set_post)
    next
      case False
      have "settles (start_processes (remaining s1) s1) (\<lambda>(_, s'). struct_inv s' \<and> same_stage s1 s' \<and>
          length (remaining s') \<le> length (remaining s1) \<and>
          (one_shots (running_processes s1) = 0 \<and> order_kept (running_processes s1) (remaining s1) \<and>
             length (remaining s1) < 2 ^ 32 \<longrightarrow> scheduled (remaining s') s'))"
        using s1 False by (intro start_processes_keeps) auto
      with False s1 ok1 none st show ?thesis
        by (auto simp: stage_ok_def same_stage_def same_init_def scheduled_def
            intro!: settles_bind elim!: settles_mono)
    qed
  qed
qed (use inv in \<open>simp add: maintain_start_def\<close>)

lemma stage_ok_other: "current_stage s \<in> {STAGE_TERMINATION, STAGE_SHUTDOWN, STAGE_CLOSE} \<Longrightarrow> stage_ok s"
  by (auto simp: stage_ok_def)

lemma maintain_termination_keeps:
  assumes inv: "struct_inv s" "stage_ok s" and st: "current_stage s = STAGE_TERMINATION"
  shows "settles (maintain_termination s) (\<lambda>s'. struct_inv s' \<and> stage_ok s' \<and> should_exit s' = should_exit s)"
proof (cases "length (running_processes s) \<le> 1")
  case True
  have cancel: "settles (cancel_kill_timeout s1) (\<lambda>s'. struct_inv s' \<and> stage_ok s' \<and> should_exit s' = should_exit s)"
    if "struct_inv s1" "stage_ok s1" "should_exit s1 = should_exit s" for s1 :: "'a init_state_scheme"
    using cancel_kill_struct [OF that(1)] that(2,3)
    by (elim settles_mono) (auto simp: same_init_def stage_ok_def)
  show ?thesis unfolding maintain_termination_def if_P [OF True]
  proof (intro settles_bind)
    let ?s = "s\<lparr>current_stage := STAGE_SHUTDOWN\<rparr>"
    show "settles (if shutdown_list (inittab_entries s) \<noteq> []
        then res_bind (start_processes (shutdown_list (inittab_entries s)) ?s) (\<lambda>(_, s1). Inr s1)
        else Inr (s\<lparr>current_stage := STAGE_CLOSE\<rparr>))
      (\<lambda>s1. settles (cancel_kill_timeout s1) (\<lambda>s'. struct_inv s' \<and> stage_ok s' \<and> should_exit s' = should_exit s))"
    proof (cases "shutdown_list (inittab_entries s) = []")
      case True
      have "stage_ok (s\<lparr>current_stage := STAGE_CLOSE\<rparr>)" by (rule stage_ok_other) simp
      with True inv(1) show ?thesis by (simp add: cancel)
    next
      case False
      have "settles (start_processes (shutdown_list (inittab_entries s)) ?s)
          (\<lambda>(_, s'). struct_inv s' \<and> same_stage ?s s')"
        using inv(1) False by (intro settles_mono [OF start_processes_keeps]) auto
      then have "settles (start_processes (shutdown_list (inittab_entries s)) ?s) (\<lambda>(_, s1).
          settles (cancel_kill_timeout s1) (\<lambda>s'. struct_inv s' \<and> stage_ok s' \<and> should_exit s' = should_exit s))"
        by (elim settles_mono, clarify) (rule cancel, auto simp: same_stage_def intro: stage_ok_other)
      with False show ?thesis by (auto intro!: settles_bind elim!: settles_mono)
    qed
  qed
qed (use inv in \<open>simp add: maintain_termination_def\<close>)

lemma stage_maintenance_keeps:
  assumes "init_inv s" "\<not> should_exit s"
  shows "settles (stage_maintenance s) init_inv"
proof -
  have inv: "struct_inv s" "stage_ok s" using assms(1) by (auto simp: init_inv_def schedule_inv_def)
  have "settles (case current_stage s of
      STAGE_STARTUP \<Rightarrow> maintain_start s | STAGE_SHUTDOWN \<Rightarrow> maintain_start s
    | STAGE_TERMINATION \<Rightarrow> maintain_termination s | _ \<Rightarrow> Inr s)
    (\<lambda>s'. struct_inv s' \<and> stage_ok s' \<and> should_exit s' = should_exit s)"
    using inv maintain_start_keeps [OF inv] maintain_termination_keeps [OF inv]
    by (cases "current_stage s") simp_all
  then show ?thesis unfolding stage_maintenance_def
    by (intro settles_bind, elim settles_mono)
      (use assms(2) in \<open>auto simp: mainloop_exit_def init_inv_def schedule_inv_def stage_ok_def\<close>)
qed

section \<open>Signals\<close>

lemma handle_shutdown_cmd_keeps:
  assumes "init_inv s" "\<not> should_exit s"
  shows "settles (handle_shutdown_cmd c s) (\<lambda>s'. init_inv s' \<and> \<not> should_exit s' \<and>
    current_stage s' = STAGE_TERMINATION)"
proof -
  let ?s0 = "s\<lparr>remaining := [], pending_finish := 0\<rparr>"
  have "struct_inv ?s0" using assms(1) by (simp add: init_inv_def)
  note cancel = cancel_one_shot_struct [OF this]
  have kill: "settles (term_running_process s1) (\<lambda>s'. struct_inv s' \<and> same_init s1 s')"
    if "struct_inv s1" for s1 :: "'a init_state_scheme"
  proof -
    have "settles (mainloop_add_timeout TIMEOUT_TERM kill_timeout_fn (signal_all SIGTERM s1))
        (\<lambda>(r, s'). struct_inv s' \<and> same_init (signal_all SIGTERM s1) s' \<and> refers s' r kill_timeout_fn)"
      using that by (intro add_timeout_struct) (simp_all add: signal_all_def TIMEOUT_TERM_def timeout_fns_def)
    then show ?thesis unfolding term_running_process_def
      by (auto simp: same_init_def signal_all_def set_kill_timeout intro!: settles_bind elim!: settles_mono)
  qed
  show ?thesis unfolding handle_shutdown_cmd_def
    by (intro settles_bind settles_mono [OF cancel] settles_mono [OF kill])
      (use assms in \<open>auto simp: init_inv_def schedule_inv_def stage_ok_def same_init_def set_post
         mainloop_set_post_iteration_callback_def\<close>)
qed

text \<open>A process that is reaped leaves the list, and the count if it was one of those waited for.\<close>

lemma find_in_set: "find_in P xs = Some x \<Longrightarrow> x \<in> set xs \<and> P x"
  by (induction xs) (auto split: if_splits)

lemma order_kept_subset: "order_kept ps es \<Longrightarrow> set qs \<subseteq> set ps \<Longrightarrow> order_kept qs es"
  unfolding order_kept_def by blast

lemma remove_process_eq:
  "distinct (map p_addr ps) \<Longrightarrow> p \<in> set ps \<Longrightarrow>
   remove_process (p_addr p) ps = Inr (filter (\<lambda>q. p_addr q \<noteq> p_addr p) ps)"
  by (auto simp: remove_process_def processes.unlink_eq)

lemma one_shots_remove:
  assumes "distinct (map p_addr ps)" "p \<in> set ps"
  shows "one_shots (filter (\<lambda>q. p_addr q \<noteq> p_addr p) ps) =
    one_shots ps - (if is_one_shot_entry (config p) then 1 else 0)"
  using processes.length_filter_unlink [OF assms, of "\<lambda>p. is_one_shot_entry (config p)"]
  by (simp add: one_shots_def processes.unlink_eq [OF assms(1)])

lemma reaped_keeps:
  assumes inv: "struct_inv s" "stage_ok s" and p: "p \<in> set (running_processes s)"
  defines "s' \<equiv> (count_finished p s)\<lparr>running_processes :=
    filter (\<lambda>q. p_addr q \<noteq> p_addr p) (running_processes s)\<rparr>"
  shows "struct_inv s'" "stage_ok s'" "same_stage s s'"
proof -
  let ?ps = "filter (\<lambda>q. p_addr q \<noteq> p_addr p) (running_processes s)"
  have d: "distinct (map p_addr (running_processes s))" using inv(1) by (simp add: struct_inv_unfold)
  have "distinct (map p_addr ?ps)" using d by (simp add: distinct_map_filter)
  then show "struct_inv s'" using inv(1)
    by (auto simp: s'_def count_finished_def struct_inv_unfold mainloop_ok_def quiet_def typed_def refers_def handler_live_def)
  show "same_stage s s'" by (simp add: s'_def count_finished_def same_stage_def)
  have "unat (pending_finish s') = one_shots ?ps"
    if "current_stage s = STAGE_STARTUP"
  proof (cases "is_one_shot_entry (config p)")
    case True
    have pos: "0 < one_shots (running_processes s)"
      using p True by (auto simp: one_shots_def filter_empty_conv)
    have cnt: "unat (pending_finish s) = one_shots (running_processes s)" using inv(2) that by (simp add: stage_ok_def)
    then have "pending_finish s \<noteq> 0" using pos by auto
    then have "unat (pending_finish s - 1) = unat (pending_finish s) - 1" by (rule unat_minus_one)
    with True that cnt one_shots_remove [OF d p] show ?thesis by (simp add: s'_def count_finished_def)
  next
    case False
    with inv(2) that one_shots_remove [OF d p] show ?thesis
      by (simp add: s'_def count_finished_def stage_ok_def)
  qed
  moreover have "one_shots ?ps = 0" if "current_stage s = STAGE_RUN"
    using inv(2) that one_shots_remove [OF d p] by (simp add: stage_ok_def)
  moreover have "order_kept ?ps (remaining s)" if "current_stage s = STAGE_STARTUP"
    using inv(2) that by (auto simp: stage_ok_def intro: order_kept_subset)
  ultimately show "stage_ok s'" using inv(2)
    by (auto simp: s'_def count_finished_def stage_ok_def)
qed

lemma note_death_settles: "settles (note_death p st b acc) (\<lambda>_. True)"
  by (simp add: note_death_def)

lemma reap_loop_keeps:
  "struct_inv s \<Longrightarrow> stage_ok s \<Longrightarrow> settles (reap_loop ws acc s) (\<lambda>(_, s').
     struct_inv s' \<and> stage_ok s' \<and> same_stage s s')"
proof (induction ws acc s rule: reap_loop.induct)
  case (4 n st ws acc s)
  show ?case
  proof (cases "find_process n s")
    case None
    with 4 show ?thesis by simp
  next
    case (Some p)
    then have p: "p \<in> set (running_processes s)" by (simp add: find_process_def find_in_set)
    have d: "distinct (map p_addr (running_processes s))" using 4(3) by (simp add: struct_inv_unfold)
    let ?ps = "filter (\<lambda>q. p_addr q \<noteq> p_addr p) (running_processes s)"
    let ?s' = "(count_finished p s)\<lparr>running_processes := ?ps\<rparr>"
    note keep = reaped_keeps [OF 4(3,4) p]
    have run: "running_processes (count_finished p s) = running_processes s" by (simp add: count_finished_def)
    have rm: "remove_process (p_addr p) (running_processes (count_finished p s)) = Inr ?ps"
      unfolding run using d p by (rule remove_process_eq)
    have "settles (reap_loop ws acc' ?s') (\<lambda>(_, s'). struct_inv s' \<and> stage_ok s' \<and> same_stage s s')"
      if "note_death p st (safe_mode_on s) acc = Inr acc'" for acc'
      using 4(2) [OF Some that refl rm keep(1,2)] keep(3)
      by (elim settles_mono) (auto intro: same_stage_trans)
    then show ?thesis using Some note_death_settles [of p st "safe_mode_on s" acc] rm
      by (auto simp: Let_def intro!: settles_bind elim!: settles_mono)
  qed
qed (auto simp: stage_ok_def same_stage_def)

text \<open>The placeholder: the old pipe goes, a new one comes, and its write end is never 0.\<close>

lemma struct_core_open: "struct_core s \<Longrightarrow> struct_core (s\<lparr>open_fds := fds @ open_fds s\<rparr>)"
  by (auto simp: struct_core_def mainloop_ok_def quiet_def typed_def refers_def handler_live_def)

lemma struct_core_close:
  assumes "struct_core s" "interest s fd = None" "epollfd s \<noteq> Some fd"
  shows "struct_core (sys_close fd s)"
proof -
  have "mainloop_ok s" using assms(1) by (simp add: struct_core_def)
  with sys_close_ok(1) [OF this assms(2,3)] assms(1) show ?thesis
    by (simp add: struct_core_def sys_close_def typed_def refers_def handler_live_def)
qed

lemma struct_core_updates [simp]:
  "struct_core (s\<lparr>forks := x1\<rparr>) = struct_core s" "struct_core (s\<lparr>alloc_ok := x2\<rparr>) = struct_core s"
  "struct_core (s\<lparr>sys_ok := x3\<rparr>) = struct_core s" "struct_core (s\<lparr>safe_mode_pipe_fd := x4\<rparr>) = struct_core s"
  by (simp_all add: struct_core_def mainloop_ok_def quiet_def typed_def refers_def handler_live_def)

lemma sys_pipe_fresh:
  assumes core: "struct_core s" and pp: "sys_pipe s = (Some (r, w), s1)"
  shows "struct_core s1" "same_init s s1" "next_addr s1 = next_addr s" "interest s1 = interest s"
    "epollfd s1 = epollfd s" "interest s r = None" "epollfd s \<noteq> Some r" "interest s w = None"
    "epollfd s \<noteq> Some w" "0 < w" "r \<noteq> w" "w \<in> set (open_fds s1)"
proof -
  have rw: "r = lowest_free (open_fds s)" "w = lowest_free (r # open_fds s)"
    and s1: "s1 = s\<lparr>sys_ok := sys_ok s1, open_fds := [w, r] @ open_fds s\<rparr>"
    using pp by (auto simp: sys_pipe_def sys_answer_def Let_def split: prod.splits if_splits)
  have ok: "mainloop_ok s" using core by (simp add: struct_core_def)
  have fresh: "r \<notin> set (open_fds s)" "w \<notin> set (r # open_fds s)"
    unfolding rw by (rule lowest_free_fresh)+
  show "struct_core s1" using struct_core_open [of "s\<lparr>sys_ok := sys_ok s1\<rparr>" "[w, r]"] core
    by (subst s1) simp
  show "same_init s s1" "next_addr s1 = next_addr s" "interest s1 = interest s" "epollfd s1 = epollfd s"
    "w \<in> set (open_fds s1)" by (subst s1, simp add: same_init_def)+
  show "interest s r = None" "interest s w = None" using fresh ok by (auto intro: interest_closed)
  show "epollfd s \<noteq> Some r" "epollfd s \<noteq> Some w" using fresh mainloop_okD(5) [OF ok] by auto
  show "r \<noteq> w" using fresh by auto
  show "0 < w"
  proof (rule ccontr)
    assume "\<not> 0 < w"
    then have "0 \<notin> set (open_fds s)" "r \<noteq> 0" using fresh by auto
    with lowest_free_least [of 0 "open_fds s"] rw(1) show False by simp
  qed
qed

text \<open>A placeholder is added, and nothing else of the schedule changes.\<close>

definition adds_placeholder :: "'a init_state_scheme \<Rightarrow> 'a init_state_scheme \<Rightarrow> bool" where
  "adds_placeholder s s' \<longleftrightarrow>
     (\<exists>p. is_placeholder p \<and> running_processes s' = p # running_processes s) \<and>
     remaining s' = remaining s \<and> pending_finish s' = pending_finish s \<and> current_stage s' = current_stage s \<and>
     should_exit s' = should_exit s \<and> inittab_entries s' = inittab_entries s"

lemma setup_safe_mode_core:
  assumes core0: "struct_core s0" and s0: "s0 = (if 0 < safe_mode_pipe_fd s then sys_close (safe_mode_pipe_fd s) s else s)"
    and e: "entry_type e = SAFE_MODE"
  shows "settles (setup_safe_mode (Some e) s) (\<lambda>(ok, s'). ok \<longrightarrow> struct_inv s' \<and> adds_placeholder s s')"
proof -
  have f0: "same_init s s0" by (simp add: s0 sys_close_def same_init_def)
  obtain pp s1 where pp: "sys_pipe s0 = (pp, s1)" by (cases "sys_pipe s0")
  show ?thesis
  proof (cases pp)
    case None
    with pp show ?thesis by (simp add: setup_safe_mode_def s0 [symmetric])
  next
    case (Some rw)
    obtain r w where rw: "rw = (r, w)" by (cases rw)
    note f1 = sys_pipe_fresh [OF core0 pp [unfolded Some rw]]
    obtain a s2 where al: "alloc_process s1 = (a, s2)" by (cases "alloc_process s1")
    obtain p s3 where fk: "sys_fork s2 = (p, s3)" by (cases "sys_fork s2")
    show ?thesis
    proof (cases "a \<noteq> None \<and> p \<noteq> None")
      case False
      with pp al fk Some rw show ?thesis
        by (auto simp: setup_safe_mode_def s0 [symmetric] split: option.splits)
    next
      case True
      then obtain a' n where ap: "a = Some a'" "p = Some n" by auto
      let ?p = "\<lparr>p_addr = a', config = e, pid = n\<rparr>"
      let ?s4 = "s3\<lparr>running_processes := ?p # running_processes s3\<rparr>"
      let ?s5 = "(sys_close r ?s4)\<lparr>safe_mode_pipe_fd := w\<rparr>"
      have s3: "s3 = s1\<lparr>alloc_ok := alloc_ok s3, next_addr := Suc (next_addr s1), forks := forks s3\<rparr>"
        and a': "a' = next_addr s1"
        using al fk ap by (auto simp: alloc_process_def alloc_answer_def sys_fork_def split: prod.splits if_splits list.splits)
      have fields: "interest s3 = interest s1" "epollfd s3 = epollfd s1" "open_fds s3 = open_fds s1" "same_init s1 s3"
        by (subst s3, simp add: same_init_def)+
      have "struct_core s3" using f1(1)
        by (subst s3) (auto simp: struct_core_def mainloop_ok_def quiet_def typed_def refers_def handler_live_def less_Suc_eq)
      moreover have "a' \<notin> p_addr ` set (running_processes s3)" "a' < next_addr s3"
        using f1(1) fields(4) a' by (subst s3, auto simp: struct_core_def same_init_def)+
      ultimately have "struct_core ?s4"
        by (simp add: struct_core_def mainloop_ok_def quiet_def typed_def refers_def handler_live_def)
      then have "struct_core (sys_close r ?s4)" using fields f1 by (intro struct_core_close) auto
      then have core5: "struct_core ?s5" by simp
      have "quiet ?s5 w" using f1 fields by (auto simp: quiet_def sys_close_def)
      with core5 f1(10) have "struct_inv ?s5" by (simp add: struct_inv_def)
      moreover have "adds_placeholder s ?s5"
        using f0 f1(2) fields(4) e by (auto simp: adds_placeholder_def is_placeholder_def sys_close_def same_init_def)
      moreover have "setup_safe_mode (Some e) s = Inr (True, ?s5)"
        using pp al fk ap Some rw by (simp add: setup_safe_mode_def s0 [symmetric] Let_def)
      ultimately show ?thesis by simp
    qed
  qed
qed

lemma setup_safe_mode_keeps:
  assumes inv: "struct_inv s" "stage_ok s"
  shows "settles (setup_safe_mode (placeholder_entry s) s) (\<lambda>(ok, s').
    ok \<longrightarrow> struct_inv s' \<and> stage_ok s' \<and> same_stage s s')"
proof -
  obtain e es where e: "safe_mode_entry (inittab_entries s) = e # es" "entry_type e = SAFE_MODE"
    using inv(1) by (cases "safe_mode_entry (inittab_entries s)") (auto simp: struct_inv_unfold tables_ok_def)
  have "0 < safe_mode_pipe_fd s" "quiet s (safe_mode_pipe_fd s)" "struct_core s"
    using inv(1) by (auto simp: struct_inv_def)
  then have "struct_core (if 0 < safe_mode_pipe_fd s then sys_close (safe_mode_pipe_fd s) s else s)"
    by (auto intro!: struct_core_close simp: quiet_def)
  from setup_safe_mode_core [OF this refl e(2)] have
    "settles (setup_safe_mode (placeholder_entry s) s) (\<lambda>(ok, s'). ok \<longrightarrow> struct_inv s' \<and> adds_placeholder s s')"
    by (simp add: placeholder_entry_def e(1))
  moreover have "struct_inv s' \<and> stage_ok s' \<and> same_stage s s'" if s': "struct_inv s'" "adds_placeholder s s'" for s'
  proof -
    obtain p where p: "is_placeholder p" "running_processes s' = p # running_processes s" using s'(2) by (auto simp: adds_placeholder_def)
    then have "\<not> is_one_shot_entry (config p)" by (auto simp: is_one_shot_entry_def is_placeholder_def)
    with inv(2) s'(2) p have "stage_ok s'"
      by (auto simp: stage_ok_def one_shots_Cons order_kept_def adds_placeholder_def)
    with s' show ?thesis by (simp add: adds_placeholder_def same_stage_def)
  qed
  ultimately show ?thesis by (auto elim!: settles_mono)
qed

lemma handle_child_exit_keeps:
  assumes "init_inv s" "\<not> should_exit s"
  shows "settles (handle_child_exit s) (\<lambda>s'. init_inv s' \<and> \<not> should_exit s' \<and>
    current_stage s' = current_stage s)"
proof -
  let ?G = "\<lambda>s'. struct_inv s' \<and> stage_ok s' \<and> same_stage s s'"
  have inv: "struct_inv s" "stage_ok s" using assms(1) by (auto simp: init_inv_def schedule_inv_def)
  have safe: "settles (start_safe_mode name sig s1) ?G" if "?G s1" for name sig s1
    using that by (intro settles_mono [OF start_safe_mode_struct]) (auto simp: same_init_def same_stage_def stage_ok_def)
  have placeholder: "settles (setup_safe_mode (placeholder_entry s1) s1) (\<lambda>(ok, s'). ok \<longrightarrow> ?G s')" if "?G s1" for s1
    using that by (intro settles_mono [OF setup_safe_mode_keeps]) (auto intro: same_stage_trans)
  have "settles (handle_child_exit s) ?G"
    unfolding handle_child_exit_def
    by (auto intro!: settles_bind settles_mono [OF reap_loop_keeps [OF inv]] settles_mono [OF placeholder]
        settles_mono [OF safe] split: option.split)
  then show ?thesis using assms
    by (elim settles_mono) (auto simp: init_inv_def schedule_inv_def same_stage_def)
qed

definition shutdown_signal :: "nat \<Rightarrow> bool" where
  "shutdown_signal n \<longleftrightarrow> n \<in> {SIGTERM, SIGUSR1, SIGUSR2}"

lemmas signal_numbers = SIGKILL_def SIGUSR1_def SIGUSR2_def SIGTERM_def SIGCHLD_def

lemma signal_handler_keeps:
  assumes "init_inv s" "\<not> should_exit s"
  shows "settles (signal_handler n s) (\<lambda>s'. init_inv s' \<and> \<not> should_exit s' \<and>
    (current_stage s' = current_stage s \<or> shutdown_signal n \<and> current_stage s' = STAGE_TERMINATION))"
proof -
  have "settles (handle_shutdown_cmd c s) (\<lambda>s'. init_inv s' \<and> \<not> should_exit s' \<and>
      (current_stage s' = current_stage s \<or> shutdown_signal n \<and> current_stage s' = STAGE_TERMINATION))"
    if "shutdown_signal n" for c
    by (rule settles_mono [OF handle_shutdown_cmd_keeps [OF assms]]) (simp add: that)
  then show ?thesis using assms handle_child_exit_keeps [OF assms]
    by (simp add: signal_handler_def shutdown_signal_def signal_numbers)
qed

end
