(* ===== verification/Runs.thy ===== *)
theory Runs
  imports Init
begin

text \<open>
  Runs of init: the process manager behind the event loop. The callbacks of main.c and watchdog.c
  meet the contract of the event loop with the invariant of \<open>Init\<close>, so that what the loop proves
  of every client holds for init. The states init goes through while the events come one at a time
  are an inductive relation, and the invariants are read off for all of them; what happens when
  several events come in one batch is shown in \<open>Shutdown\<close>.
\<close>

section \<open>The contract\<close>

text \<open>A timeout that fired and asked to be stopped: its pointer is cleared, its object goes.\<close>

lemma fired_timeout_removed:
  assumes inv: "init_inv s" "\<not> should_exit s" and a: "objects s a = Some obj" "cb_type obj = CALLBACK_TIMEOUT"
    and k: "kill_timeout s \<noteq> Some a" and t: "one_shot_timeout s \<noteq> Some a" and w: "watchdog_timeout s \<noteq> Some a"
  shows "settles (mainloop_remove_timeout a s) (\<lambda>s'. init_inv s' \<and> \<not> should_exit s' \<and> current_stage s' = current_stage s)"
proof -
  have "settles (mainloop_remove_timeout a s) (\<lambda>s'.
      struct_inv (s'\<lparr>kill_timeout := kill_timeout s, one_shot_timeout := one_shot_timeout s\<rparr>) \<and> same_init s s' \<and>
      kill_timeout s' = kill_timeout s \<and> one_shot_timeout s' = one_shot_timeout s)"
    using inv(1) a k t w by (intro remove_timeout_struct) (auto simp: init_inv_def)
  then show ?thesis using inv
    by (elim settles_mono) (auto simp: init_inv_def schedule_inv_def stage_ok_def same_init_def)
qed

lemma init_inv_clear:
  "init_inv s \<Longrightarrow> init_inv (s\<lparr>kill_timeout := None\<rparr>)" "init_inv s \<Longrightarrow> init_inv (s\<lparr>one_shot_timeout := None\<rparr>)"
  "init_inv s \<Longrightarrow> init_inv (signal_all n s)"
  by (simp_all add: init_inv_def schedule_inv_def stage_ok_def set_kill_timeout set_one_shot_timeout signal_all_def)

lemma other_timeouts:
  assumes "struct_inv s" "objects s a = Some obj"
  shows "cb_fn obj \<noteq> kill_timeout_fn \<Longrightarrow> kill_timeout s \<noteq> Some a"
    "cb_fn obj \<noteq> one_shot_timeout_fn \<Longrightarrow> one_shot_timeout s \<noteq> Some a"
    "cb_fn obj \<noteq> watchdog_feed_fn \<Longrightarrow> watchdog_timeout s \<noteq> Some a"
  using struct_inv_refers [OF assms(1)] assms(2) by (auto simp: refers_def)

lemma kill_timeout_keeps:
  assumes "init_inv s" "\<not> should_exit s" "objects s a = Some obj" "cb_type obj = CALLBACK_TIMEOUT" "cb_fn obj = kill_timeout_fn"
  shows "settles (mainloop_remove_timeout a (snd (kill_timeout_cb s))) (\<lambda>s'. init_inv s' \<and> \<not> should_exit s' \<and>
    current_stage s' = current_stage s)"
proof -
  have "struct_inv s" using assms(1) by (simp add: init_inv_def)
  note o = other_timeouts [OF this assms(3)]
  show ?thesis using assms o(2,3)
    by (intro settles_mono [OF fired_timeout_removed [where obj = obj]])
      (auto simp: kill_timeout_cb_def signal_all_def init_inv_clear dest: init_inv_clear(3) [of _ SIGKILL])
qed

lemma one_shot_timeout_keeps:
  assumes "init_inv s" "\<not> should_exit s" "objects s a = Some obj" "cb_type obj = CALLBACK_TIMEOUT" "cb_fn obj = one_shot_timeout_fn"
  shows "settles (mainloop_remove_timeout a (snd (one_shot_timeout_cb s))) (\<lambda>s'. init_inv s' \<and> \<not> should_exit s' \<and>
    current_stage s' = current_stage s)"
proof -
  have "struct_inv s" using assms(1) by (simp add: init_inv_def)
  note o = other_timeouts [OF this assms(3)]
  show ?thesis using assms o(1,3)
    by (intro settles_mono [OF fired_timeout_removed [where obj = obj]]) (auto simp: one_shot_timeout_cb_def init_inv_clear)
qed

lemma watchdog_feed_keeps: "init_inv s \<Longrightarrow> init_inv (snd (watchdog_feed s))"
  by (auto simp: watchdog_feed_def wd_send_def sys_answer_def init_inv_def schedule_inv_def stage_ok_def
      split: prod.splits)

interpretation init: callback_contract init_callbacks init_inv
proof
  fix s :: "'a init_state_scheme" and a n :: nat and obj cb
  show "init_inv s \<Longrightarrow> mainloop_ok s" by (simp add: init_inv_def struct_inv_unfold)
  assume inv: "init_inv s" "\<not> should_exit s"
  then have ty: "typed s" by (simp add: init_inv_def struct_inv_unfold)
  show "settles (init_callbacks (cb_fn obj) n s) (\<lambda>(_, s'). init_inv s' \<and> \<not> should_exit s')"
    if "objects s a = Some obj" "cb_type obj = CALLBACK_SIGNAL"
  proof -
    have "cb_fn obj = signal_handler_fn" using ty that by (auto simp: typed_def split: if_splits)
    then show ?thesis using signal_handler_keeps [OF inv, of n]
      by (auto intro!: settles_bind elim!: settles_mono)
  qed
  show "settles (init_callbacks (cb_fn obj) 0 s) (\<lambda>(r, s').
      if r = TIMEOUT_CONTINUE then init_inv s' \<and> \<not> should_exit s'
      else settles (mainloop_remove_timeout a s') (\<lambda>s''. init_inv s'' \<and> \<not> should_exit s''))"
    if o: "objects s a = Some obj" "cb_type obj = CALLBACK_TIMEOUT"
  proof -
    have "cb_fn obj \<in> timeout_fns" using ty o by (fastforce simp: typed_def)
    then consider "cb_fn obj = kill_timeout_fn" | "cb_fn obj = one_shot_timeout_fn" | "cb_fn obj = watchdog_feed_fn"
      by (auto simp: timeout_fns_def)
    then show ?thesis
      using kill_timeout_keeps [OF inv o] one_shot_timeout_keeps [OF inv o] watchdog_feed_keeps [OF inv(1)] inv(2)
      by cases (auto simp: kill_timeout_cb_def one_shot_timeout_cb_def watchdog_feed_def wd_send_fields elim!: settles_mono)
  qed
  show "settles (init_callbacks cb 0 s) (\<lambda>(_, s'). init_inv s')" if "post_iteration_callback s = Some cb"
  proof -
    have "cb = stage_maintenance_fn" using inv that by (auto simp: init_inv_def struct_inv_unfold)
    then show ?thesis using stage_maintenance_keeps [OF inv]
      by (auto intro!: settles_bind elim!: settles_mono)
  qed
qed

section \<open>Steps\<close>

text \<open>
  One turn of the loop with at most one event: \<open>epoll_wait\<close> was interrupted, or it returned one
  event, with the pointer registered for its descriptor, that was read and handled.
\<close>

inductive init_step :: "'a init_state_scheme \<Rightarrow> epoll_event option \<Rightarrow> 'a init_state_scheme \<Rightarrow> bool" where
  interrupted: "\<not> should_exit s \<Longrightarrow> init_step s None s"
| event: "\<not> should_exit s \<Longrightarrow> delivered_by s ev \<Longrightarrow> handle_event init_callbacks ev s = Inr (Handled s') \<Longrightarrow>
    init_step s (Some ev) s'"

inductive_cases init_step_interruptedE: "init_step s None s'"
inductive_cases init_step_eventE: "init_step s (Some ev) s'"

inductive reachable :: "'a init_state_scheme \<Rightarrow> 'a init_state_scheme \<Rightarrow> bool" for s0 where
  start: "reachable s0 s0"
| step: "reachable s0 s \<Longrightarrow> init_step s ev s' \<Longrightarrow> reachable s0 s'"

lemma init_step_inv: "init_step s ev s' \<Longrightarrow> init_inv s \<Longrightarrow> init_inv s'"
proof (induction rule: init_step.induct)
  case (event s ev s')
  with init.handle_event_settles [of s ev] show ?case by simp
qed

lemma reachable_inv: "reachable s0 s \<Longrightarrow> init_inv s0 \<Longrightarrow> init_inv s"
  by (induction rule: reachable.induct) (auto intro: init_step_inv)

lemma reachable_step_first: "reachable s1 s \<Longrightarrow> init_step s0 ev s1 \<Longrightarrow> reachable s0 s"
  by (induction rule: reachable.induct) (auto intro: reachable.intros)

lemma short_read_keeps: "handle_event call ev s = Inr (Error_Reading s1) \<Longrightarrow> s1 = s"
  by (auto simp: handle_event_def res_bind_Inr_iff split: option.splits if_splits callback_type.splits prod.splits)

text \<open>An orderly run of the loop is a sequence of such steps.\<close>

lemma loop_reaches:
  "orderly init_callbacks ws s \<Longrightarrow> mainloop_loop init_callbacks ws s = Inr r \<Longrightarrow>
   (case r of
      Waiting s' \<Rightarrow> reachable s s' \<and> \<not> should_exit s'
    | Returned b s' \<Rightarrow> \<exists>s1. reachable s s1 \<and>
        (if b then should_exit s1 \<and> s' = (close_epoll s1)\<lparr>epollfd := None\<rparr> else s' = close_epoll s1))"
proof (induction ws arbitrary: s)
  case (Cons w ws)
  show ?case
  proof (cases "should_exit s")
    case True
    with Cons.prems show ?thesis by (auto intro!: exI [of _ s] start)
  next
    case run: False
    show ?thesis
    proof (cases w)
      case (Events evs)
      with Cons.prems run obtain ev where ev: "evs = [ev]" "delivered_by s ev"
        by (auto split: list.splits)
      obtain h where h: "handle_event init_callbacks ev s = Inr h"
        using Cons.prems run Events ev by (cases "handle_event init_callbacks ev s") auto
      show ?thesis
      proof (cases h)
        case (Handled s1)
        with h ev run have st: "init_step s (Some ev) s1" by (auto intro: event)
        have "orderly init_callbacks ws s1" "mainloop_loop init_callbacks ws s1 = Inr r"
          using Cons.prems run Events ev h Handled by auto
        from Cons.IH [OF this] show ?thesis
          by (cases r) (auto intro: reachable_step_first [OF _ st])
      next
        case (Error_Reading s1)
        then have "s1 = s" using h short_read_keeps by blast
        with Cons.prems run Events ev h Error_Reading show ?thesis by (auto intro!: exI [of _ s] start)
      qed
    qed (use Cons run in auto)
  qed
next
  case Nil
  then show ?case by (auto split: if_splits intro: start intro!: exI [of _ s])
qed

section \<open>Stages\<close>

text \<open>How the stage changes after an event (\<open>stage_maintenance\<close>).\<close>

fun stage_next :: "stage \<Rightarrow> stage \<Rightarrow> bool" where
  "stage_next STAGE_STARTUP t = (t = STAGE_STARTUP \<or> t = STAGE_RUN)"
| "stage_next STAGE_TERMINATION t = (t = STAGE_TERMINATION \<or> t = STAGE_SHUTDOWN \<or> t = STAGE_CLOSE)"
| "stage_next STAGE_SHUTDOWN t = (t = STAGE_SHUTDOWN \<or> t = STAGE_CLOSE)"
| "stage_next st t = (t = st)"

lemma maintain_start_next:
  assumes "struct_inv s" "current_stage s \<in> {STAGE_STARTUP, STAGE_SHUTDOWN}"
  shows "settles (maintain_start s) (\<lambda>s'. stage_next (current_stage s) (current_stage s') \<and> should_exit s' = should_exit s)"
proof (cases "pending_finish s = 0")
  case True
  have start: "settles (start_processes es s1) (\<lambda>(_, s'). current_stage s' = current_stage s1 \<and> should_exit s' = should_exit s1)"
    if "struct_inv s1" "es \<noteq> []" for es and s1 :: "'a init_state_scheme"
    by (rule settles_mono [OF start_processes_keeps [OF that]]) (auto simp: same_stage_def)
  show ?thesis unfolding maintain_start_def if_P [OF True]
    by (intro settles_bind settles_mono [OF cancel_one_shot_struct [OF assms(1)]])
      (use assms(2) in \<open>auto simp: same_init_def mainloop_set_post_iteration_callback_def
         intro!: settles_bind settles_mono [OF start]\<close>)
qed (use assms in \<open>auto simp: maintain_start_def\<close>)

lemma maintain_termination_next:
  assumes "struct_inv s" "current_stage s = STAGE_TERMINATION"
  shows "settles (maintain_termination s) (\<lambda>s'. stage_next (current_stage s) (current_stage s') \<and> should_exit s' = should_exit s)"
proof (cases "length (running_processes s) \<le> 1")
  case True
  have start: "settles (start_processes es s1) (\<lambda>(_, s'). struct_inv s' \<and> current_stage s' = current_stage s1 \<and>
      should_exit s' = should_exit s1)"
    if "struct_inv s1" "es \<noteq> []" for es and s1 :: "'a init_state_scheme"
    by (rule settles_mono [OF start_processes_keeps [OF that]]) (auto simp: same_stage_def)
  have cancel: "settles (cancel_kill_timeout s1) (\<lambda>s'. current_stage s' = current_stage s1 \<and> should_exit s' = should_exit s1)"
    if "struct_inv s1" for s1 :: "'a init_state_scheme"
    by (rule settles_mono [OF cancel_kill_struct [OF that]]) (simp add: same_init_def)
  show ?thesis unfolding maintain_termination_def if_P [OF True]
    using assms by (auto intro!: settles_bind settles_mono [OF start] settles_mono [OF cancel])
qed (use assms in \<open>auto simp: maintain_termination_def\<close>)

lemma stage_maintenance_next:
  assumes "struct_inv s" "\<not> should_exit s"
  shows "settles (stage_maintenance s) (\<lambda>s'. stage_next (current_stage s) (current_stage s'))"
  unfolding stage_maintenance_def
proof (intro settles_bind)
  show "settles (case current_stage s of
      STAGE_STARTUP \<Rightarrow> maintain_start s | STAGE_SHUTDOWN \<Rightarrow> maintain_start s
    | STAGE_TERMINATION \<Rightarrow> maintain_termination s | _ \<Rightarrow> Inr s) (\<lambda>s1.
       settles (if current_stage s1 = STAGE_CLOSE then mainloop_exit s1 else Inr s1)
         (\<lambda>s'. stage_next (current_stage s) (current_stage s')))"
    using assms maintain_start_next [OF assms(1)] maintain_termination_next [OF assms(1)]
    by (cases "current_stage s") (auto elim!: settles_mono simp: mainloop_exit_def)
qed

lemma post_stage:
  assumes "init_inv s" "\<not> should_exit s"
  shows "settles (run_post_callback init_callbacks s) (\<lambda>s'. stage_next (current_stage s) (current_stage s'))"
proof (cases "post_iteration_callback s")
  case None
  have "stage_next st st" for st by (cases st) auto
  with None show ?thesis by (simp add: run_post_callback_def)
next
  case (Some cb)
  have "struct_inv s" "cb = stage_maintenance_fn"
    using assms(1) Some by (auto simp: init_inv_def struct_inv_unfold)
  with Some stage_maintenance_next [OF this(1) assms(2)] show ?thesis
    by (auto simp: run_post_callback_def intro!: settles_bind elim!: settles_mono)
qed

text \<open>What the callback of one event does to the stage, before \<open>stage_maintenance\<close> runs.\<close>

definition callback_stage :: "epoll_event \<Rightarrow> stage \<Rightarrow> stage \<Rightarrow> bool" where
  "callback_stage ev st t \<longleftrightarrow> t = st \<or> shutdown_signal (ssi_signo ev) \<and> t = STAGE_TERMINATION"

lemma handle_event_stage:
  assumes inv: "init_inv s" "\<not> should_exit s" and d: "delivered_by s ev"
  shows "settles (handle_event init_callbacks ev s) (\<lambda>r. case r of
     Handled s' \<Rightarrow> \<exists>t. callback_stage ev (current_stage s) t \<and> stage_next t (current_stage s')
   | Error_Reading s' \<Rightarrow> s' = s)"
proof -
  obtain obj where obj: "objects s (data_ptr ev) = Some obj"
    using mainloop_okD(1) [of s] init.inv_ok [OF inv(1)] d by (auto simp: delivered_by_def)
  have post: "settles (run_post_callback init_callbacks s1) (\<lambda>s'.
      \<exists>t. callback_stage ev st t \<and> stage_next t (current_stage s'))"
    if "init_inv s1" "\<not> should_exit s1" "callback_stage ev st (current_stage s1)"
    for st and s1 :: "'a init_state_scheme"
    using that(3) by (auto intro!: settles_mono [OF post_stage [OF that(1,2)]])
  have ty: "typed s" using inv(1) by (simp add: init_inv_def struct_inv_unfold)
  show ?thesis
  proof (cases "read_full ev")
    case full: True
    show ?thesis
    proof (cases "cb_type obj")
      case CALLBACK_SIGNAL
      then have "cb_fn obj = signal_handler_fn" using ty obj by (auto simp: typed_def split: if_splits)
      moreover have "settles (signal_handler (ssi_signo ev) s) (\<lambda>s1. init_inv s1 \<and> \<not> should_exit s1 \<and>
          callback_stage ev (current_stage s) (current_stage s1))"
        using signal_handler_keeps [OF inv, of "ssi_signo ev"] by (simp add: callback_stage_def)
      ultimately show ?thesis using CALLBACK_SIGNAL full obj
        by (auto simp: handle_event_def intro!: settles_bind post elim!: settles_mono)
    next
      case CALLBACK_TIMEOUT
      have same: "callback_stage ev st st" for st by (simp add: callback_stage_def)
      have "cb_fn obj \<in> timeout_fns" using ty obj CALLBACK_TIMEOUT by (fastforce simp: typed_def)
      then consider (kill) "cb_fn obj = kill_timeout_fn" | (one_shot) "cb_fn obj = one_shot_timeout_fn"
        | (feed) "cb_fn obj = watchdog_feed_fn" by (auto simp: timeout_fns_def)
      then show ?thesis
      proof cases
        case kill
        with kill_timeout_keeps [OF inv obj CALLBACK_TIMEOUT] CALLBACK_TIMEOUT full obj same show ?thesis
          by (auto simp: handle_event_def kill_timeout_cb_def intro!: settles_bind post elim!: settles_mono)
      next
        case one_shot
        with one_shot_timeout_keeps [OF inv obj CALLBACK_TIMEOUT] CALLBACK_TIMEOUT full obj same show ?thesis
          by (auto simp: handle_event_def one_shot_timeout_cb_def intro!: settles_bind post elim!: settles_mono)
      next
        case feed
        have "init_inv (snd (wd_send Keepalive s))" "current_stage (snd (wd_send Keepalive s)) = current_stage s"
          using watchdog_feed_keeps [OF inv(1)]
          by (auto simp: watchdog_feed_def wd_send_def sys_answer_def split: prod.splits)
        with feed CALLBACK_TIMEOUT full obj same inv(2) show ?thesis
          by (auto simp: handle_event_def watchdog_feed_def wd_send_fields intro!: settles_bind post)
      qed
    qed
  qed (use obj in \<open>simp add: handle_event_def\<close>)
qed

section \<open>Results\<close>

text \<open>A state of init for the examples: it has started a one-shot process and waits for it.\<close>

definition sample_entry :: "inittab_entry_type \<Rightarrow> int \<Rightarrow> string \<Rightarrow> inittab_entry" where
  "sample_entry ty n cmd = zero_entry\<lparr>order := n, core_id := - 1, entry_type := ty, process_name := cmd\<rparr>"

definition sample_tables :: inittab where
  "sample_tables = \<lparr>startup_list = [sample_entry ONE_SHOT 0 ''/bin/a'', sample_entry SAFE_SERVICE 1 ''/bin/b''],
     shutdown_list = [sample_entry SHUTDOWN 0 ''/bin/d''], safe_mode_entry = [sample_entry SAFE_MODE (- 1) ''/bin/s'']\<rparr>"

definition signal_object :: callback_object where
  "signal_object = \<lparr>cb_fd = 1, cb_type = CALLBACK_SIGNAL, cb_fn = signal_handler_fn, period = (0, 0)\<rparr>"

definition one_shot_object :: callback_object where
  "one_shot_object = \<lparr>cb_fd = 3, cb_type = CALLBACK_TIMEOUT, cb_fn = one_shot_timeout_fn, period = (3, 0)\<rparr>"

definition sample_init :: init_state where
  "sample_init = \<lparr>epollfd = Some 0, should_exit = False, post_iteration_callback = Some stage_maintenance_fn,
     objects = [0 \<mapsto> signal_object, 3 \<mapsto> one_shot_object], next_addr = 4, open_fds = [3, 5, 1, 0],
     interest = [1 \<mapsto> 0, 3 \<mapsto> 3], alloc_ok = [], sys_ok = [],
     watchdog_fd = - 1, watchdog_timeout = None, wd_commands = [],
     remaining = tl (startup_list sample_tables), pending_finish = 1, inittab_entries = sample_tables,
     running_processes = [\<lparr>p_addr = 2, config = hd (startup_list sample_tables), pid = 7\<rparr>,
       \<lparr>p_addr = 1, config = hd (safe_mode_entry sample_tables), pid = 6\<rparr>],
     current_stage = STAGE_STARTUP, kill_timeout = None, one_shot_timeout = Some 3, safe_mode_pipe_fd = 5,
     shutdown_command = RB_AUTOBOOT, safe_mode_on = False, msh = Some 0, forks = [Some 7],
     waits = [Reaped 7 (Exited 0), No_Child], pipe_writes = [], kills = [], sent = []\<rparr>"

lemmas sample_defs = sample_init_def sample_tables_def sample_entry_def signal_object_def one_shot_object_def
  zero_entry_def

lemma sample_init_inv: "init_inv sample_init"
proof -
  have "mainloop_ok sample_init" "typed sample_init" by (auto simp: sample_defs mainloop_ok_def typed_def timeout_fns_def)
  moreover have "stage_ok sample_init"
    by (simp add: sample_defs stage_ok_def one_shots_def is_one_shot_entry_def order_kept_def is_placeholder_def)
  ultimately show ?thesis
    by (simp add: sample_defs init_inv_def struct_inv_unfold schedule_inv_def refers_def quiet_def tables_ok_def handler_live_def)
qed

definition child_event :: epoll_event where
  "child_event = \<lparr>ready_fd = 1, data_ptr = 0, read_full = True, ssi_signo = SIGCHLD\<rparr>"

lemma sample_orderly: "orderly init_callbacks [Wait_EINTR, Events [child_event]] sample_init"
  by (simp add: delivered_by_def child_event_def sample_defs split: sum.split batch_end.split)

text \<open>C3: safety of init. From a state with the invariant, whatever the allocator, \<open>fork\<close>,
  \<open>waitpid\<close> and the pipe answer, and whatever events come one at a time, the event loop with the
  callbacks of init never fails an assertion and never uses a freed callback object or process:
  the only fault is a deliberate panic. The invariant holds whenever the loop waits. The loop returns
  \<open>true\<close> only from a state with the invariant in STAGE_CLOSE, and \<open>false\<close> only from a state with the
  invariant in another stage, when the read of one of the events was short; in both cases the epoll
  instance is closed and nothing else has changed since.\<close>

theorem init_run_safe:
  assumes "init_inv s" "orderly init_callbacks ws s"
  shows "settles (mainloop_loop init_callbacks ws s) (\<lambda>r. case r of
     Waiting s' \<Rightarrow> init_inv s' \<and> \<not> should_exit s'
   | Returned True s' \<Rightarrow> (\<exists>s0. init_inv s0 \<and> current_stage s0 = STAGE_CLOSE \<and>
       s' = (close_epoll s0)\<lparr>epollfd := None\<rparr>)
   | Returned False s' \<Rightarrow> (\<exists>s0 ev. init_inv s0 \<and> current_stage s0 \<noteq> STAGE_CLOSE \<and> s' = close_epoll s0 \<and>
       Events [ev] \<in> set ws \<and> \<not> read_full ev))"
  using init.loop_settles [OF assms]
  by (elim settles_mono) (auto simp: init_inv_def schedule_inv_def split: loop_end.splits bool.splits)

theorem init_run_safe_witness:
  "init_inv sample_init \<and> orderly init_callbacks [Wait_EINTR, Events [child_event]] sample_init \<and>
   settles (mainloop_loop init_callbacks [Wait_EINTR, Events [child_event]] sample_init) (\<lambda>r. case r of
     Waiting s' \<Rightarrow> init_inv s' \<and> \<not> should_exit s'
   | Returned True s' \<Rightarrow> (\<exists>s0. init_inv s0 \<and> current_stage s0 = STAGE_CLOSE \<and>
       s' = (close_epoll s0)\<lparr>epollfd := None\<rparr>)
   | Returned False s' \<Rightarrow> (\<exists>s0 ev. init_inv s0 \<and> current_stage s0 \<noteq> STAGE_CLOSE \<and> s' = close_epoll s0 \<and>
       Events [ev] \<in> set [Wait_EINTR, Events [child_event]] \<and> \<not> read_full ev))"
  using init_run_safe [OF sample_init_inv sample_orderly] sample_init_inv sample_orderly by simp

text \<open>C5: in every state init reaches while it starts the system, \<open>pending_finish\<close> is the number
  of one-shot processes that run (it never wraps around), no process of a greater order runs beside a
  one-shot process, and what is still to be started is of no smaller order than anything that runs.
  Once init is in STAGE_RUN, no one-shot process of the startup runs and nothing is left to start.\<close>

theorem startup_order_respected:
  assumes "init_inv s0" "reachable s0 s"
  shows "(current_stage s = STAGE_STARTUP \<longrightarrow>
      unat (pending_finish s) = length (filter (\<lambda>p. is_one_shot_entry (config p)) (running_processes s)) \<and>
      (\<forall>p\<in>set (running_processes s). \<forall>q\<in>set (running_processes s). is_one_shot_entry (config p) \<longrightarrow>
         entry_type (config q) \<noteq> SAFE_MODE \<longrightarrow> order (config q) \<le> order (config p)) \<and>
      (\<forall>q\<in>set (running_processes s). \<forall>e\<in>set (remaining s). entry_type (config q) \<noteq> SAFE_MODE \<longrightarrow>
         order (config q) \<le> order e)) \<and>
    (current_stage s = STAGE_RUN \<longrightarrow>
      remaining s = [] \<and> (\<forall>p\<in>set (running_processes s). \<not> is_one_shot_entry (config p)))"
proof -
  have "stage_ok s" using reachable_inv [OF assms(2,1)] by (simp add: init_inv_def schedule_inv_def)
  then show ?thesis
    by (auto simp: stage_ok_def order_kept_def one_shots_def is_placeholder_def filter_empty_conv)
qed

text \<open>The step in which the one-shot process of the example is reaped.\<close>

definition after_child :: init_state where
  "after_child = (case handle_event init_callbacks child_event sample_init of Inr (Handled s) \<Rightarrow> s | _ \<Rightarrow> sample_init)"

lemma sample_step: "init_step sample_init (Some child_event) after_child"
proof -
  have "case handle_event init_callbacks child_event sample_init of Inr (Handled s) \<Rightarrow> True | _ \<Rightarrow> False"
    by code_simp
  then show ?thesis
    by (intro event) (auto simp: after_child_def delivered_by_def child_event_def sample_defs
        split: sum.splits batch_end.splits)
qed

theorem startup_order_respected_witness:
  "reachable sample_init after_child \<and> current_stage after_child = STAGE_STARTUP \<and>
   map pid (running_processes after_child) = [8, 6] \<and> unat (pending_finish after_child) = 0"
proof -
  have r: "reachable sample_init after_child" using sample_step by (blast intro: reachable.intros)
  have run: "current_stage after_child = STAGE_STARTUP" "map pid (running_processes after_child) = [8, 6]"
    "filter (\<lambda>p. is_one_shot_entry (config p)) (running_processes after_child) = []" by code_simp+
  with r startup_order_respected [OF sample_init_inv r] show ?thesis by simp
qed

text \<open>C11: the stages. Handling an event moves the stage along the diagram only: startup to run,
  termination to shutdown or close, shutdown to close; any stage goes to termination, and from there
  on, only on one of the three shutdown signals. The loop is told to end exactly in STAGE_CLOSE.\<close>

theorem stages_follow_diagram:
  assumes "init_inv s" "init_step s ev s'"
  shows "(case ev of
      None \<Rightarrow> s' = s
    | Some e \<Rightarrow> stage_next (current_stage s) (current_stage s') \<or>
        ssi_signo e \<in> {SIGTERM, SIGUSR1, SIGUSR2} \<and> stage_next STAGE_TERMINATION (current_stage s')) \<and>
    (should_exit s' \<longleftrightarrow> current_stage s' = STAGE_CLOSE)"
  using assms(2,1)
proof (cases rule: init_step.cases)
  case interrupted
  then show ?thesis using assms(1) by (auto simp: init_inv_def schedule_inv_def)
next
  case (event e)
  then show ?thesis using handle_event_stage [OF assms(1), of e] init_step_inv [OF assms(2,1)]
    by (auto simp: callback_stage_def shutdown_signal_def init_inv_def schedule_inv_def)
qed

theorem stages_follow_diagram_witness:
  "init_step sample_init (Some child_event) after_child \<and> \<not> should_exit after_child \<and>
   stage_next STAGE_STARTUP (current_stage after_child)"
proof -
  have "ssi_signo child_event \<notin> {SIGTERM, SIGUSR1, SIGUSR2}" "current_stage sample_init = STAGE_STARTUP"
    "current_stage after_child \<noteq> STAGE_CLOSE" by code_simp+
  with stages_follow_diagram [OF sample_init_inv sample_step] sample_step show ?thesis by auto
qed

end
