(* ===== verification/Schedule.thy ===== *)
theory Schedule
  imports Runs
begin

text \<open>
  What \<open>start_processes\<close> (\<open>src/main.c\<close>) starts, against a reference: on a sorted list, the
  entries up to the order of the first one-shot entry, all of them if there is none. The loop of the
  code decides this entry by entry, with the order it has reached and the flag \<open>has_one_shot\<close>.
\<close>

section \<open>Definitions\<close>

text \<open>The reference: what is started now, and what waits for the one-shot processes.\<close>

definition batch_spec :: "inittab_entry list \<Rightarrow> inittab_entry list \<times> inittab_entry list" where
  "batch_spec es =
     (case find is_one_shot_entry es of
        None \<Rightarrow> (es, [])
      | Some x \<Rightarrow> (takeWhile (\<lambda>e. order e \<le> order x) es, dropWhile (\<lambda>e. order e \<le> order x) es))"

text \<open>The decisions of the loop alone.\<close>

fun batch_from :: "inittab_entry list \<Rightarrow> int \<Rightarrow> bool \<Rightarrow> inittab_entry list \<times> inittab_entry list" where
  "batch_from [] current_order has_one_shot = ([], [])"
| "batch_from (e # es) current_order has_one_shot =
     (if order e \<noteq> current_order then ([], e # es)
      else let h = has_one_shot \<or> is_one_shot_entry e;
               (b, r) = batch_from es (next_order es current_order h) h
           in (e # b, r))"

section \<open>The decisions\<close>

lemma batch_from_one_shot:
  "sorted (map order es) \<Longrightarrow> \<forall>e\<in>set es. co \<le> order e \<Longrightarrow>
   batch_from es co True = (takeWhile (\<lambda>e. order e \<le> co) es, dropWhile (\<lambda>e. order e \<le> co) es)"
proof (induction es)
  case (Cons e es)
  have "next_order es co True = co" by (simp add: next_order_def split: list.split)
  with Cons show ?case by auto
qed simp

lemma batch_from_spec:
  "sorted (map order es) \<Longrightarrow> es \<noteq> [] \<Longrightarrow> batch_from es (order (hd es)) False = batch_spec es"
proof (induction es)
  case (Cons e es)
  show ?case
  proof (cases "is_one_shot_entry e")
    case True
    have "next_order es (order e) True = order e" by (simp add: next_order_def split: list.split)
    with True Cons.prems batch_from_one_shot [of es "order e"] show ?thesis by (simp add: batch_spec_def)
  next
    case other: False
    show ?thesis
    proof (cases es)
      case Nil
      with other show ?thesis by (simp add: batch_spec_def)
    next
      case (Cons e2 es2)
      then have n: "next_order es (order e) False = order (hd es)" by (simp add: next_order_def)
      have "order e \<le> order x" if "find is_one_shot_entry es = Some x" for x
        using that Cons.prems(1) by (auto simp: find_Some_iff)
      then show ?thesis using Cons.IH Cons.prems(1) \<open>es = e2 # es2\<close> other n
        by (auto simp: batch_spec_def Let_def split: option.splits)
    qed
  qed
qed simp

section \<open>The processes\<close>

text \<open>With memory and forks at hand, the loop starts exactly the entries of the batch, in order.\<close>

definition started :: "'a init_state_scheme \<Rightarrow> (inittab_entry \<times> nat) list" where
  "started s = rev (map (\<lambda>p. (config p, pid p)) (running_processes s))"

lemma alloc_process_plenty:
  "set (alloc_ok s) \<subseteq> {True} \<Longrightarrow> \<exists>s1. alloc_process s = (Some (next_addr s), s1) \<and> set (alloc_ok s1) \<subseteq> {True} \<and>
     forks s1 = forks s \<and> running_processes s1 = running_processes s \<and> pending_finish s1 = pending_finish s"
  by (cases "alloc_ok s") (auto simp: alloc_process_def alloc_answer_def)

lemma start_loop_batch:
  assumes "set (alloc_ok s) \<subseteq> {True}" "forks s = map Some ns @ fs" "length ns = length (fst (batch_from es co h))"
  shows "\<exists>s'. start_loop es co h s =
      Inr (True, h \<or> list_ex is_one_shot_entry (fst (batch_from es co h)), snd (batch_from es co h), s') \<and>
    started s' = started s @ zip (fst (batch_from es co h)) (map Suc ns) \<and>
    pending_finish s' = pending_finish s + of_nat (length (filter is_one_shot_entry (fst (batch_from es co h))))"
  using assms
proof (induction es arbitrary: co h s ns)
  case (Cons e es)
  show ?case
  proof (cases "order e = co")
    case True
    let ?h = "h \<or> is_one_shot_entry e"
    obtain b r where br: "batch_from es (next_order es co ?h) ?h = (b, r)"
      by (cases "batch_from es (next_order es co ?h) ?h")
    from True br Cons.prems(3) obtain n ns' where ns: "ns = n # ns'" by (cases ns) auto
    obtain s1 where al: "alloc_process s = (Some (next_addr s), s1)" "set (alloc_ok s1) \<subseteq> {True}"
        "forks s1 = forks s" "running_processes s1 = running_processes s" "pending_finish s1 = pending_finish s"
      using alloc_process_plenty [OF Cons.prems(1)] by blast
    let ?s3 = "if is_one_shot_entry e then s1\<lparr>forks := map Some ns' @ fs, pending_finish := pending_finish s1 + 1\<rparr>
      else s1\<lparr>forks := map Some ns' @ fs\<rparr>"
    let ?s4 = "?s3\<lparr>running_processes := \<lparr>p_addr = next_addr s, config = e, pid = Suc n\<rparr> # running_processes ?s3\<rparr>"
    have entry: "start_entry e h (next_addr s) s1 = Inr (?h, ?s4)"
      using al Cons.prems(2) ns by (simp add: start_entry_def spawn_exec_def sys_fork_def Let_def)
    have "set (alloc_ok ?s4) \<subseteq> {True}" "forks ?s4 = map Some ns' @ fs"
      "length ns' = length (fst (batch_from es (next_order es co ?h) ?h))"
      using al Cons.prems True ns br by auto
    from Cons.IH [OF this] obtain s' where s': "start_loop es (next_order es co ?h) ?h ?s4 =
        Inr (True, ?h \<or> list_ex is_one_shot_entry b, r, s')" "started s' = started ?s4 @ zip b (map Suc ns')"
        "pending_finish s' = pending_finish ?s4 + of_nat (length (filter is_one_shot_entry b))"
      unfolding br by auto
    have "started ?s4 = started s @ [(e, Suc n)]" "pending_finish ?s4 = pending_finish s + (if is_one_shot_entry e then 1 else 0)"
      using al by (auto simp: started_def)
    with s' True br ns al(1) entry show ?thesis
      by (auto simp: start_loop_Cons Let_def algebra_simps)
  qed (use Cons.prems in \<open>auto simp: start_loop_Cons\<close>)
qed simp

lemma start_processes_batch:
  assumes inv: "struct_inv s" and es: "es \<noteq> []" "sorted (map order es)" "batch_spec es = (b, r)"
    and answers: "set (alloc_ok s) \<subseteq> {True}" "forks s = map Some ns @ fs" "length ns = length b"
  shows "\<exists>s'. start_processes es s = Inr (True, s') \<and> started s' = started s @ zip b (map Suc ns) \<and>
    remaining s' = r \<and> pending_finish s' = of_nat (length (filter is_one_shot_entry b))"
proof -
  obtain e es' where e: "es = e # es'" using es(1) by (cases es) auto
  let ?s0 = "s\<lparr>pending_finish := 0\<rparr>"
  have br: "batch_from es (order e) False = (b, r)" using batch_from_spec [OF es(2,1)] es(3) e by simp
  obtain s1 where s1: "start_loop es (order e) False ?s0 = Inr (True, list_ex is_one_shot_entry b, r, s1)"
      "started s1 = started s @ zip b (map Suc ns)" "pending_finish s1 = of_nat (length (filter is_one_shot_entry b))"
    using start_loop_batch [of ?s0 ns fs es "order e" False] answers br by (auto simp: started_def)
  let ?s2 = "s1\<lparr>remaining := r\<rparr>"
  have "settles (start_loop es (order e) False ?s0) (\<lambda>(_, _, _, s'). struct_inv s')"
    using inv by (intro settles_mono [OF start_loop_keeps]) auto
  then have inv2: "struct_inv ?s2" using s1(1) by simp
  obtain mt s3 where arm: "mainloop_add_timeout TIMEOUT_ONE_SHOT one_shot_timeout_fn ?s2 = Inr (mt, s3)" "loop_frame ?s2 s3"
    using mainloop_add_timeout_ok [of ?s2 TIMEOUT_ONE_SHOT one_shot_timeout_fn] inv2
    by (auto simp: struct_inv_unfold TIMEOUT_ONE_SHOT_def)
  have "same_init ?s2 s3" using init_frame(1) [OF arm(2)] .
  with s1 arm e show ?thesis
    by (cases "list_ex is_one_shot_entry b")
      (auto simp: start_processes_def arm_one_shot_def Let_def same_init_def started_def)
qed

section \<open>Results\<close>

text \<open>C9: on a sorted list, with memory for the processes and forks that succeed, the entry-by-entry
  loop of \<open>start_processes\<close> is equivalent to the reference: it starts exactly the entries up to the
  order of the first one-shot entry, in the order of the list and each with the process number of its
  fork, leaves the others in \<open>remaining\<close> and counts the one-shot processes it has to wait for.\<close>

theorem start_processes_starts_batch:
  assumes "struct_inv s" "es \<noteq> []" "sorted (map order es)" "batch_spec es = (b, r)"
    and "set (alloc_ok s) \<subseteq> {True}" "forks s = map Some ns @ fs" "length ns = length b"
  shows "\<exists>s'. start_processes es s = Inr (True, s') \<and> started s' = started s @ zip b (map Suc ns) \<and>
    remaining s' = r \<and> pending_finish s' = of_nat (length (filter is_one_shot_entry b))"
  using assms by (rule start_processes_batch)

theorem start_processes_starts_batch_witness:
  "\<exists>s'. start_processes (map (\<lambda>(ty, n). sample_entry ty n ''/bin/x'') [(SERVICE, 0), (SERVICE, 1), (ONE_SHOT, 1), (SERVICE, 2)])
      (sample_init\<lparr>forks := [Some 10, Some 11, Some 12]\<rparr>) = Inr (True, s') \<and>
    map snd (started s') = [6, 7, 11, 12, 13] \<and> map order (remaining s') = [2] \<and> pending_finish s' = 1"
proof -
  let ?es = "map (\<lambda>(ty, n). sample_entry ty n ''/bin/x'') [(SERVICE, 0), (SERVICE, 1), (ONE_SHOT, 1), (SERVICE, 2)]"
  let ?s = "sample_init\<lparr>forks := [Some 10, Some 11, Some 12]\<rparr>"
  have inv: "struct_inv ?s" using sample_init_inv by (simp add: init_inv_def)
  have st: "map snd (started ?s) = [6, 7]" "alloc_ok ?s = []" "forks ?s = map Some [10, 11, 12] @ []"
    by (simp_all add: started_def sample_defs)
  have b: "batch_spec ?es = (take 3 ?es, drop 3 ?es)" "sorted (map order ?es)"
    by (simp_all add: batch_spec_def sample_entry_def is_one_shot_entry_def)
  have one: "length (filter is_one_shot_entry (take 3 ?es)) = 1"
    by (simp add: sample_entry_def is_one_shot_entry_def)
  obtain s' where "start_processes ?es ?s = Inr (True, s')" "started s' = started ?s @ zip (take 3 ?es) (map Suc [10, 11, 12])"
      "remaining s' = drop 3 ?es" "pending_finish s' = of_nat (length (filter is_one_shot_entry (take 3 ?es)))"
    using start_processes_starts_batch [OF inv _ b(2,1) _ st(3)] st(2) by auto
  with st(1) one show ?thesis by (intro exI [of _ s']) (simp add: sample_entry_def)
qed

end
