(* ===== verification/Shutdown.thy ===== *)
theory Shutdown
  imports Runs
begin

text \<open>
  What single events do, exactly: a shutdown signal (\<open>handle_shutdown_cmd\<close> in \<open>src/main.c\<close>),
  and the crash of safe processes among any number of children that ended, followed through the pipe into the placeholder
  (\<open>handle_child_exit\<close>, \<open>start_safe_mode\<close>, and \<open>safe_mode_wait\<close> in
  \<open>src/safe-mode.c\<close>). Then what happens outside the orderly runs of \<open>Runs\<close>: several events
  in one batch, and a shutdown after the safe mode process has ended.
\<close>

section \<open>Shutdown signals\<close>

lemma cancel_one_shot_exact:
  assumes "struct_inv s"
  shows "\<exists>s'. cancel_one_shot_timeout s = Inr s' \<and> struct_inv s' \<and> same_init s s' \<and> one_shot_timeout s' = None \<and>
    kills s' = kills s \<and> (plentiful s \<longrightarrow> plentiful s')"
proof (cases "one_shot_timeout s")
  case None
  with assms show ?thesis by (simp add: cancel_one_shot_timeout_def same_init_def)
next
  case (Some a)
  obtain obj where "objects s a = Some obj" "cb_type obj = CALLBACK_TIMEOUT"
    using struct_inv_refers(2) [OF assms] Some refers_object by metis
  then obtain s1 where s1: "remove_object a s = Inr s1" "loop_frame s s1"
    using remove_object_ok [of s a] assms by (auto simp: struct_inv_unfold)
  have "kills s1 = kills s" using loop_frame_eq [OF s1(2), of kills] by simp
  moreover have "plentiful s1 = plentiful s"
    using s1(1) by (auto simp: remove_object_def remove_fd_def split: option.splits if_splits)
  moreover have "plentiful (s1\<lparr>one_shot_timeout := None\<rparr>) = plentiful s1" by (simp add: plentiful_def)
  ultimately show ?thesis using s1(1) Some cancel_one_shot_struct [OF assms]
    by (auto simp: cancel_one_shot_timeout_def mainloop_remove_timeout_def)
qed

text \<open>The processes a signal is sent to: all but the safe mode one.\<close>

definition signalled :: "'a init_state_scheme \<Rightarrow> nat list" where
  "signalled s = map pid (filter (\<lambda>p. entry_type (config p) \<noteq> SAFE_MODE) (running_processes s))"

lemma term_running_process_exact:
  assumes "struct_inv s"
  shows "\<exists>s'. term_running_process s = Inr s' \<and> struct_inv s' \<and> same_init s s' \<and>
    one_shot_timeout s' = one_shot_timeout s \<and>
    kills s' = kills s @ map (\<lambda>n. (n, SIGTERM)) (signalled s) \<and>
    (case kill_timeout s' of
       None \<Rightarrow> \<not> plentiful s
     | Some a \<Rightarrow> \<exists>obj. objects s' a = Some obj \<and> cb_type obj = CALLBACK_TIMEOUT \<and> cb_fn obj = kill_timeout_fn \<and>
         interest s' (cb_fd obj) = Some a \<and> fst (period obj) * 1000 + snd (period obj) div 1000000 = 3000)"
proof -
  let ?s = "signal_all SIGTERM s"
  have inv: "struct_inv ?s" using assms by (simp add: signal_all_def)
  obtain r s1 where add: "mainloop_add_timeout TIMEOUT_TERM kill_timeout_fn ?s = Inr (r, s1)" "loop_frame ?s s1"
      "case r of None \<Rightarrow> objects s1 = objects ?s
       | Some a \<Rightarrow> objects ?s a = None \<and>
         (\<exists>obj. objects s1 = (objects ?s)(a \<mapsto> obj) \<and> cb_type obj = CALLBACK_TIMEOUT \<and> cb_fn obj = kill_timeout_fn \<and>
            interest s1 (cb_fd obj) = Some a \<and>
            fst (period obj) * 1000 + snd (period obj) div 1000000 = unat TIMEOUT_TERM)"
    using mainloop_add_timeout_ok [of ?s TIMEOUT_TERM kill_timeout_fn] inv
    by (auto simp: struct_inv_unfold TIMEOUT_TERM_def)
  have "mainloop_ok ?s" "TIMEOUT_TERM \<noteq> 0" "epollfd ?s \<noteq> None" using inv by (simp_all add: struct_inv_unfold TIMEOUT_TERM_def)
  from mainloop_add_timeout_exact [OF this add(1)] have none: "\<not> plentiful s" if "r = None"
    using that by (simp add: plentiful_def signal_all_def)
  have "settles (mainloop_add_timeout TIMEOUT_TERM kill_timeout_fn ?s)
      (\<lambda>(r, s'). struct_inv s' \<and> same_init ?s s' \<and> refers s' r kill_timeout_fn)"
    using inv by (intro add_timeout_struct) (simp_all add: TIMEOUT_TERM_def timeout_fns_def)
  then have "struct_inv s1" "same_init ?s s1" "refers s1 r kill_timeout_fn" using add(1) by simp_all
  moreover have "kills s1 = kills ?s" using loop_frame_eq [OF add(2), of kills] by simp
  moreover have "kills ?s = kills s @ map (\<lambda>n. (n, SIGTERM)) (signalled s)"
    by (simp add: signal_all_def signalled_def comp_def)
  moreover have "same_init s ?s" "one_shot_timeout ?s = one_shot_timeout s" by (simp_all add: same_init_def signal_all_def)
  moreover have "unat TIMEOUT_TERM = 3000" by (simp add: TIMEOUT_TERM_def)
  ultimately show ?thesis using add(1,3) none init_frame(3) [OF add(2)]
    by (cases r) (auto simp: term_running_process_def set_kill_timeout same_init_def)
qed

lemma handle_shutdown_cmd_exact:
  assumes "init_inv s" "\<not> should_exit s"
  shows "\<exists>s'. handle_shutdown_cmd c s = Inr s' \<and> init_inv s' \<and> current_stage s' = STAGE_TERMINATION \<and>
    shutdown_command s' = c \<and> remaining s' = [] \<and> pending_finish s' = 0 \<and> one_shot_timeout s' = None \<and>
    post_iteration_callback s' = Some stage_maintenance_fn \<and> running_processes s' = running_processes s \<and>
    kills s' = kills s @ map (\<lambda>n. (n, SIGTERM)) (signalled s) \<and>
    (case kill_timeout s' of
       None \<Rightarrow> \<not> plentiful s
     | Some a \<Rightarrow> \<exists>obj. objects s' a = Some obj \<and> cb_type obj = CALLBACK_TIMEOUT \<and> cb_fn obj = kill_timeout_fn \<and>
         interest s' (cb_fd obj) = Some a \<and> fst (period obj) * 1000 + snd (period obj) div 1000000 = 3000)"
proof -
  let ?s0 = "s\<lparr>remaining := [], pending_finish := 0\<rparr>"
  have "struct_inv ?s0" using assms(1) by (simp add: init_inv_def)
  from cancel_one_shot_exact [OF this] obtain s1 where s1: "cancel_one_shot_timeout ?s0 = Inr s1" "struct_inv s1"
      "same_init ?s0 s1" "one_shot_timeout s1 = None" "kills s1 = kills s" "plentiful s \<longrightarrow> plentiful s1"
    by (auto simp: plentiful_def)
  let ?s1 = "s1\<lparr>current_stage := STAGE_TERMINATION\<rparr>"
  have "struct_inv ?s1" using s1(2) by simp
  from term_running_process_exact [OF this] obtain s2 where s2: "term_running_process ?s1 = Inr s2" "same_init ?s1 s2"
      "one_shot_timeout s2 = None" "kills s2 = kills s @ map (\<lambda>n. (n, SIGTERM)) (signalled ?s1)"
      "case kill_timeout s2 of
         None \<Rightarrow> \<not> plentiful ?s1
       | Some a \<Rightarrow> \<exists>obj. objects s2 a = Some obj \<and> cb_type obj = CALLBACK_TIMEOUT \<and> cb_fn obj = kill_timeout_fn \<and>
           interest s2 (cb_fd obj) = Some a \<and> fst (period obj) * 1000 + snd (period obj) div 1000000 = 3000"
    using s1(4,5) by auto
  have "signalled ?s1 = signalled s" using s1(3) by (simp add: signalled_def same_init_def)
  moreover have "settles (handle_shutdown_cmd c s) init_inv"
    using handle_shutdown_cmd_keeps [OF assms, of c] by (elim settles_mono) simp
  moreover have "plentiful ?s1 = plentiful s1" by (simp add: plentiful_def)
  ultimately show ?thesis using s1(1,3,6) s2
    by (cases "kill_timeout s2") (auto simp: handle_shutdown_cmd_def mainloop_set_post_iteration_callback_def same_init_def)
qed

section \<open>A crash\<close>

lemma find_in_None: "find_in P xs = None \<longleftrightarrow> (\<forall>x\<in>set xs. \<not> P x)"
  by (induction xs) auto

text \<open>
  What one call of \<open>handle_child_exit\<close> finds: \<open>rs\<close> are the children \<open>waitpid\<close> reports, with
  their statuses. The crashes among them are the safe processes that ended abnormally; the signal that is
  reported is the last one any of them died of, 0 if they all exited by themselves.
\<close>

definition crashes :: "'a init_state_scheme \<Rightarrow> (nat \<times> wait_status) list \<Rightarrow> (process \<times> wait_status) list" where
  "crashes s rs = List.map_filter (\<lambda>(n, st). case find_process n s of
     None \<Rightarrow> None
   | Some p \<Rightarrow> if is_safe_entry (config p) \<and> abnormal st then Some (p, st) else None) rs"

fun later_signal :: "32 word \<Rightarrow> (process \<times> wait_status) list \<Rightarrow> 32 word" where
  "later_signal sig [] = sig"
| "later_signal sig ((p, st) # cs) = later_signal (case st of Signaled n \<Rightarrow> of_nat n | Exited _ \<Rightarrow> sig) cs"

definition reported_signal :: "(process \<times> wait_status) list \<Rightarrow> 32 word" where
  "reported_signal cs = later_signal 0 cs"

definition reported_name :: "(process \<times> wait_status) list \<Rightarrow> string" where
  "reported_name cs = process_name (config (fst (last cs)))"

definition reaps :: "(nat \<times> wait_status) list \<Rightarrow> wait_answer list" where
  "reaps rs = map (\<lambda>(n, st). Reaped n st) rs"

lemma start_safe_mode_exact:
  assumes "find_safe_mode_process s \<noteq> None" "safe_mode_pipe_fd s \<noteq> 0" "pipe_writes s = as # rest"
    and "list_all (\<lambda>a. a \<noteq> Write_Error \<and> a \<noteq> Takes 0) as"
  shows "\<exists>bytes. execute_safe_mode (int (safe_mode_pipe_fd s)) name sig as = Inr (True, bytes) \<and>
    start_safe_mode name sig s = Inr (s\<lparr>pipe_writes := rest, sent := sent s @ [bytes], safe_mode_on := True\<rparr>)"
proof -
  let ?data = "info_bytes \<lparr>info_name = copy_name name, info_signal = sig\<rparr>"
  obtain bytes where "write_loop ?data 0 as [] = (True, bytes)"
    using write_loop_progress [OF assms(4), of 0 ?data "[]"] by (cases "write_loop ?data 0 as []") auto
  with assms(1-3) show ?thesis by (auto simp: start_safe_mode_def execute_safe_mode_def)
qed

lemma find_in_unique:
  assumes "distinct (map pid ps)" "p \<in> set ps"
  shows "find_in (\<lambda>x. pid x = pid p) ps = Some p"
  using assms by (induction ps) auto

lemma find_in_filter: "(\<And>x. P x \<Longrightarrow> Q x) \<Longrightarrow> find_in P (filter Q xs) = find_in P xs"
  by (induction xs) auto

lemma crashes_Cons:
  "crashes s ((n, st) # rs) = (case find_process n s of
     None \<Rightarrow> crashes s rs
   | Some p \<Rightarrow> if is_safe_entry (config p) \<and> abnormal st then (p, st) # crashes s rs else crashes s rs)"
  by (auto simp: crashes_def split: option.split)

text \<open>What is noted of a list of crashes, none of them the safe mode process.\<close>

definition noted :: "reaped \<Rightarrow> (process \<times> wait_status) list \<Rightarrow> reaped" where
  "noted acc cs = acc\<lparr>deceased := (if cs = [] then deceased acc else Some (reported_name cs)),
     deceased_signal := later_signal (deceased_signal acc) cs\<rparr>"

lemma note_death_noted:
  assumes "is_safe_entry (config p) \<and> abnormal st \<longrightarrow> entry_type (config p) \<noteq> SAFE_MODE"
  shows "\<exists>acc'. note_death p st b acc = Inr acc' \<and>
    noted acc' cs = noted acc (if is_safe_entry (config p) \<and> abnormal st then (p, st) # cs else cs)"
  using assms by (cases st) (auto simp: note_death_def noted_def reported_name_def)

text \<open>Reaping one child: it is the one with that process number, and it leaves the list.\<close>

lemma reap_step:
  assumes d: "distinct (map p_addr (running_processes s))" "distinct (map pid (running_processes s))"
    and p: "find_process n s = Some p"
  shows "remove_process (p_addr p) (running_processes (count_finished p s)) =
    Inr (filter (\<lambda>x. pid x \<noteq> n) (running_processes s))"
proof -
  have pm: "p \<in> set (running_processes s)" "pid p = n" using p by (auto simp: find_process_def dest: find_in_set)
  have "p_addr x \<noteq> p_addr p \<longleftrightarrow> pid x \<noteq> n" if "x \<in> set (running_processes s)" for x
    using d pm that by (metis distinct_map inj_on_def)
  then have "filter (\<lambda>x. p_addr x \<noteq> p_addr p) (running_processes s) = filter (\<lambda>x. pid x \<noteq> n) (running_processes s)"
    by (intro filter_cong) auto
  with d(1) pm(1) show ?thesis by (simp add: remove_process_eq count_finished_def)
qed

lemma crashes_other:
  assumes "running_processes s' = filter (\<lambda>x. pid x \<noteq> n) (running_processes s)" "n \<notin> fst ` set rs"
  shows "crashes s' rs = crashes s rs"
proof -
  have "find_process m s' = find_process m s" if "m \<noteq> n" for m
    using that unfolding find_process_def assms(1) by (intro find_in_filter) auto
  then show ?thesis using assms(2) by (induction rs) (simp add: crashes_def, auto simp: crashes_Cons split: option.split)
qed

lemma reap_all:
  assumes "distinct (map p_addr (running_processes s))" "distinct (map pid (running_processes s))" "distinct (map fst rs)"
    and "\<forall>(p, st) \<in> set (crashes s rs). entry_type (config p) \<noteq> SAFE_MODE"
  shows "\<exists>s'. reap_loop (reaps rs @ No_Child # ws) acc s = Inr (noted acc (crashes s rs), s') \<and>
    running_processes s' = filter (\<lambda>x. pid x \<notin> fst ` set rs) (running_processes s) \<and>
    sent s' = sent s \<and> pipe_writes s' = pipe_writes s \<and> safe_mode_pipe_fd s' = safe_mode_pipe_fd s"
  using assms
proof (induction rs arbitrary: acc s)
  case Nil
  then show ?case by (simp add: reaps_def crashes_def noted_def)
next
  case (Cons r rs)
  obtain n st where r: "r = (n, st)" by (cases r)
  have loop: "reaps (r # rs) @ No_Child # ws = Reaped n st # reaps rs @ No_Child # ws" by (simp add: reaps_def r)
  show ?case
  proof (cases "find_process n s")
    case None
    then have "filter (\<lambda>x. pid x \<notin> fst ` set (r # rs)) (running_processes s) =
        filter (\<lambda>x. pid x \<notin> fst ` set rs) (running_processes s)"
      by (intro filter_cong) (auto simp: find_process_def find_in_None r)
    with Cons None r show ?thesis unfolding loop by (simp add: crashes_Cons)
  next
    case (Some p)
    let ?ps = "filter (\<lambda>x. pid x \<noteq> n) (running_processes s)"
    let ?s1 = "(count_finished p s)\<lparr>running_processes := ?ps\<rparr>"
    have cf: "sent ?s1 = sent s" "pipe_writes ?s1 = pipe_writes s" "safe_mode_pipe_fd ?s1 = safe_mode_pipe_fd s"
      by (simp_all add: count_finished_def)
    have same: "crashes ?s1 rs = crashes s rs" using Cons.prems(3) r by (intro crashes_other [of _ n]) auto
    have cr: "crashes s (r # rs) = (if is_safe_entry (config p) \<and> abnormal st then (p, st) # crashes s rs else crashes s rs)"
      by (simp add: crashes_Cons r Some)
    then obtain acc' where acc': "note_death p st (safe_mode_on s) acc = Inr acc'"
        "noted acc' (crashes s rs) = noted acc (crashes s (r # rs))"
      using note_death_noted [of p st "safe_mode_on s" acc "crashes s rs"] Cons.prems(4) by (auto split: if_splits)
    have "distinct (map p_addr ?ps)" "distinct (map pid ?ps)" using Cons.prems(1,2) by (simp_all add: distinct_map_filter)
    then obtain s' where s': "reap_loop (reaps rs @ No_Child # ws) acc' ?s1 = Inr (noted acc' (crashes s rs), s')"
        "running_processes s' = filter (\<lambda>x. pid x \<notin> fst ` set rs) ?ps"
        "sent s' = sent s" "pipe_writes s' = pipe_writes s" "safe_mode_pipe_fd s' = safe_mode_pipe_fd s"
      using Cons.IH [of ?s1 acc'] Cons.prems(3,4) same cr cf by (auto split: if_splits)
    have "filter (\<lambda>x. pid x \<notin> fst ` set rs) ?ps = filter (\<lambda>x. pid x \<notin> fst ` set (r # rs)) (running_processes s)"
      by (auto simp: r intro: filter_cong)
    with s' acc' reap_step [OF Cons.prems(1,2) Some] Some show ?thesis unfolding loop by (simp add: Let_def)
  qed
qed

lemma crash_hands_over:
  assumes inv: "struct_inv s" and pids: "distinct (map pid (running_processes s))" "distinct (map fst rs)"
    and w: "waits s = reaps rs @ No_Child # ws"
    and cs: "crashes s rs \<noteq> []" "\<forall>(p, st) \<in> set (crashes s rs). entry_type (config p) \<noteq> SAFE_MODE"
    and q: "find_safe_mode_process s = Some q" "pid q \<notin> fst ` set rs"
    and pipe: "pipe_writes s = as # rest" "list_all (\<lambda>a. a \<noteq> Write_Error \<and> a \<noteq> Takes 0) as"
  shows "\<exists>s' bytes. handle_child_exit s = Inr s' \<and> safe_mode_on s' \<and> sent s' = sent s @ [bytes] \<and>
    running_processes s' = filter (\<lambda>x. pid x \<notin> fst ` set rs) (running_processes s) \<and>
    execute_safe_mode (int (safe_mode_pipe_fd s)) (reported_name (crashes s rs)) (reported_signal (crashes s rs)) as =
      Inr (True, bytes)"
proof -
  let ?cs = "crashes s rs"
  have d: "distinct (map p_addr (running_processes s))" and fd: "safe_mode_pipe_fd s \<noteq> 0"
    using inv by (auto simp: struct_inv_unfold)
  obtain s1 where s1: "reap_loop (waits s) no_deaths s = Inr (noted no_deaths ?cs, s1)"
      "running_processes s1 = filter (\<lambda>x. pid x \<notin> fst ` set rs) (running_processes s)"
      "sent s1 = sent s" "pipe_writes s1 = pipe_writes s" "safe_mode_pipe_fd s1 = safe_mode_pipe_fd s"
    using reap_all [OF d pids cs(2), of ws no_deaths] w by auto
  have "q \<in> set (running_processes s)" "entry_type (config q) = SAFE_MODE"
    using q(1) by (auto simp: find_safe_mode_process_def dest: find_in_set)
  with q(2) s1(2) have "find_safe_mode_process s1 \<noteq> None" by (auto simp: find_safe_mode_process_def find_in_None)
  with start_safe_mode_exact [of s1 as rest "reported_name ?cs" "reported_signal ?cs"] fd pipe s1(3-5)
  obtain bytes where "execute_safe_mode (int (safe_mode_pipe_fd s)) (reported_name ?cs) (reported_signal ?cs) as = Inr (True, bytes)"
    "start_safe_mode (reported_name ?cs) (reported_signal ?cs) s1 =
       Inr (s1\<lparr>pipe_writes := rest, sent := sent s @ [bytes], safe_mode_on := True\<rparr>)" by auto
  with s1(1,2) cs(1) show ?thesis
    by (auto simp: handle_child_exit_def noted_def no_deaths_def reported_signal_def)
qed

section \<open>Results\<close>

text \<open>C10: a shutdown signal. In every state with the invariant \<open>handle_shutdown_cmd\<close> returns (no
  panic, no failed assertion): SIGTERM has gone to every running process but the safe mode one, once
  each and in the order of the list; the one-shot timeout and what was still to be started are
  dropped; the command is stored, and \<open>stage_maintenance\<close> will run after the event in
  STAGE_TERMINATION. The kill timeout is armed: it is a live timeout with the callback
  \<open>kill_timeout_cb\<close>, registered with the event loop and set to three seconds, unless an allocation or
  a system call failed.\<close>

theorem handle_shutdown_cmd_correct:
  assumes "init_inv s" "\<not> should_exit s"
  shows "\<exists>s'. handle_shutdown_cmd c s = Inr s' \<and> init_inv s' \<and> current_stage s' = STAGE_TERMINATION \<and>
    shutdown_command s' = c \<and> remaining s' = [] \<and> pending_finish s' = 0 \<and> one_shot_timeout s' = None \<and>
    post_iteration_callback s' = Some stage_maintenance_fn \<and> running_processes s' = running_processes s \<and>
    kills s' = kills s @ map (\<lambda>n. (n, SIGTERM)) (signalled s) \<and>
    (case kill_timeout s' of
       None \<Rightarrow> \<not> plentiful s
     | Some a \<Rightarrow> \<exists>obj. objects s' a = Some obj \<and> cb_type obj = CALLBACK_TIMEOUT \<and> cb_fn obj = kill_timeout_fn \<and>
         interest s' (cb_fd obj) = Some a \<and> fst (period obj) * 1000 + snd (period obj) div 1000000 = 3000)"
  using assms by (rule handle_shutdown_cmd_exact)

theorem handle_shutdown_cmd_correct_witness:
  "\<exists>s' a obj. handle_shutdown_cmd RB_POWER_OFF sample_init = Inr s' \<and> init_inv s' \<and>
     shutdown_command s' = RB_POWER_OFF \<and> kills s' = [(7, 15)] \<and> kill_timeout s' = Some a \<and>
     objects s' a = Some obj \<and> cb_fn obj = kill_timeout_fn"
proof -
  have "\<not> should_exit sample_init" "kills sample_init = []" "signalled sample_init = [7]" "plentiful sample_init"
    by (simp_all add: sample_defs signalled_def plentiful_def)
  with handle_shutdown_cmd_correct [OF sample_init_inv this(1), of RB_POWER_OFF] show ?thesis
    by (auto simp: SIGTERM_def split: option.splits)
qed

text \<open>C6: from crash to safe mode. When \<open>waitpid\<close> reports any number of children, among them safe
  processes that died of a signal or exited with a failure, the placeholder is not one of them, its
  command line can be parsed and the pipe takes the bytes, \<open>handle_child_exit\<close> takes all of them off the list and enters safe mode; and
  the placeholder, reading these bytes in any pieces, executes the safe mode command with the name of
  the safe process that was reaped last (cut to 1023 characters) for \<open><proc>\<close> and, for
  \<open><exitcode>\<close>, the last signal any of these safe processes died of, or 0 if they all exited by
  themselves, whatever their exit codes were. So the signal need not be that of the process named. The
  process numbers on the list, and those reported, are distinct, as the kernel guarantees for children
  that have not been waited for.\<close>

theorem crash_reaches_safe_mode:
  assumes "struct_inv s" "distinct (map pid (running_processes s))" "distinct (map fst rs)"
    and "waits s = reaps rs @ No_Child # ws"
    and "crashes s rs \<noteq> []" "\<forall>(p, st) \<in> set (crashes s rs). entry_type (config p) \<noteq> SAFE_MODE"
    and "find_safe_mode_process s = Some q" "pid q \<notin> fst ` set rs"
    and "pipe_writes s = as # rest" "list_all (\<lambda>a. a \<noteq> Write_Error \<and> a \<noteq> Takes 0) as"
    and "NUL \<notin> set (process_name (config q))" "length (process_name (config q)) + 1 < 2 ^ 64"
    and "cmdline_spec (process_name (config q)) = Some (es, args1)"
  shows "\<exists>s' bytes. handle_child_exit s = Inr s' \<and> safe_mode_on s' \<and> sent s' = sent s @ [bytes] \<and>
    running_processes s' = filter (\<lambda>x. pid x \<notin> fst ` set rs) (running_processes s) \<and>
    (\<forall>reads. undisturbed reads \<longrightarrow> delivered reads = bytes \<longrightarrow>
       (\<exists>c b. safe_mode_wait (process_name (config q)) reads True True = Inr (Execs c) \<and> freeable c = Some b \<and>
          denotes b ENV_MAX (env c) es \<and>
          denotes b ARGS_MAX (args c) (map (replace_tag (take 1023 (cstring (reported_name (crashes s rs))))
            (show_int (reported_signal (crashes s rs)))) args1)))"
  using crash_hands_over [OF assms(1-10)] handover [OF _ _ _ assms(11-13)] by blast

text \<open>
  The example: two safe services, the first killed by signal 11, the second with exit code 3. Safe mode
  is told the name of the second and the signal of the first.
\<close>

definition crash_state :: init_state where
  "crash_state = sample_init\<lparr>running_processes :=
       [\<lparr>p_addr = 3, config = sample_entry SAFE_SERVICE 0 ''/bin/b'', pid = 8\<rparr>,
        \<lparr>p_addr = 2, config = sample_entry SAFE_SERVICE 0 ''/bin/a'', pid = 7\<rparr>,
        \<lparr>p_addr = 1, config = sample_entry SAFE_MODE (- 1) ''/bin/s <proc> <exitcode>'', pid = 6\<rparr>],
     waits := [Reaped 7 (Signaled 11), Reaped 8 (Exited 3), No_Child], pipe_writes := [[Takes 1000, Write_EINTR]]\<rparr>"

theorem crash_reaches_safe_mode_witness:
  "\<exists>s' bytes. handle_child_exit crash_state = Inr s' \<and> sent s' = [bytes] \<and> map pid (running_processes s') = [6] \<and>
     (\<forall>reads. undisturbed reads \<longrightarrow> delivered reads = bytes \<longrightarrow>
        (\<exists>c b. safe_mode_wait ''/bin/s <proc> <exitcode>'' reads True True = Inr (Execs c) \<and> freeable c = Some b \<and>
           denotes b ARGS_MAX (args c) [''/bin/s'', ''/bin/b'', ''11'']))"
proof -
  let ?cmd = "''/bin/s <proc> <exitcode>''" and ?args = "[''/bin/s'', ''<proc>'', ''<exitcode>'']"
  let ?rs = "[(7 :: nat, Signaled 11), (8, Exited 3)]"
  let ?q = "\<lparr>p_addr = 1, config = sample_entry SAFE_MODE (- 1) ?cmd, pid = 6\<rparr>"
  have inv: "struct_inv crash_state"
    using sample_init_inv
    by (simp add: crash_state_def init_inv_def struct_inv_unfold mainloop_ok_def quiet_def typed_def refers_def handler_live_def)
      (simp add: sample_init_def)
  have w: "waits crash_state = reaps ?rs @ No_Child # []" "pipe_writes crash_state = [Takes 1000, Write_EINTR] # []"
    by (simp_all add: crash_state_def reaps_def)
  have pids: "distinct (map pid (running_processes crash_state))" "distinct (map fst ?rs)" by (simp_all add: crash_state_def)
  have q: "find_safe_mode_process crash_state = Some ?q" "pid ?q \<notin> fst ` set ?rs"
    by (simp_all add: crash_state_def find_safe_mode_process_def sample_entry_def)
  have cs: "crashes crash_state ?rs \<noteq> []" "\<forall>(p, st) \<in> set (crashes crash_state ?rs). entry_type (config p) \<noteq> SAFE_MODE"
    by code_simp+
  have cmd: "NUL \<notin> set (process_name (config ?q))" "length (process_name (config ?q)) + 1 < 2 ^ 64"
    by (simp_all add: sample_entry_def)
  have "cmdline_spec ?cmd = Some ([], ?args)" by code_simp
  then have spec: "cmdline_spec (process_name (config ?q)) = Some ([], ?args)" by (simp add: sample_entry_def)
  have wr: "list_all (\<lambda>a. a \<noteq> Write_Error \<and> a \<noteq> Takes 0) [Takes 1000, Write_EINTR]" by simp
  have args: "map (replace_tag (take 1023 (cstring (reported_name (crashes crash_state ?rs))))
      (show_int (reported_signal (crashes crash_state ?rs)))) ?args = [''/bin/s'', ''/bin/b'', ''11'']" by code_simp
  have name: "process_name (config ?q) = ?cmd" by (simp add: sample_entry_def)
  have left: "map pid (filter (\<lambda>x. pid x \<notin> fst ` set ?rs) (running_processes crash_state)) = [6]" "sent crash_state = []"
    by (simp_all add: crash_state_def sample_init_def)
  obtain s' bytes where "handle_child_exit crash_state = Inr s'" "sent s' = sent crash_state @ [bytes]"
      "running_processes s' = filter (\<lambda>x. pid x \<notin> fst ` set ?rs) (running_processes crash_state)"
      "\<forall>reads. undisturbed reads \<longrightarrow> delivered reads = bytes \<longrightarrow>
        (\<exists>c b. safe_mode_wait ?cmd reads True True = Inr (Execs c) \<and> freeable c = Some b \<and>
           denotes b ARGS_MAX (args c) [''/bin/s'', ''/bin/b'', ''11''])"
    using crash_reaches_safe_mode [OF inv pids w(1) cs q w(2) wr cmd spec, unfolded args, unfolded name] by blast
  with left show ?thesis by auto
qed

section \<open>Outside the orderly runs\<close>

text \<open>
  A state in which init terminates its processes: a one-shot process is left beside the placeholder,
  and the object at address 3 is the timeout given.
\<close>

definition ending_state :: "fn_ptr \<Rightarrow> init_state" where
  "ending_state fn = sample_init\<lparr>current_stage := STAGE_TERMINATION, remaining := [], pending_finish := 0,
     one_shot_timeout := None, objects := [0 \<mapsto> signal_object, 3 \<mapsto> one_shot_object\<lparr>cb_fn := fn\<rparr>],
     kill_timeout := (if fn = kill_timeout_fn then Some 3 else None),
     watchdog_timeout := (if fn = watchdog_feed_fn then Some 3 else None)\<rparr>"

lemma ending_state_inv:
  assumes "fn \<in> {kill_timeout_fn, watchdog_feed_fn}"
  shows "init_inv (ending_state fn)"
proof -
  have "mainloop_ok (ending_state fn)" "typed (ending_state fn)"
    using assms by (auto simp: ending_state_def sample_defs mainloop_ok_def typed_def timeout_fns_def split: if_splits)
  moreover have "stage_ok (ending_state fn)" by (rule stage_ok_other) (simp add: ending_state_def)
  ultimately show ?thesis using assms
    by (auto simp: ending_state_def sample_defs init_inv_def struct_inv_unfold schedule_inv_def refers_def
        quiet_def tables_ok_def handler_live_def)
qed

definition timeout_event :: epoll_event where
  "timeout_event = \<lparr>ready_fd = 3, data_ptr = 3, read_full = True, ssi_signo = 0\<rparr>"

text \<open>C34: two events in one batch, both registered when \<open>epoll_wait\<close> returned them: the last child
  exits just when the kill timeout expires. Handling the first event removes the timeout
  (\<open>stage_maintenance\<close>), and the loop then reads the type of a freed object for the second.\<close>

theorem batch_uses_freed_timeout:
  "init_inv (ending_state kill_timeout_fn) \<and>
   delivered_by (ending_state kill_timeout_fn) child_event \<and> delivered_by (ending_state kill_timeout_fn) timeout_event \<and>
   handle_events init_callbacks [child_event, timeout_event] (ending_state kill_timeout_fn) = Inl Use_After_Free"
proof -
  have "case handle_events init_callbacks [child_event, timeout_event] (ending_state kill_timeout_fn) of
      Inl f \<Rightarrow> f = Use_After_Free | Inr _ \<Rightarrow> False" by code_simp
  then show ?thesis using ending_state_inv [of kill_timeout_fn]
    by (auto simp: delivered_by_def child_event_def timeout_event_def ending_state_def sample_init_def split: sum.splits)
qed

definition nothing_at_shutdown :: init_state where
  "nothing_at_shutdown = (ending_state watchdog_feed_fn)\<lparr>inittab_entries := sample_tables\<lparr>shutdown_list := []\<rparr>\<rparr>"


definition safe_mode_ended :: init_state where
  "safe_mode_ended = (ending_state kill_timeout_fn)\<lparr>safe_mode_on := True, forks := [Some 8],
     waits := [Reaped 6 (Exited 0), No_Child, Reaped 7 (Signaled 15), No_Child]\<rparr>"

lemma handled_cases:
  "(case m of Inr (Handled s) \<Rightarrow> P s | _ \<Rightarrow> False) \<longleftrightarrow> (\<exists>s. m = Inr (Handled s) \<and> P s)"
  by (auto split: sum.split batch_end.split)

text \<open>C36: the test for the end of the termination counts one process as the safe mode one. When safe
  mode has run and ended, the process that is left may be another: the shutdown processes are then
  started beside it, its exit is counted as one of theirs, and init closes while a shutdown process
  still runs. Every event comes on its own here.\<close>

theorem closes_over_shutdown_process:
  "init_inv safe_mode_ended \<and>
   (\<exists>s1 s2. init_step safe_mode_ended (Some child_event) s1 \<and> init_step s1 (Some child_event) s2 \<and>
     current_stage s2 = STAGE_CLOSE \<and> should_exit s2 \<and> map (entry_type \<circ> config) (running_processes s2) = [SHUTDOWN])"
proof -
  have "case handle_event init_callbacks child_event safe_mode_ended of
      Inr (Handled s1) \<Rightarrow> \<not> should_exit s1 \<and> delivered_by s1 child_event \<and>
        (case handle_event init_callbacks child_event s1 of
           Inr (Handled s2) \<Rightarrow> current_stage s2 = STAGE_CLOSE \<and> should_exit s2 \<and>
             map (entry_type \<circ> config) (running_processes s2) = [SHUTDOWN]
         | _ \<Rightarrow> False)
    | _ \<Rightarrow> False" by code_simp
  then obtain s1 s2 where "handle_event init_callbacks child_event safe_mode_ended = Inr (Handled s1)"
      "\<not> should_exit s1" "delivered_by s1 child_event" "handle_event init_callbacks child_event s1 = Inr (Handled s2)"
      "current_stage s2 = STAGE_CLOSE" "should_exit s2" "map (entry_type \<circ> config) (running_processes s2) = [SHUTDOWN]"
    unfolding handled_cases by (elim exE conjE) (rule that)
  moreover have "\<not> should_exit safe_mode_ended" "delivered_by safe_mode_ended child_event"
    by (simp_all add: safe_mode_ended_def ending_state_def sample_init_def delivered_by_def child_event_def)
  moreover have "init_inv safe_mode_ended" using ending_state_inv [of kill_timeout_fn]
    by (simp add: safe_mode_ended_def init_inv_def schedule_inv_def stage_ok_def)
  ultimately show ?thesis by (intro conjI exI [of _ s1] exI [of _ s2] event) simp_all
qed

end
