(* ===== verification/Log.thy ===== *)
theory Log
  imports Prelude
begin

text \<open>
  The log (\<open>src/log.c\<close>) on a table of file descriptors, as a process sees it: which open file a
  number stands for and whether it is closed on \<open>exec\<close>. A new descriptor is the lowest free number
  below the limit of the process. The calls of the child setup in main.c work on the same table.
\<close>

section \<open>Descriptors\<close>

datatype open_file = Null_Device | Log_Device | Terminal string | File string | Other_File nat

text \<open>
  \<open>log_number\<close> is the variable \<open>fd\<close> of log.c (\<open>None\<close> for -1); \<open>written\<close> are the
  completed writes; \<open>errno_texts\<close> are what \<open>%m\<close> prints, one for each use.
\<close>

record fd_state =
  table :: "nat \<Rightarrow> (open_file \<times> bool) option"
  fd_limit :: nat
  call_ok :: "bool list"
  log_number :: "nat option"
  written :: "(open_file \<times> string) list"
  errno_texts :: "string list"

definition call_answer :: "'a fd_state_scheme \<Rightarrow> bool \<times> 'a fd_state_scheme" where
  "call_answer s = (case pop_ok (call_ok s) of (b, bs) \<Rightarrow> (b, s\<lparr>call_ok := bs\<rparr>))"

text \<open>The lowest free number from \<open>lo\<close> on.\<close>

definition free_from :: "nat \<Rightarrow> 'a fd_state_scheme \<Rightarrow> nat option" where
  "free_from lo s = find (\<lambda>n. table s n = None) [lo..<fd_limit s]"

text \<open>A call that makes a new descriptor for a file, from \<open>lo\<close> on: \<open>open\<close> and \<open>F_DUPFD\<close>.\<close>

definition new_fd :: "nat \<Rightarrow> open_file \<times> bool \<Rightarrow> 'a fd_state_scheme \<Rightarrow> nat option \<times> 'a fd_state_scheme" where
  "new_fd lo f s =
     (case call_answer s of (ok, s1) \<Rightarrow>
        if \<not> ok then (None, s1)
        else case free_from lo s1 of
          None \<Rightarrow> (None, s1)
        | Some n \<Rightarrow> (Some n, s1\<lparr>table := (table s1)(n \<mapsto> f)\<rparr>))"

definition fd_open :: "open_file \<Rightarrow> bool \<Rightarrow> 'a fd_state_scheme \<Rightarrow> nat option \<times> 'a fd_state_scheme" where
  "fd_open f cloexec s = new_fd 0 (f, cloexec) s"

definition fd_close :: "nat \<Rightarrow> 'a fd_state_scheme \<Rightarrow> 'a fd_state_scheme" where
  "fd_close n s = s\<lparr>table := (table s)(n := None)\<rparr>"

text \<open>\<open>fcntl(fd, F_DUPFD, lo)\<close>: a copy, not closed on exec.\<close>

definition fd_dupfd :: "nat \<Rightarrow> nat \<Rightarrow> 'a fd_state_scheme \<Rightarrow> nat option \<times> 'a fd_state_scheme" where
  "fd_dupfd fd lo s = (case table s fd of None \<Rightarrow> (None, s) | Some (f, _) \<Rightarrow> new_fd lo (f, False) s)"

text \<open>\<open>dup2(fd, fd2)\<close>; with equal numbers nothing changes.\<close>

definition fd_dup2 :: "nat \<Rightarrow> nat \<Rightarrow> 'a fd_state_scheme \<Rightarrow> bool \<times> 'a fd_state_scheme" where
  "fd_dup2 fd fd2 s =
     (case table s fd of
        None \<Rightarrow> (False, s)
      | Some (f, _) \<Rightarrow>
          (case call_answer s of (ok, s1) \<Rightarrow>
             if \<not> ok then (False, s1)
             else (True, if fd = fd2 then s1 else s1\<lparr>table := (table s1)(fd2 \<mapsto> (f, False))\<rparr>)))"

text \<open>A \<open>write\<close> goes to whatever file the number stands for; the result is ignored.\<close>

definition fd_write :: "nat \<Rightarrow> string \<Rightarrow> 'a fd_state_scheme \<Rightarrow> 'a fd_state_scheme" where
  "fd_write fd bytes s =
     (case table s fd of
        None \<Rightarrow> s
      | Some (f, _) \<Rightarrow>
          (case call_answer s of (ok, s1) \<Rightarrow> if ok then s1\<lparr>written := written s1 @ [(f, bytes)]\<rparr> else s1))"

section \<open>The log\<close>

definition log_fd :: "'a fd_state_scheme \<Rightarrow> nat option \<times> 'a fd_state_scheme" where
  "log_fd s =
     (case log_number s of
        Some n \<Rightarrow> (Some n, s)
      | None \<Rightarrow> (case fd_open Log_Device True s of (r, s1) \<Rightarrow> (r, s1\<lparr>log_number := r\<rparr>)))"

text \<open>
  \<open>log_message\<close> with the text its format expands to: \<open>vsnprintf\<close> keeps what fits into the
  buffer of 256 bytes.
\<close>

definition LOG_BUFFER :: nat where "LOG_BUFFER = 256"

definition log_message :: "string \<Rightarrow> 'a fd_state_scheme \<Rightarrow> 'a fd_state_scheme" where
  "log_message text s =
     (let buf = take (LOG_BUFFER - 1) (cstring text) in
      case log_fd s of (None, s1) \<Rightarrow> s1 | (Some n, s1) \<Rightarrow> fd_write n buf s1)"

text \<open>What \<open>%m\<close> prints next, and a message that ends in it and a newline.\<close>

definition next_errno :: "'a fd_state_scheme \<Rightarrow> string \<times> 'a fd_state_scheme" where
  "next_errno s = (case errno_texts s of [] \<Rightarrow> ([], s) | e # es \<Rightarrow> (e, s\<lparr>errno_texts := es\<rparr>))"

definition log_errno :: "string \<Rightarrow> 'a fd_state_scheme \<Rightarrow> 'a fd_state_scheme" where
  "log_errno prefix s = (case next_errno s of (e, s1) \<Rightarrow> log_message (prefix @ e @ [newline]) s1)"

section \<open>Lemmas\<close>

text \<open>\<open>fd\<close> of log.c stands for the log device.\<close>

definition log_ok :: "'a fd_state_scheme \<Rightarrow> bool" where
  "log_ok s \<longleftrightarrow> (\<forall>n. log_number s = Some n \<longrightarrow> map_option fst (table s n) = Some Log_Device)"

lemma free_from_Some: "free_from lo s = Some n \<Longrightarrow> lo \<le> n \<and> n < fd_limit s \<and> table s n = None"
  by (auto simp: free_from_def find_Some_iff)

lemma free_from_exists: "lo \<le> n \<Longrightarrow> n < fd_limit s \<Longrightarrow> table s n = None \<Longrightarrow> free_from lo s \<noteq> None"
  by (auto simp: free_from_def find_None_iff)

lemma new_fd_Some:
  assumes "new_fd lo f s = (Some n, s1)"
  shows "lo \<le> n" "n < fd_limit s" "table s n = None" "table s1 = (table s)(n \<mapsto> f)" "log_number s1 = log_number s"
    "fd_limit s1 = fd_limit s"
  using assms
  by (auto simp: new_fd_def call_answer_def split: prod.splits if_splits option.splits dest!: free_from_Some)

lemma new_fd_SomeD:
  "new_fd lo f s = (Some n, s1) \<Longrightarrow> lo \<le> n \<and> table s n = None \<and> table s1 = (table s)(n \<mapsto> f) \<and>
   log_number s1 = log_number s \<and> fd_limit s1 = fd_limit s"
  using new_fd_Some [of lo f s n s1] by simp

lemma new_fd_None: "new_fd lo f s = (None, s1) \<Longrightarrow> table s1 = table s \<and> log_number s1 = log_number s \<and> fd_limit s1 = fd_limit s"
  by (auto simp: new_fd_def call_answer_def split: prod.splits if_splits option.splits)

text \<open>With answers that are all positive and a free number the call succeeds.\<close>

definition willing :: "'a fd_state_scheme \<Rightarrow> bool" where
  "willing s \<longleftrightarrow> set (call_ok s) \<subseteq> {True}"

lemma call_answer_willing: "willing s \<Longrightarrow> \<exists>s1. call_answer s = (True, s1) \<and> willing s1 \<and>
    table s1 = table s \<and> fd_limit s1 = fd_limit s \<and> log_number s1 = log_number s"
  by (cases "call_ok s") (auto simp: call_answer_def willing_def)

lemma new_fd_willing:
  assumes "willing s" "lo \<le> n" "n < fd_limit s" "table s n = None"
  shows "\<exists>m s1. new_fd lo f s = (Some m, s1) \<and> willing s1"
proof -
  obtain s1 where s1: "call_answer s = (True, s1)" "willing s1" "table s1 = table s" "fd_limit s1 = fd_limit s"
    using call_answer_willing [OF assms(1)] by blast
  with assms free_from_exists [of lo n s1] show ?thesis by (auto simp: new_fd_def willing_def)
qed

lemma log_fd_open: "log_number s = Some n \<Longrightarrow> log_fd s = (Some n, s)"
  by (simp add: log_fd_def)

lemma log_fd_opens:
  assumes "log_number s = None" "log_fd s = (Some n, s1)"
  shows "table s n = None" "table s1 = (table s)(n \<mapsto> (Log_Device, True))" "log_number s1 = Some n" "fd_limit s1 = fd_limit s"
proof -
  obtain s2 where "new_fd 0 (Log_Device, True) s = (Some n, s2)" "s1 = s2\<lparr>log_number := Some n\<rparr>"
    using assms by (auto simp: log_fd_def fd_open_def split: prod.splits)
  with new_fd_Some [OF this(1)] show "table s n = None" "table s1 = (table s)(n \<mapsto> (Log_Device, True))"
    "log_number s1 = Some n" "fd_limit s1 = fd_limit s" by simp_all
qed

text \<open>The calls change the fields of this state only.\<close>

definition fd_frame :: "'a fd_state_scheme \<Rightarrow> 'a fd_state_scheme \<Rightarrow> bool" where
  "fd_frame s s' \<longleftrightarrow> s\<lparr>table := table s', call_ok := call_ok s', log_number := log_number s', written := written s',
     errno_texts := errno_texts s'\<rparr> = s'"

lemma fd_frame_refl [simp]: "fd_frame s s"
  by (simp add: fd_frame_def)

lemma fd_frame_eq: "fd_frame s s' \<Longrightarrow> f s' = f (s\<lparr>table := table s', call_ok := call_ok s', log_number := log_number s',
    written := written s', errno_texts := errno_texts s'\<rparr>)"
  by (simp only: fd_frame_def)

lemma fd_frame_trans [trans]:
  assumes "fd_frame s s'" "fd_frame s' s''"
  shows "fd_frame s s''"
proof -
  have "s'\<lparr>table := a, call_ok := b, log_number := c, written := d, errno_texts := e\<rparr> =
      s\<lparr>table := a, call_ok := b, log_number := c, written := d, errno_texts := e\<rparr>" for a b c d e
    by (subst assms(1) [unfolded fd_frame_def, symmetric]) simp
  with assms(2) show ?thesis by (simp only: fd_frame_def)
qed

named_theorems fd_frames \<open>calls that leave the rest of the state alone\<close>

lemma call_answer_frame [fd_frames]: "fd_frame s (snd (call_answer s))"
  by (simp add: call_answer_def fd_frame_def split: prod.split)

lemma new_fd_frame [fd_frames]: "fd_frame s (snd (new_fd lo f s))"
  by (auto simp: new_fd_def call_answer_def fd_frame_def split: prod.split option.split)

lemma fd_close_frame [fd_frames]: "fd_frame s (fd_close n s)"
  by (simp add: fd_close_def fd_frame_def)

lemma fd_dupfd_frame [fd_frames]: "fd_frame s (snd (fd_dupfd fd lo s))"
  by (auto simp: fd_dupfd_def split: option.split intro: fd_frames)

lemma fd_dup2_frame [fd_frames]: "fd_frame s (snd (fd_dup2 fd fd2 s))"
  by (auto simp: fd_dup2_def call_answer_def fd_frame_def split: prod.split option.split)

lemma fd_write_frame [fd_frames]: "fd_frame s (fd_write fd b s)"
  by (auto simp: fd_write_def call_answer_def fd_frame_def split: prod.split option.split)

lemma log_fd_frame [fd_frames]: "fd_frame s (snd (log_fd s))"
proof -
  have "fd_frame s ((snd (new_fd 0 (Log_Device, True) s))\<lparr>log_number := x\<rparr>)" for x
    by (rule fd_frame_trans [OF new_fd_frame [of s 0 "(Log_Device, True)"]]) (simp add: fd_frame_def)
  then show ?thesis by (auto simp: log_fd_def fd_open_def split: option.split prod.split)
qed

lemma log_message_frame [fd_frames]: "fd_frame s (log_message text s)"
  using log_fd_frame [of s]
  by (auto simp: log_message_def Let_def split: prod.split option.split intro: fd_frame_trans [OF _ fd_write_frame])

lemma log_errno_frame [fd_frames]: "fd_frame s (log_errno p s)"
  by (auto simp: log_errno_def next_errno_def fd_frame_def [of s "s\<lparr>errno_texts := _\<rparr>"] split: list.split
      intro: log_message_frame fd_frame_trans [OF _ log_message_frame])

section \<open>Results\<close>

text \<open>C27: a message reaches the log. If the log is open, or can be opened because a descriptor is
  free, and the calls succeed, then \<open>log_message\<close> writes exactly one record to the log device: the
  first 255 characters of the text. (The buffer has 256 bytes with the NUL, so a message of the 256
  characters that the architecture document allows loses its last one.) The log is then open, later
  messages use the same descriptor, and no other descriptor has changed.\<close>

theorem log_message_writes:
  assumes "log_ok s" "willing s" "NUL \<notin> set text" "log_number s = None \<longrightarrow> n < fd_limit s \<and> table s n = None"
  shows "\<exists>k. written (log_message text s) = written s @ [(Log_Device, take 255 text)] \<and>
    log_number (log_message text s) = Some k \<and> map_option fst (table (log_message text s) k) = Some Log_Device \<and>
    (log_number s \<noteq> None \<longrightarrow> log_number s = Some k) \<and> (\<forall>m. m \<noteq> k \<longrightarrow> table (log_message text s) m = table s m)"
proof -
  have whole: "takeWhile (\<lambda>c. c \<noteq> NUL) text = text" using assms(3) by (auto simp: takeWhile_eq_all_conv)
  have buf: "take (LOG_BUFFER - Suc 0) (cstring text) = take 255 text"
    unfolding cstring_def whole by (simp add: LOG_BUFFER_def)
  have put: "written (fd_write k b s1) = written s1 @ [(Log_Device, b)] \<and> log_number (fd_write k b s1) = log_number s1 \<and>
      table (fd_write k b s1) = table s1" if "willing s1" "map_option fst (table s1 k) = Some Log_Device" for k b and s1 :: "'a fd_state_scheme"
    using that by (cases "call_ok s1") (auto simp: fd_write_def willing_def call_answer_def split: option.splits)
  show ?thesis
  proof (cases "log_number s")
    case (Some k)
    then have dev: "map_option fst (table s k) = Some Log_Device" using assms(1) by (simp add: log_ok_def)
    from put [OF assms(2) dev, of "take 255 text"] Some dev show ?thesis
      by (auto simp: log_message_def buf log_fd_def)
  next
    case None
    with assms(4) new_fd_willing [OF assms(2), of 0 n "(Log_Device, True)"] obtain k s1
      where k: "new_fd 0 (Log_Device, True) s = (Some k, s1)" "willing s1" by auto
    note f = new_fd_Some [OF k(1)]
    have wr: "written s1 = written s" using k(1)
      by (auto simp: new_fd_def call_answer_def split: prod.splits if_splits option.splits)
    let ?s1 = "s1\<lparr>log_number := Some k\<rparr>"
    have "willing ?s1" "map_option fst (table ?s1 k) = Some Log_Device" using k(2) f by (simp_all add: willing_def)
    from put [OF this, of "take 255 text"] None k(1) f wr show ?thesis
      by (auto simp: log_message_def buf log_fd_def fd_open_def)
  qed
qed

definition sample_fds :: fd_state where
  "sample_fds = \<lparr>table = [0 \<mapsto> (Other_File 0, True), 1 \<mapsto> (Other_File 1, True)], fd_limit = 8, call_ok = [],
     log_number = None, written = [], errno_texts = []\<rparr>"

theorem log_message_writes_witness:
  "\<exists>k. written (log_message ''started'' sample_fds) = [(Log_Device, ''started'')] \<and>
     log_number (log_message ''started'' sample_fds) = Some k \<and> k \<noteq> 0 \<and>
     table (log_message ''started'' sample_fds) 1 = Some (Other_File 1, True)"
proof -
  have s: "log_ok sample_fds" "willing sample_fds" "log_number sample_fds = None \<longrightarrow> 2 < fd_limit sample_fds \<and> table sample_fds 2 = None"
    "written sample_fds = []" "table sample_fds 1 = Some (Other_File 1, True)"
    by (simp_all add: sample_fds_def log_ok_def willing_def)
  have k: "log_number (log_message ''started'' sample_fds) = Some 2" by code_simp
  from log_message_writes [OF s(1,2) _ s(3), of "''started''"] s(4,5) k show ?thesis by auto
qed

end
