(* ===== verification/Child.thy ===== *)
theory Child
  imports Log Safe_Mode Inittab
begin

text \<open>
  The child's side of a fork (\<open>src/main.c\<close>): from the copy of init's descriptors to the program of
  the inittab entry. Descriptors are those of \<open>Log\<close>; the state adds the answers of
  \<open>open\<close> on a terminal, the settings of the terminals, the signal mask, the session and the
  processor set. A child either executes a program or exits.
\<close>

unbundle bit_operations_syntax

section \<open>State\<close>

record termios =
  c_iflag :: "32 word"
  c_oflag :: "32 word"
  c_cflag :: "32 word"
  c_lflag :: "32 word"
  c_cc :: "8 word list"

datatype open_answer = Opens | Open_EIO | Open_Failed

record child_state = fd_state +
  console_answers :: "open_answer list"
  naps :: nat
  attrs :: "string \<Rightarrow> termios"
  sig_mask :: "nat list"
  session_leader :: bool
  affinity :: "nat list option"
  controlling :: "string option"

datatype 's child_end = Child_Exits 's | Child_Execs cmdline_contents 's

definition STDIN_FILENO :: nat where "STDIN_FILENO = 0"
definition STDOUT_FILENO :: nat where "STDOUT_FILENO = 1"
definition STDERR_FILENO :: nat where "STDERR_FILENO = 2"

lemmas std_filenos = STDIN_FILENO_def STDOUT_FILENO_def STDERR_FILENO_def

section \<open>Standard descriptors\<close>

text \<open>\<open>safe_dup\<close>: success, the number it leaves in \<open>*fd\<close>, and the state.\<close>

definition safe_dup :: "nat \<Rightarrow> 'a fd_state_scheme \<Rightarrow> bool \<times> nat \<times> 'a fd_state_scheme" where
  "safe_dup fd s =
     (if fd \<le> STDERR_FILENO then
        case fd_dupfd fd (STDERR_FILENO + 1) s of
          (None, s1) \<Rightarrow> (False, fd, log_message (''Couldn't safe dup file descriptor'' @ [newline]) s1)
        | (Some tmpfd, s1) \<Rightarrow> (True, tmpfd, fd_close fd s1)
      else (True, fd, s))"

text \<open>The three \<open>dup2\<close> calls of \<open>setup_stdio\<close> with their error paths.\<close>

definition stdio_dups :: "nat \<Rightarrow> nat \<Rightarrow> 'a fd_state_scheme \<Rightarrow> bool \<times> 'a fd_state_scheme" where
  "stdio_dups null_fd out_fd s =
     (case fd_dup2 null_fd STDIN_FILENO s of
        (False, s1) \<Rightarrow>
          (False, fd_close null_fd (fd_close out_fd (log_errno ''Could not dup null fd: '' s1)))
      | (True, s1) \<Rightarrow>
          (case fd_dup2 out_fd STDOUT_FILENO s1 of
             (False, s2) \<Rightarrow>
               (False, fd_close null_fd (fd_close out_fd (fd_close STDIN_FILENO
                 (log_errno ''Could not dup out fd: '' s2))))
           | (True, s2) \<Rightarrow>
               (case fd_dup2 out_fd STDERR_FILENO s2 of
                  (False, s3) \<Rightarrow>
                    (False, fd_close null_fd (fd_close out_fd (fd_close STDIN_FILENO (fd_close STDOUT_FILENO
                      (log_errno ''Could not dup err fd: '' s3)))))
                | (True, s3) \<Rightarrow> (True, fd_close null_fd (fd_close out_fd s3)))))"

definition setup_stdio :: "'a fd_state_scheme \<Rightarrow> bool \<times> 'a fd_state_scheme" where
  "setup_stdio s =
     (case fd_open Null_Device False s of
        (None, s1) \<Rightarrow> (False, log_errno ''Could not open /dev/null: '' s1)
      | (Some n, s1) \<Rightarrow>
          (case safe_dup n s1 of (ok, null_fd, s2) \<Rightarrow>
             if \<not> ok then (False, fd_close null_fd s2)
             else case log_fd s2 of
               (None, s3) \<Rightarrow> (False, fd_close null_fd (log_errno ''Could not open logfile: '' s3))
             | (Some m, s3) \<Rightarrow>
                 (case safe_dup m s3 of (ok2, out_fd, s4) \<Rightarrow>
                    if \<not> ok2 then (False, fd_close null_fd (fd_close out_fd s4))
                    else stdio_dups null_fd out_fd s4)))"

section \<open>Terminals\<close>

text \<open>
  \<open>open_console\<close>: ten attempts, as long as \<open>open\<close> fails with EIO, and a pause after each of
  these. The flag is \<open>O_CLOEXEC\<close>, which every caller passes.
\<close>

fun open_console_loop :: "nat \<Rightarrow> string \<Rightarrow> 'a child_state_scheme \<Rightarrow> nat option \<times> 'a child_state_scheme" where
  "open_console_loop 0 terminal s = (None, s)"
| "open_console_loop (Suc n) terminal s =
     (case console_answers s of
        Open_EIO # as \<Rightarrow> open_console_loop n terminal (s\<lparr>console_answers := as, naps := naps s + 1\<rparr>)
      | Open_Failed # as \<Rightarrow> (None, s\<lparr>console_answers := as\<rparr>)
      | Opens # as \<Rightarrow> fd_open (Terminal terminal) True (s\<lparr>console_answers := as\<rparr>)
      | [] \<Rightarrow> fd_open (Terminal terminal) True s)"

definition open_console :: "string \<Rightarrow> 'a child_state_scheme \<Rightarrow> nat option \<times> 'a child_state_scheme" where
  "open_console terminal s = open_console_loop 10 terminal s"

text \<open>The flags and control characters of \<open>termios.h\<close> and \<open>ttydefaults.h\<close> on Linux.\<close>

definition line_bits :: "32 word" where
  "line_bits = 0x100F OR 0x1000 OR 0x30 OR 0x40 OR 0x100 OR 0x200"
  \<comment> \<open>CBAUD, CBAUDEX, CSIZE, CSTOPB, PARENB, PARODD\<close>

definition control_bits :: "32 word" where
  "control_bits = 0x400 OR 0x800 OR 0x80"
  \<comment> \<open>HUPCL, CLOCAL, CREAD\<close>

definition input_bits :: "32 word" where
  "input_bits = 0x4 OR 0x100 OR 0x400 OR 0x800"
  \<comment> \<open>IGNPAR, ICRNL, IXON, IXANY\<close>

definition output_bits :: "32 word" where
  "output_bits = 0x1 OR 0x4"
  \<comment> \<open>OPOST, ONLCR\<close>

definition local_bits :: "32 word" where
  "local_bits = 0x1 OR 0x2 OR 0x8 OR 0x200 OR 0x400 OR 0x800"
  \<comment> \<open>ISIG, ICANON, ECHO, ECHOCTL, ECHOPRT, ECHOKE\<close>

text \<open>
  Index and value of the characters the code sets: VINTR, VQUIT, VERASE, VKILL, VEOF, VTIME, VMIN,
  VSTART, VSTOP, VSUSP, VEOL, VREPRINT, VWERASE, VLNEXT, VEOL2.
\<close>

definition control_chars :: "(nat \<times> 8 word) list" where
  "control_chars = [(0, 3), (1, 28), (2, 127), (3, 21), (4, 4), (5, 0), (6, 1), (8, 17), (9, 19), (10, 26),
     (11, 0), (12, 18), (14, 23), (15, 22), (16, 0)]"

definition reset_termios :: "termios \<Rightarrow> termios" where
  "reset_termios tty = tty\<lparr>
     c_cflag := (c_cflag tty AND line_bits) OR control_bits,
     c_iflag := input_bits, c_oflag := output_bits, c_lflag := local_bits,
     c_cc := fold (\<lambda>(i, v) cc. cc[i := v]) control_chars (c_cc tty)\<rparr>"

text \<open>\<open>reset_console\<close>: the three calls fail on what is not a terminal.\<close>

definition reset_console :: "nat \<Rightarrow> 'a child_state_scheme \<Rightarrow> bool \<times> 'a child_state_scheme" where
  "reset_console fd s =
     (case table s fd of
        Some (Terminal p, _) \<Rightarrow>
          (case call_answer s of (got, s1) \<Rightarrow>
             if \<not> got then (False, s1)
             else case call_answer s1 of (was_set, s2) \<Rightarrow>
               if \<not> was_set then (False, s2)
               else call_answer (s2\<lparr>attrs := (attrs s2)(p := reset_termios (attrs s1 p))\<rparr>))
      | _ \<Rightarrow> (False, s))"

definition setup_stty :: "string \<Rightarrow> 'a child_state_scheme \<Rightarrow> bool \<times> 'a child_state_scheme" where
  "setup_stty terminal s =
     (case open_console terminal s of
        (None, s1) \<Rightarrow> (False, log_message (''Could not open terminal for child process'' @ [newline]) s1)
      | (Some t, s1) \<Rightarrow>
          (case safe_dup t s1 of (ok, tty, s2) \<Rightarrow>
             if \<not> ok then (False, fd_close tty s2)
             else case fd_dup2 tty STDIN_FILENO s2 of
               (False, s3) \<Rightarrow> (False, fd_close tty (log_errno ''Could not dup terminal for STDIN: '' s3))
             | (True, s3) \<Rightarrow>
                 (case fd_dup2 tty STDOUT_FILENO s3 of
                    (False, s4) \<Rightarrow>
                      (False, fd_close tty (fd_close STDIN_FILENO (log_errno ''Could not dup terminal for STDOUT: '' s4)))
                  | (True, s4) \<Rightarrow>
                      (case fd_dup2 tty STDERR_FILENO s4 of
                         (False, s5) \<Rightarrow>
                           (False, fd_close tty (fd_close STDIN_FILENO (fd_close STDOUT_FILENO
                             (log_errno ''Could not dup terminal for STDERR: '' s5))))
                       | (True, s5) \<Rightarrow>
                           (case reset_console tty s5 of
                              (False, s6) \<Rightarrow>
                                (False, fd_close tty (fd_close STDIN_FILENO (fd_close STDOUT_FILENO
                                  (fd_close STDERR_FILENO s6))))
                            | (True, s6) \<Rightarrow> (True, fd_close tty s6))))))"

section \<open>The child\<close>

text \<open>\<open>execvpe\<close> with the parsed command; the message goes to the standard error.\<close>

definition program_name :: "cmdline_contents \<Rightarrow> string" where
  "program_name c = (case (freeable c, args c) of (Some b, Some p # _) \<Rightarrow> arg_text b p | _ \<Rightarrow> [])"

definition run_exec :: "cmdline_contents \<Rightarrow> 'a child_state_scheme \<Rightarrow> 'a child_state_scheme child_end" where
  "run_exec cmd_contents s =
     (case call_answer s of (ok, s1) \<Rightarrow>
        if ok then Child_Execs cmd_contents s1
        else case next_errno s1 of (e, s2) \<Rightarrow>
          Child_Exits (fd_write STDERR_FILENO
            (''Could not exec process '' @ [squote] @ program_name cmd_contents @ [squote] @ '': '' @ e @ [newline]) s2))"

text \<open>
  The processor set: \<open>CPU_SET\<close> ignores numbers that do not fit into a \<open>cpu_set_t\<close>, and the
  kernel refuses an empty set.
\<close>

definition CPU_SETSIZE :: int where "CPU_SETSIZE = 1024"

definition set_affinity :: "string \<Rightarrow> int \<Rightarrow> 'a child_state_scheme \<Rightarrow> bool \<times> 'a child_state_scheme" where
  "set_affinity command core s =
     (if core < 0 then (True, s)
      else let cpus = (if core < CPU_SETSIZE then [nat core] else []) in
        case call_answer s of (ok, s1) \<Rightarrow>
          if ok \<and> cpus \<noteq> [] then (True, s1\<lparr>affinity := Some cpus\<rparr>)
          else (False, log_errno (''Could not set CPU affinity for process '' @ [squote] @ command @ [squote] @ '': '') s1))"

text \<open>The terminal of the child, which becomes its controlling terminal.\<close>

definition setup_terminal :: "string \<Rightarrow> string \<Rightarrow> 'a child_state_scheme \<Rightarrow> bool \<times> 'a child_state_scheme" where
  "setup_terminal console command s =
     (case setup_stty console s of
        (False, s1) \<Rightarrow>
          (False, log_message (''Could not setup tty '' @ [squote] @ console @ [squote] @ '' for process '' @
             [squote] @ command @ [squote, newline]) s1)
      | (True, s1) \<Rightarrow>
          (case call_answer s1 of (ok, s2) \<Rightarrow>
             if \<not> ok then (False, log_errno ''Could not handle controlling terminal: '' s2)
             else (True, case table s2 STDIN_FILENO of
                Some (Terminal p, _) \<Rightarrow> s2\<lparr>controlling := Some p\<rparr> | _ \<Rightarrow> s2)))"

text \<open>\<open>setup_child\<close>; the first answer is that of the \<open>strdup\<close> in \<open>parse_cmdline\<close>.\<close>

definition setup_child ::
    "string \<Rightarrow> string \<Rightarrow> int \<Rightarrow> 'a child_state_scheme \<Rightarrow> 'a child_state_scheme child_end c_res" where
  "setup_child command console core s =
     (case call_answer (s\<lparr>sig_mask := []\<rparr>) of (dup_ok, s1) \<Rightarrow>
        res_bind (parse_cmdline dup_ok command zero_contents)
          (\<lambda>(ok, cmd_contents).
             if \<not> ok then Inr (Child_Exits s1)
             else case call_answer s1 of (sid_ok, s2) \<Rightarrow>
               if \<not> sid_ok then Inr (Child_Exits s2)
               else case set_affinity command core (s2\<lparr>session_leader := True\<rparr>) of
                 (False, s3) \<Rightarrow> Inr (Child_Exits s3)
               | (True, s3) \<Rightarrow>
                   (case (if console \<noteq> [] then setup_terminal console command s3 else setup_stdio s3) of
                      (False, s4) \<Rightarrow> Inr (Child_Exits s4)
                    | (True, s4) \<Rightarrow> Inr (run_exec cmd_contents s4))))"

text \<open>
  The child of \<open>spawn_exec\<close>: what an entry of the inittab asks for. The state is the one behind the
  message about the result of \<open>fork\<close>, which parent and child both log first.
\<close>

definition spawn_child :: "inittab_entry \<Rightarrow> 'a child_state_scheme \<Rightarrow> 'a child_state_scheme child_end c_res" where
  "spawn_child entry s = setup_child (process_name entry) (ctty_path entry) (core_id entry) s"

text \<open>
  The child of \<open>setup_safe_mode\<close>: the descriptors (the number it reads from, unless it exits),
  and then the wait for what is written to the pipe.
\<close>

definition placeholder_fds :: "nat \<Rightarrow> nat \<Rightarrow> 'a fd_state_scheme \<Rightarrow> nat option \<times> 'a fd_state_scheme" where
  "placeholder_fds pipe_read pipe_write s =
     (case safe_dup pipe_read s of (ok, fd, s1) \<Rightarrow>
        if \<not> ok then (None, s1)
        else case setup_stdio s1 of
          (False, s2) \<Rightarrow> (None, s2)
        | (True, s2) \<Rightarrow> (Some fd, fd_close pipe_write s2))"

definition placeholder_child ::
    "inittab_entry \<Rightarrow> nat \<Rightarrow> nat \<Rightarrow> read_answer list \<Rightarrow> bool \<Rightarrow> bool \<Rightarrow> 'a fd_state_scheme \<Rightarrow> wait_outcome c_res" where
  "placeholder_child entry pipe_read pipe_write reads dup_ok print_ok s =
     (case placeholder_fds pipe_read pipe_write s of
        (None, _) \<Rightarrow> Inr Exits
      | (Some _, _) \<Rightarrow> safe_mode_wait (process_name entry) reads dup_ok print_ok)"

section \<open>Descriptors\<close>

lemma safe_dup_True:
  assumes "safe_dup fd s = (True, fd2, s1)" "table s fd = Some (f, b)"
  shows "2 < fd2 \<and> (\<exists>c. table s1 = (table s)(fd := None, fd2 \<mapsto> (f, c))) \<and> (fd2 = fd \<or> table s fd2 = None) \<and>
    log_number s1 = log_number s"
proof (cases "fd \<le> 2")
  case True
  with assms obtain s2 where n: "new_fd (Suc 2) (f, False) s = (Some fd2, s2)" and s1: "s1 = fd_close fd s2"
    by (auto simp: safe_dup_def fd_dupfd_def std_filenos split: prod.splits option.splits)
  note d = new_fd_SomeD [OF n]
  from d True have "fd2 \<noteq> fd" by auto
  then have "table s1 = (table s)(fd := None, fd2 \<mapsto> (f, False))" using d s1 by (simp add: fd_close_def fun_upd_twist)
  with d s1 show ?thesis by (auto simp: fd_close_def)
next
  case False
  with assms have "fd2 = fd" "s1 = s" by (auto simp: safe_dup_def std_filenos)
  with False assms(2) show ?thesis by (auto intro!: exI [of _ b])
qed

lemma fd_dup2_True:
  assumes "fd_dup2 fd fd2 s = (True, s1)"
  shows "fd \<noteq> fd2 \<Longrightarrow> \<exists>f b. table s fd = Some (f, b) \<and> table s1 = (table s)(fd2 \<mapsto> (f, False))"
  using assms by (auto simp: fd_dup2_def call_answer_def split: option.splits prod.splits if_splits)

lemma stdio_dups_True:
  assumes "stdio_dups null_fd out_fd s = (True, s')" "2 < null_fd" "2 < out_fd"
    and "map_option fst (table s null_fd) = Some Null_Device" "map_option fst (table s out_fd) = Some Log_Device"
  shows "table s' = (table s)(0 \<mapsto> (Null_Device, False), 1 \<mapsto> (Log_Device, False), 2 \<mapsto> (Log_Device, False),
    out_fd := None, null_fd := None)"
proof -
  obtain s1 s2 s3 where d: "fd_dup2 null_fd 0 s = (True, s1)" "fd_dup2 out_fd 1 s1 = (True, s2)"
      "fd_dup2 out_fd 2 s2 = (True, s3)" "s' = fd_close null_fd (fd_close out_fd s3)"
    using assms(1) by (auto simp: stdio_dups_def std_filenos split: prod.splits bool.splits)
  have "table s1 = (table s)(0 \<mapsto> (Null_Device, False))" using fd_dup2_True [OF d(1)] assms by auto
  moreover from this have "table s2 = (table s1)(1 \<mapsto> (Log_Device, False))" using fd_dup2_True [OF d(2)] assms by auto
  moreover from calculation have "table s3 = (table s2)(2 \<mapsto> (Log_Device, False))" using fd_dup2_True [OF d(3)] assms by auto
  ultimately show ?thesis using d(4) by (simp add: fd_close_def)
qed

text \<open>Where the log is after \<open>log_fd\<close>: a descriptor it had, or a new one.\<close>

lemma log_fd_Some:
  assumes "log_fd s = (Some m, s1)" "log_ok s"
  shows "(\<exists>c. table s1 = (table s)(m \<mapsto> (Log_Device, c))) \<and>
    (log_number s = Some m \<and> map_option fst (table s m) = Some Log_Device \<or> log_number s = None \<and> table s m = None)"
proof (cases "log_number s")
  case None
  with log_fd_opens [OF None assms(1)] show ?thesis by auto
next
  case (Some k)
  then have "s1 = s" "k = m" using assms(1) by (auto simp: log_fd_open)
  moreover obtain c where "table s m = Some (Log_Device, c)"
    using assms(2) Some \<open>k = m\<close> by (auto simp: log_ok_def)
  ultimately show ?thesis using Some by (auto intro!: exI [of _ c])
qed

lemma setup_stdio_True:
  assumes "setup_stdio s = (True, s')" "log_ok s"
  shows "table s' n = (if n = 0 then Some (Null_Device, False) else if n \<le> 2 then Some (Log_Device, False)
    else if log_number s = Some n then None else table s n)"
proof -
  obtain n0 null_fd m out_fd s1 s2 s3 s4 where st: "new_fd 0 (Null_Device, False) s = (Some n0, s1)"
      "safe_dup n0 s1 = (True, null_fd, s2)" "log_fd s2 = (Some m, s3)" "safe_dup m s3 = (True, out_fd, s4)"
      "stdio_dups null_fd out_fd s4 = (True, s')"
    using assms(1) by (auto simp: setup_stdio_def fd_open_def split: prod.splits option.splits if_splits)
  note a = new_fd_SomeD [OF st(1)]
  then have "table s1 n0 = Some (Null_Device, False)" by simp
  from safe_dup_True [OF st(2) this] obtain c1 where b: "2 < null_fd"
      "table s2 = (table s1)(n0 := None, null_fd \<mapsto> (Null_Device, c1))" "null_fd = n0 \<or> table s1 null_fd = None"
      "log_number s2 = log_number s1" by blast
  have t2: "table s2 = (table s)(null_fd \<mapsto> (Null_Device, c1))" and null: "table s null_fd = None"
    using a b(2,3) by (auto split: if_splits)
  have "log_number s2 = log_number s" using a b(4) by simp
  moreover have "log_ok s2" using assms(2) null calculation t2 by (auto simp: log_ok_def)
  ultimately obtain c2 where c: "table s3 = (table s2)(m \<mapsto> (Log_Device, c2))"
      "log_number s = Some m \<and> map_option fst (table s2 m) = Some Log_Device \<or> log_number s = None \<and> table s2 m = None"
    using log_fd_Some [OF st(3)] by auto
  have m: "m \<noteq> null_fd" using c(2) t2 by auto
  from c(1) safe_dup_True [OF st(4), of Log_Device c2] obtain c3 where d: "2 < out_fd"
      "table s4 = (table s3)(m := None, out_fd \<mapsto> (Log_Device, c3))" "out_fd = m \<or> table s3 out_fd = None" by auto
  have out: "out_fd \<noteq> null_fd" using d(3) c(1) t2 m by auto
  have s': "table s' = (table s4)(0 \<mapsto> (Null_Device, False), 1 \<mapsto> (Log_Device, False), 2 \<mapsto> (Log_Device, False),
      out_fd := None, null_fd := None)"
    using out m by (intro stdio_dups_True [OF st(5) b(1) d(1)]) (auto simp: d(2) c(1) t2)
  have other: "table s4 k = table s k" if "k \<noteq> null_fd" "k \<noteq> m" "k \<noteq> out_fd" for k
    using that by (simp add: d(2) c(1) t2)
  have out_s: "table s out_fd = None \<or> out_fd = m" using d(3) c(1) t2 out m by (auto split: if_splits)
  have m_s: "log_number s = Some m \<or> log_number s = None \<and> table s m = None" using c(2) t2 m by auto
  consider "n \<le> 2" | "2 < n" "n = null_fd" | "2 < n" "n = m" | "2 < n" "n = out_fd" "n \<noteq> m"
    | "2 < n" "n \<noteq> null_fd" "n \<noteq> m" "n \<noteq> out_fd" by linarith
  then show ?thesis
  proof cases
    case 1
    then have "n = 0 \<or> n = 1 \<or> n = 2" by linarith
    with s' b(1) d(1) show ?thesis by auto
  next
    case 2
    with s' m m_s null show ?thesis by auto
  next
    case 3
    then have "table s4 n = None \<or> n = out_fd" by (simp add: d(2))
    with 3 s' m m_s show ?thesis by auto
  next
    case 4
    with s' m_s out_s out show ?thesis by auto
  next
    case 5
    with s' m_s other [of n] show ?thesis by auto
  qed
qed

lemma safe_dup_frame [fd_frames]: "fd_frame s (snd (snd (safe_dup fd s)))"
  using fd_dupfd_frame [of s fd "Suc 2"]
  by (auto simp: safe_dup_def std_filenos split: prod.split option.split
      intro: fd_frame_trans [OF _ fd_close_frame] fd_frame_trans [OF _ log_message_frame])

lemma stdio_dups_frame: "stdio_dups null_fd out_fd s = (True, s') \<Longrightarrow> fd_frame s s'"
proof -
  assume "stdio_dups null_fd out_fd s = (True, s')"
  then obtain s1 s2 s3 where d: "fd_dup2 null_fd 0 s = (True, s1)" "fd_dup2 out_fd 1 s1 = (True, s2)"
      "fd_dup2 out_fd 2 s2 = (True, s3)" "s' = fd_close null_fd (fd_close out_fd s3)"
    by (auto simp: stdio_dups_def std_filenos split: prod.splits bool.splits)
  have "fd_frame s s1" "fd_frame s1 s2" "fd_frame s2 s3"
    using fd_dup2_frame [of s null_fd 0] fd_dup2_frame [of s1 out_fd 1] fd_dup2_frame [of s2 out_fd 2] d by simp_all
  with d(4) show ?thesis by (blast intro: fd_frame_trans fd_close_frame)
qed

lemma setup_stdio_frame: "setup_stdio s = (True, s') \<Longrightarrow> fd_frame s s'"
proof -
  assume "setup_stdio s = (True, s')"
  then obtain n0 null_fd m out_fd s1 s2 s3 s4 where st: "new_fd 0 (Null_Device, False) s = (Some n0, s1)"
      "safe_dup n0 s1 = (True, null_fd, s2)" "log_fd s2 = (Some m, s3)" "safe_dup m s3 = (True, out_fd, s4)"
      "stdio_dups null_fd out_fd s4 = (True, s')"
    by (auto simp: setup_stdio_def fd_open_def split: prod.splits option.splits if_splits)
  have "fd_frame s s1" "fd_frame s1 s2" "fd_frame s2 s3" "fd_frame s3 s4"
    using new_fd_frame [of s 0 "(Null_Device, False)"] safe_dup_frame [of s1 n0] log_fd_frame [of s2]
      safe_dup_frame [of s3 m] st by simp_all
  with stdio_dups_frame [OF st(5)] show ?thesis by (blast intro: fd_frame_trans)
qed

section \<open>Terminals\<close>

lemma child_frame:
  assumes "fd_frame s s'"
  shows "attrs s' = attrs s" "sig_mask s' = sig_mask s" "session_leader s' = session_leader s"
    "affinity s' = affinity s" "controlling s' = controlling s" "console_answers s' = console_answers s" "naps s' = naps s"
  using fd_frame_eq [OF assms, of attrs] fd_frame_eq [OF assms, of sig_mask] fd_frame_eq [OF assms, of session_leader]
    fd_frame_eq [OF assms, of affinity] fd_frame_eq [OF assms, of controlling]
    fd_frame_eq [OF assms, of console_answers] fd_frame_eq [OF assms, of naps] by simp_all

text \<open>\<open>same_child s s'\<close>: what the calls on terminals leave alone.\<close>

definition same_child :: "'a child_state_scheme \<Rightarrow> 'a child_state_scheme \<Rightarrow> bool" where
  "same_child s s' \<longleftrightarrow> sig_mask s' = sig_mask s \<and> session_leader s' = session_leader s \<and> affinity s' = affinity s"

lemma same_child_frame: "fd_frame s s' \<Longrightarrow> same_child s s' \<and> attrs s' = attrs s"
  by (simp add: same_child_def child_frame)

lemma open_console_Some:
  "open_console_loop k p s = (Some t, s1) \<Longrightarrow>
   table s t = None \<and> table s1 = (table s)(t \<mapsto> (Terminal p, True)) \<and> log_number s1 = log_number s \<and>
   attrs s1 = attrs s \<and> same_child s s1"
proof (induction k arbitrary: s)
  case (Suc k)
  have "table s t = None \<and> table s1 = (table s)(t \<mapsto> (Terminal p, True)) \<and> log_number s1 = log_number s \<and>
      attrs s1 = attrs s \<and> same_child s s1" if "fd_open (Terminal p) True s0 = (Some t, s1)"
      "table s0 = table s" "log_number s0 = log_number s" "attrs s0 = attrs s" "same_child s s0"
    for s0 :: "'a child_state_scheme"
    using new_fd_SomeD [OF that(1) [unfolded fd_open_def]] same_child_frame [OF new_fd_frame [of s0 0 "(Terminal p, True)"]]
      that by (simp add: fd_open_def same_child_def)
  note opened = this
  show ?case
  proof (cases "console_answers s")
    case Nil
    with Suc.prems opened [of s] show ?thesis by (simp add: same_child_def)
  next
    case (Cons a as)
    show ?thesis
    proof (cases a)
      case Open_EIO
      with Suc.prems Cons Suc.IH [of "s\<lparr>console_answers := as, naps := Suc (naps s)\<rparr>"] show ?thesis
        by (simp add: same_child_def)
    next
      case Opens
      with Suc.prems Cons opened [of "s\<lparr>console_answers := as\<rparr>"] show ?thesis by (simp add: same_child_def)
    qed (use Suc.prems Cons in simp)
  qed
qed simp

lemma reset_console_True:
  assumes "reset_console fd s = (True, s1)" "table s fd = Some (Terminal p, b)"
  shows "table s1 = table s" "attrs s1 = (attrs s)(p := reset_termios (attrs s p))" "same_child s s1"
  using assms by (auto simp: reset_console_def call_answer_def same_child_def split: prod.splits if_splits)

lemma setup_stty_True:
  assumes "setup_stty p s = (True, s')"
  shows "table s' n = (if n \<le> 2 then Some (Terminal p, False) else table s n)"
    "attrs s' = (attrs s)(p := reset_termios (attrs s p))" "same_child s s'"
proof -
  obtain t tty s1 s2 s3 s4 s5 s6 where st: "open_console_loop 10 p s = (Some t, s1)" "safe_dup t s1 = (True, tty, s2)"
      "fd_dup2 tty 0 s2 = (True, s3)" "fd_dup2 tty 1 s3 = (True, s4)" "fd_dup2 tty 2 s4 = (True, s5)"
      "reset_console tty s5 = (True, s6)" "s' = fd_close tty s6"
    using assms by (auto simp: setup_stty_def open_console_def std_filenos split: prod.splits option.splits if_splits bool.splits)
  note a = open_console_Some [OF st(1)]
  then have "table s1 t = Some (Terminal p, True)" by simp
  from safe_dup_True [OF st(2) this] obtain c where c: "2 < tty" "table s2 = (table s1)(t := None, tty \<mapsto> (Terminal p, c))"
      "tty = t \<or> table s1 tty = None" by blast
  have b: "2 < tty" "table s2 = (table s)(tty \<mapsto> (Terminal p, c))" "table s tty = None"
    using a c by (auto split: if_splits)
  have f: "fd_frame s1 s2" "fd_frame s2 s3" "fd_frame s3 s4" "fd_frame s4 s5" "fd_frame s6 s'"
    using safe_dup_frame [of s1 t] fd_dup2_frame [of s2 tty 0] fd_dup2_frame [of s3 tty 1] fd_dup2_frame [of s4 tty 2]
      fd_close_frame [of s6 tty] st by simp_all
  note f' = f [THEN same_child_frame]
  have "table s3 = (table s2)(0 \<mapsto> (Terminal p, False))" using fd_dup2_True [OF st(3)] b by auto
  moreover from this have "table s4 = (table s3)(1 \<mapsto> (Terminal p, False))" using fd_dup2_True [OF st(4)] b by auto
  moreover from calculation have "table s5 = (table s4)(2 \<mapsto> (Terminal p, False))" using fd_dup2_True [OF st(5)] b by auto
  ultimately have t5: "table s5 = (table s2)(0 \<mapsto> (Terminal p, False), 1 \<mapsto> (Terminal p, False), 2 \<mapsto> (Terminal p, False))" by simp
  then have "table s5 tty = Some (Terminal p, c)" using b by simp
  note r = reset_console_True [OF st(6) this]
  have "n = 0 \<or> n = 1 \<or> n = 2" if "n \<le> 2" using that by linarith
  then show "table s' n = (if n \<le> 2 then Some (Terminal p, False) else table s n)"
    using r(1) t5 b st(7) by (auto simp: fd_close_def)
  show "attrs s' = (attrs s)(p := reset_termios (attrs s p))" "same_child s s'"
    using a r(2,3) f' by (simp_all add: same_child_def)
qed

section \<open>When the calls succeed\<close>

lemma safe_dup_willing:
  assumes "willing s" "table s fd = Some (f, b)" "fd \<le> 2 \<longrightarrow> 2 < n \<and> n < fd_limit s \<and> table s n = None"
  shows "\<exists>fd2 s1. safe_dup fd s = (True, fd2, s1) \<and> willing s1 \<and> fd_limit s1 = fd_limit s"
proof (cases "fd \<le> 2")
  case True
  with assms new_fd_willing [OF assms(1), of "Suc 2" n "(f, False)"] obtain m s1
    where m: "new_fd (Suc 2) (f, False) s = (Some m, s1)" "willing s1" by auto
  have "fd_limit s1 = fd_limit s" using new_fd_SomeD [OF m(1)] by simp
  with True m assms(2) show ?thesis by (simp add: safe_dup_def fd_dupfd_def std_filenos fd_close_def willing_def)
qed (use assms in \<open>simp add: safe_dup_def std_filenos\<close>)

lemma fd_dup2_willing:
  assumes "willing s" "table s fd \<noteq> None"
  shows "\<exists>s1. fd_dup2 fd fd2 s = (True, s1) \<and> willing s1 \<and> (\<forall>k. table s k \<noteq> None \<longrightarrow> table s1 k \<noteq> None)"
proof -
  obtain s1 where "call_answer s = (True, s1)" "willing s1" "table s1 = table s"
    using call_answer_willing [OF assms(1)] by blast
  with assms(2) show ?thesis by (auto simp: fd_dup2_def willing_def)
qed

lemma stdio_dups_willing:
  assumes "willing s" "table s null_fd \<noteq> None" "table s out_fd \<noteq> None"
  shows "\<exists>s'. stdio_dups null_fd out_fd s = (True, s') \<and> willing s'"
proof -
  obtain s1 where 1: "fd_dup2 null_fd 0 s = (True, s1)" "willing s1" "table s1 out_fd \<noteq> None"
    using fd_dup2_willing [OF assms(1,2)] assms(3) by blast
  obtain s2 where 2: "fd_dup2 out_fd 1 s1 = (True, s2)" "willing s2" "table s2 out_fd \<noteq> None"
    using fd_dup2_willing [OF 1(2,3)] 1(3) by blast
  obtain s3 where 3: "fd_dup2 out_fd 2 s2 = (True, s3)" "willing s3"
    using fd_dup2_willing [OF 2(2,3)] by blast
  from 1 2 3 show ?thesis by (simp add: stdio_dups_def std_filenos fd_close_def willing_def)
qed

lemma setup_stdio_willing:
  assumes w: "willing s" and log: "log_ok s" and a: "2 < a" "a < fd_limit s" "table s a = None"
    and b: "2 < b" "b < fd_limit s" "table s b = None" and ab: "a \<noteq> b"
  shows "\<exists>s'. setup_stdio s = (True, s') \<and> willing s'"
proof -
  obtain n0 s1 where n0: "new_fd 0 (Null_Device, False) s = (Some n0, s1)" "willing s1"
    using new_fd_willing [OF w _ a(2,3)] by blast
  note f1 = new_fd_SomeD [OF n0(1)]
  then have t1: "table s1 n0 = Some (Null_Device, False)" by simp
  define x where "x = (if a = n0 then b else a)"
  have "2 < x" "x < fd_limit s1" "table s1 x = None" using a b ab f1 by (auto simp: x_def)
  then obtain null_fd s2 where nl: "safe_dup n0 s1 = (True, null_fd, s2)" "willing s2" "fd_limit s2 = fd_limit s"
    using safe_dup_willing [OF n0(2) t1, of x] f1 by (auto split: if_splits)
  from safe_dup_True [OF nl(1) t1] obtain c where c: "table s2 = (table s1)(n0 := None, null_fd \<mapsto> (Null_Device, c))"
      "null_fd = n0 \<or> table s1 null_fd = None" "log_number s2 = log_number s1" by blast
  have t2: "table s2 = (table s)(null_fd \<mapsto> (Null_Device, c))" "table s null_fd = None" using f1 c by (auto split: if_splits)
  define y where "y = (if a = null_fd then b else a)"
  have y: "2 < y" "y < fd_limit s2" "table s2 y = None" using a b ab t2 nl(3) by (auto simp: y_def)
  have log2: "log_ok s2" using log t2 c(3) f1 by (auto simp: log_ok_def)
  obtain m s3 where lg: "log_fd s2 = (Some m, s3)" "willing s3" "fd_limit s3 = fd_limit s"
  proof (cases "log_number s2")
    case None
    with new_fd_willing [OF nl(2) _ y(2,3), of 0 "(Log_Device, True)"] obtain m s3
      where "new_fd 0 (Log_Device, True) s2 = (Some m, s3)" "willing s3" by auto
    with None new_fd_SomeD [OF this(1)] nl(3) that [of m "s3\<lparr>log_number := Some m\<rparr>"] show ?thesis
      by (simp add: log_fd_def fd_open_def willing_def)
  qed (use nl that in \<open>simp add: log_fd_def\<close>)
  from log_fd_Some [OF lg(1) log2] obtain e where e: "table s3 = (table s2)(m \<mapsto> (Log_Device, e))"
    "map_option fst (table s2 m) = Some Log_Device \<or> table s2 m = None" by blast
  have "m \<le> 2 \<longrightarrow> 2 < y \<and> y < fd_limit s3 \<and> table s3 y = None" using y e(1) lg(3) nl(3) by auto
  moreover have t3: "table s3 m = Some (Log_Device, e)" using e(1) by simp
  ultimately obtain out_fd s4 where out: "safe_dup m s3 = (True, out_fd, s4)" "willing s4"
    using safe_dup_willing [OF lg(2)] by blast
  have "m \<noteq> null_fd" using e(2) t2 by auto
  with safe_dup_True [OF out(1) t3] e(1) t2 have "table s4 null_fd \<noteq> None" "table s4 out_fd \<noteq> None" by auto
  from stdio_dups_willing [OF out(2) this] n0(1) nl(1) lg(1) out(1) show ?thesis
    by (auto simp: setup_stdio_def fd_open_def)
qed

section \<open>The program of an entry\<close>

text \<open>The descriptors a program starts with, and what they should be.\<close>

definition exec_fds :: "'a fd_state_scheme \<Rightarrow> nat \<Rightarrow> open_file option" where
  "exec_fds s n = (case table s n of Some (f, False) \<Rightarrow> Some f | _ \<Rightarrow> None)"

definition std_files :: "string \<Rightarrow> nat \<Rightarrow> open_file option" where
  "std_files console n =
     (if 2 < n then None else if console \<noteq> [] then Some (Terminal console)
      else if n = 0 then Some Null_Device else Some Log_Device)"

text \<open>Descriptors of init above the standard ones are closed on exec.\<close>

definition private_fds :: "'a fd_state_scheme \<Rightarrow> bool" where
  "private_fds s \<longleftrightarrow> (\<forall>n f. 2 < n \<longrightarrow> table s n \<noteq> Some (f, False))"

lemma call_answer_same:
  assumes "call_answer s = (b, s1)"
  shows "table s1 = table s" "log_number s1 = log_number s" "fd_limit s1 = fd_limit s" "fd_frame s s1"
  using assms call_answer_frame [of s] by (auto simp: call_answer_def split: prod.splits)

lemma private_fdsD: "private_fds s \<Longrightarrow> table s n = Some (f, b) \<Longrightarrow> \<not> n \<le> 2 \<Longrightarrow> b"
  by (cases b) (auto simp: private_fds_def not_le)

lemma private_not_inherited: "private_fds s \<Longrightarrow> \<not> n \<le> 2 \<Longrightarrow> exec_fds s n = None"
  by (auto simp: exec_fds_def dest: private_fdsD split: option.split bool.split)

lemma stdio_exec_fds:
  assumes "setup_stdio s = (True, s')" "log_ok s" "private_fds s"
  shows "exec_fds s' = std_files []"
proof
  fix n
  note t = setup_stdio_True [OF assms(1,2), of n]
  show "exec_fds s' n = std_files [] n"
  proof (cases "n \<le> 2")
    case True
    with t show ?thesis by (auto simp: exec_fds_def std_files_def)
  next
    case False
    with t private_not_inherited [OF assms(3) False] show ?thesis by (simp add: exec_fds_def std_files_def)
  qed
qed

lemma stty_exec_fds:
  assumes "setup_stty p s = (True, s')" "private_fds s" "p \<noteq> []"
  shows "exec_fds s' = std_files p"
proof
  fix n
  note t = setup_stty_True(1) [OF assms(1), of n]
  show "exec_fds s' n = std_files p n"
  proof (cases "n \<le> 2")
    case True
    with t assms(3) show ?thesis by (simp add: exec_fds_def std_files_def)
  next
    case False
    with t private_not_inherited [OF assms(2) False] show ?thesis by (simp add: exec_fds_def std_files_def)
  qed
qed

definition terminal_ready :: "string \<Rightarrow> 'a child_state_scheme \<Rightarrow> 'a child_state_scheme \<Rightarrow> bool" where
  "terminal_ready console s s' \<longleftrightarrow> (console \<noteq> [] \<longrightarrow>
     controlling s' = Some console \<and> attrs s' console = reset_termios (attrs s console))"

lemma descriptors_of_child:
  assumes "(if console \<noteq> [] then setup_terminal console command s else setup_stdio s) = (True, s')"
    "log_ok s" "private_fds s"
  shows "exec_fds s' = std_files console" "same_child s s'" "terminal_ready console s s'"
proof -
  have "exec_fds s' = std_files console \<and> same_child s s' \<and> terminal_ready console s s'"
  proof (cases "console = []")
    case True
    with assms(1) have so: "setup_stdio s = (True, s')" by simp
    from stdio_exec_fds [OF so assms(2,3)] same_child_frame [OF setup_stdio_frame [OF so]] True show ?thesis
      by (simp add: terminal_ready_def)
  next
    case False
    with assms(1) obtain s1 s2 where st: "setup_stty console s = (True, s1)" "call_answer s1 = (True, s2)"
        "s' = (case table s2 0 of Some (Terminal p, _) \<Rightarrow> s2\<lparr>controlling := Some p\<rparr> | _ \<Rightarrow> s2)"
      by (auto simp: setup_terminal_def std_filenos split: prod.splits bool.splits if_splits)
    note t1 = setup_stty_True [OF st(1)] and c = call_answer_same [OF st(2)]
    have "table s2 0 = Some (Terminal console, False)" using t1(1) [of 0] c(1) by simp
    then have s': "s' = s2\<lparr>controlling := Some console\<rparr>" using st(3) by simp
    have "exec_fds s' = exec_fds s1" by (rule ext) (simp add: s' exec_fds_def c(1))
    with stty_exec_fds [OF st(1) assms(3) False] have "exec_fds s' = std_files console" by simp
    with t1(2,3) same_child_frame [OF c(4)] s' show ?thesis by (simp add: terminal_ready_def same_child_def)
  qed
  then show "exec_fds s' = std_files console" "same_child s s'" "terminal_ready console s s'" by simp_all
qed

lemma set_affinity_True:
  assumes "set_affinity command core s = (True, s1)"
  shows "table s1 = table s" "log_number s1 = log_number s" "attrs s1 = attrs s" "sig_mask s1 = sig_mask s"
    "session_leader s1 = session_leader s" "affinity s1 = (if core < 0 then affinity s else Some [nat core])"
    "fd_limit s1 = fd_limit s"
  using assms
  by (auto simp: set_affinity_def Let_def call_answer_def split: if_splits prod.splits)

lemma setup_child_execs:
  assumes run: "setup_child command console core s = Inr (Child_Execs c s')"
    and ok: "log_ok s" "private_fds s" and cmd: "NUL \<notin> set command" "length command + 1 < 2 ^ 64"
  shows "exec_fds s' = std_files console \<and> sig_mask s' = [] \<and> session_leader s' \<and>
    (0 \<le> core \<longrightarrow> affinity s' = Some [nat core]) \<and> terminal_ready console s s' \<and>
    (\<exists>es as b. cmdline_spec command = Some (es, as) \<and> freeable c = Some b \<and>
       denotes b ENV_MAX (env c) es \<and> denotes b ARGS_MAX (args c) as)"
proof -
  let ?s = "s\<lparr>sig_mask := []\<rparr>"
  obtain dup_ok s1 where 1: "call_answer ?s = (dup_ok, s1)" by (cases "call_answer ?s")
  obtain ok1 c1 where pc: "parse_cmdline dup_ok command zero_contents = Inr (ok1, c1)"
    using run 1 by (cases "parse_cmdline dup_ok command zero_contents") (auto simp: setup_child_def)
  obtain sid_ok s2 where 2: "call_answer s1 = (sid_ok, s2)" by (cases "call_answer s1")
  obtain aff s3 where 3: "set_affinity command core (s2\<lparr>session_leader := True\<rparr>) = (aff, s3)"
    by (cases "set_affinity command core (s2\<lparr>session_leader := True\<rparr>)")
  let ?io = "if console \<noteq> [] then setup_terminal console command s3 else setup_stdio s3"
  obtain io s4 where 4: "?io = (io, s4)" by (cases ?io)
  obtain ex s5 where 5: "call_answer s4 = (ex, s5)" by (cases "call_answer s4")
  have go: "ok1 \<and> sid_ok \<and> aff \<and> io"
    using run 1 pc 2 3 4 by (cases ok1; cases sid_ok; cases aff; cases io) (simp_all add: setup_child_def)
  have "run_exec c1 s4 = Child_Execs c s'"
    using run 1 pc 2 3 4 go by (simp add: setup_child_def)
  then have ex: "ex" "c1 = c" "s5 = s'"
    using 5 by (auto simp: run_exec_def split: if_splits prod.splits)
  note 2 = 2 [unfolded go [THEN conjunct2, THEN conjunct1, THEN eqTrueI]]
  have parse: "parse_cmdline dup_ok command zero_contents = Inr (True, c)" using pc go ex by simp
  note 3 = 3 [unfolded go [THEN conjunct2, THEN conjunct2, THEN conjunct1, THEN eqTrueI]]
  note 4 = 4 [unfolded go [THEN conjunct2, THEN conjunct2, THEN conjunct2, THEN eqTrueI]]
  note 5 = 5 [unfolded ex(3)]
  have "dup_ok" using parse by (cases dup_ok) (auto simp: parse_cmdline_def)
  with parse parse_cmdline_spec [OF cmd(2,1)] have p: "\<exists>es as b. cmdline_spec command = Some (es, as) \<and> freeable c = Some b \<and>
       denotes b ENV_MAX (env c) es \<and> denotes b ARGS_MAX (args c) as" by (auto split: option.splits)
  note f1 = call_answer_same [OF 1] and f2 = call_answer_same [OF 2] and f3 = set_affinity_True [OF 3]
    and f5 = call_answer_same [OF 5]
  have t3: "table s3 = table s" "log_number s3 = log_number s" using f1 f2 f3 by simp_all
  then have "log_ok s3" "private_fds s3" using ok by (simp_all add: log_ok_def private_fds_def)
  note d = descriptors_of_child [OF 4 this]
  have "exec_fds s' = exec_fds s4" by (rule ext) (simp add: exec_fds_def f5(1))
  moreover have "attrs s3 = attrs s" "sig_mask s3 = []" "session_leader s3"
    "0 \<le> core \<longrightarrow> affinity s3 = Some [nat core]"
    using f3 child_frame [OF f1(4)] child_frame [OF f2(4)] by simp_all
  ultimately show ?thesis using d child_frame [OF f5(4)] p by (simp add: same_child_def terminal_ready_def)
qed

section \<open>The other parts\<close>

text \<open>The settings of a line.\<close>

lemma fold_update_length: "length (fold (\<lambda>(i, v) cc. cc[i := v]) ps cc) = length cc"
  by (induction ps arbitrary: cc) auto

lemma fold_update_nth:
  "distinct (map fst ps) \<Longrightarrow> i < length cc \<Longrightarrow>
   fold (\<lambda>(i, v) cc. cc[i := v]) ps cc ! i = (case map_of ps i of Some v \<Rightarrow> v | None \<Rightarrow> cc ! i)"
proof (induction ps arbitrary: cc)
  case (Cons p ps)
  obtain k v where p: "p = (k, v)" by (cases p)
  have "map_of ps k = None" using Cons.prems(1) p by (simp add: map_of_eq_None_iff)
  with Cons p show ?case by (auto split: option.split)
qed simp

lemma fold_update_idem:
  "distinct (map fst ps) \<Longrightarrow>
   fold (\<lambda>(i, v) cc. cc[i := v]) ps (fold (\<lambda>(i, v) cc. cc[i := v]) ps cc) = fold (\<lambda>(i, v) cc. cc[i := v]) ps cc"
  by (rule nth_equalityI) (auto simp: fold_update_length fold_update_nth split: option.split)

lemma control_chars_distinct: "distinct (map fst control_chars)"
  by (simp add: control_chars_def)

lemma reset_cflag: "((((c AND line_bits) OR control_bits) AND line_bits) OR control_bits) = (c AND line_bits) OR control_bits"
  by (rule bit_word_eqI) (auto simp: bit_and_iff bit_or_iff)

text \<open>The bits of a constant, from the numbers of the bits.\<close>

lemma bits_of_constant:
  "w = foldr (\<lambda>k v. 2 ^ k OR v) ks 0 \<Longrightarrow> list_all (\<lambda>k. k < 32) ks \<Longrightarrow> bit (w :: 32 word) n \<longleftrightarrow> n \<in> set ks"
  by (induction ks arbitrary: w) (auto simp: bit_or_iff bit_exp_iff)

lemma termios_bits:
  "bit line_bits n \<longleftrightarrow> n \<in> set [0, 1, 2, 3, 4, 5, 6, 8, 9, 12]" "bit control_bits n \<longleftrightarrow> n \<in> set [7, 10, 11]"
  "bit input_bits n \<longleftrightarrow> n \<in> set [2, 8, 10, 11]" "bit output_bits n \<longleftrightarrow> n \<in> set [0, 2]"
  "bit local_bits n \<longleftrightarrow> n \<in> set [0, 1, 3, 9, 10, 11]"
  by (rule bits_of_constant; simp add: line_bits_def control_bits_def input_bits_def output_bits_def local_bits_def)+

text \<open>Attempts to open a terminal.\<close>

lemma open_console_attempts:
  assumes "open_console_loop k p s = (r, s')"
  shows "naps s \<le> naps s' \<and> naps s' \<le> naps s + k \<and>
    (\<exists>used. console_answers s = used @ console_answers s' \<and> length used \<le> k)"
  using assms
proof (induction k arbitrary: s)
  case (Suc k)
  have opened: "naps s' = naps s0 \<and> console_answers s' = console_answers s0"
    if "fd_open (Terminal p) True s0 = (r, s')" for s0 :: "'a child_state_scheme"
    using child_frame [OF new_fd_frame [of s0 0 "(Terminal p, True)"]] that by (simp add: fd_open_def)
  show ?case
  proof (cases "console_answers s")
    case Nil
    with Suc.prems opened [of s] show ?thesis by simp
  next
    case (Cons a as)
    show ?thesis
    proof (cases a)
      case Open_EIO
      let ?s = "s\<lparr>console_answers := as, naps := Suc (naps s)\<rparr>"
      have "open_console_loop k p ?s = (r, s')" using Suc.prems Cons Open_EIO by simp
      from Suc.IH [OF this] obtain used where "Suc (naps s) \<le> naps s'" "naps s' \<le> Suc (naps s) + k"
          "as = used @ console_answers s'" "length used \<le> k" by auto
      with Cons show ?thesis by (auto intro!: exI [of _ "a # used"])
    next
      case Opens
      with Suc.prems Cons opened [of "s\<lparr>console_answers := as\<rparr>"] show ?thesis
        by (auto intro!: exI [of _ "[a]"])
    next
      case Open_Failed
      with Suc.prems Cons show ?thesis by (auto intro!: exI [of _ "[a]"])
    qed
  qed
qed simp

lemma open_console_retries:
  "k < n \<Longrightarrow> console_answers s = replicate k Open_EIO @ Opens # as \<Longrightarrow>
   open_console_loop n p s = fd_open (Terminal p) True (s\<lparr>console_answers := as, naps := naps s + k\<rparr>)"
proof (induction k arbitrary: n s)
  case 0
  then show ?case by (cases n) auto
next
  case (Suc k)
  then obtain m where "n = Suc m" "k < m" by (cases n) auto
  with Suc.IH [of m "s\<lparr>console_answers := replicate k Open_EIO @ Opens # as, naps := Suc (naps s)\<rparr>"] Suc.prems(2)
  show ?case by simp
qed

text \<open>The placeholder.\<close>

lemma placeholder_fds_Some:
  assumes run: "placeholder_fds pipe_read pipe_write s = (Some fd, s')" and log: "log_ok s"
    and pipe: "table s pipe_read = Some (f, b)" "2 < pipe_write" "pipe_read \<noteq> pipe_write" "log_number s \<noteq> Some pipe_read"
      "table s pipe_write \<noteq> None"
  shows "map_option fst (table s' fd) = Some f \<and> 2 < fd \<and> table s' pipe_write = None \<and>
    (\<forall>n\<le>2. exec_fds s' n = std_files [] n)"
proof -
  obtain s1 s2 where st: "safe_dup pipe_read s = (True, fd, s1)" "setup_stdio s1 = (True, s2)" "s' = fd_close pipe_write s2"
    using run by (auto simp: placeholder_fds_def split: prod.splits if_splits bool.splits)
  from safe_dup_True [OF st(1) pipe(1)] obtain c where c: "2 < fd" "table s1 = (table s)(pipe_read := None, fd \<mapsto> (f, c))"
      "fd = pipe_read \<or> table s fd = None" "log_number s1 = log_number s" by blast
  have nl: "log_number s \<noteq> Some fd" using c(3) pipe(4) log by (auto simp: log_ok_def)
  have "log_ok s1" using log c nl pipe(4) by (auto simp: log_ok_def)
  note t = setup_stdio_True [OF st(2) this]
  have w: "fd \<noteq> pipe_write" using c(3) pipe(3,5) by auto
  have "table s2 fd = Some (f, c)" using t [of fd] c nl by simp
  with w st(3) c(1) have "map_option fst (table s' fd) = Some f" by (simp add: fd_close_def)
  moreover have "exec_fds s' n = std_files [] n" if "n \<le> 2" for n
    using t [of n] that st(3) pipe(2) by (simp add: exec_fds_def std_files_def fd_close_def)
  ultimately show ?thesis using c(1) st(3) by (auto simp: fd_close_def)
qed

section \<open>Results\<close>

text \<open>C13: what a child executes. When the child that \<open>spawn_exec\<close> forks for an inittab entry executes
  a program, then whatever calls failed on the way and wherever the copies of init's descriptors were
  (the log may sit on 0, 1 or 2): the environment and arguments are those of the command line of the
  entry; the program has the descriptors 0, 1 and 2 and no others, on the terminal of the entry, or on
  the null device and the log if it has none; no signal is blocked; the program leads its session, runs
  on the core of the entry, and has its terminal as controlling terminal with its settings reset.\<close>

theorem child_program_correct:
  assumes "spawn_child entry s = Inr (Child_Execs c s')" "log_ok s" "private_fds s"
    and "NUL \<notin> set (process_name entry)" "length (process_name entry) + 1 < 2 ^ 64"
  shows "exec_fds s' = std_files (ctty_path entry) \<and> sig_mask s' = [] \<and> session_leader s' \<and>
    (0 \<le> core_id entry \<longrightarrow> affinity s' = Some [nat (core_id entry)]) \<and> terminal_ready (ctty_path entry) s s' \<and>
    (\<exists>es as b. cmdline_spec (process_name entry) = Some (es, as) \<and> freeable c = Some b \<and>
       denotes b ENV_MAX (env c) es \<and> denotes b ARGS_MAX (args c) as)"
  using assms setup_child_execs by (simp only: spawn_child_def)

definition sample_child :: child_state where
  "sample_child = fd_state.extend (sample_fds\<lparr>table := (table sample_fds)(2 \<mapsto> (Log_Device, True)), log_number := Some 2\<rparr>)
     (child_state.fields [Open_EIO, Opens] 0
        (\<lambda>_. \<lparr>c_iflag = 0, c_oflag = 0, c_cflag = 0xFFFFFFFF, c_lflag = 0, c_cc = replicate 32 0\<rparr>) [17, 15] False None None)"

definition sample_program :: "string \<Rightarrow> inittab_entry" where
  "sample_program tty = \<lparr>process_name = ''/bin/login -p'', ctty_path = tty, order = 0, core_id = 1, entry_type = SERVICE\<rparr>"

lemmas sample_child_defs = sample_child_def fd_state.extend_def child_state.fields_def sample_fds_def

lemma sample_child_ok: "log_ok sample_child" "private_fds sample_child" "willing sample_child" "log_number sample_child = Some 2"
  "fd_limit sample_child = 8" "table sample_child 3 = None" "table sample_child 4 = None"
  by (auto simp: sample_child_defs log_ok_def private_fds_def willing_def)

theorem child_program_correct_witness:
  "\<exists>c s'. spawn_child (sample_program ''/dev/tty1'') sample_child = Inr (Child_Execs c s') \<and>
     exec_fds s' = std_files ''/dev/tty1'' \<and> controlling s' = Some ''/dev/tty1'' \<and> affinity s' = Some [1]"
proof -
  let ?e = "sample_program ''/dev/tty1''"
  have "case spawn_child ?e sample_child of Inr (Child_Execs c s') \<Rightarrow> True | _ \<Rightarrow> False" by code_simp
  then obtain c s' where run: "spawn_child ?e sample_child = Inr (Child_Execs c s')"
    by (auto split: sum.splits child_end.splits)
  have "NUL \<notin> set (process_name ?e)" "length (process_name ?e) + 1 < 2 ^ 64" "ctty_path ?e = ''/dev/tty1''" "core_id ?e = 1"
    by (simp_all add: sample_program_def)
  with child_program_correct [OF run sample_child_ok(1,2)] run show ?thesis by (auto simp: terminal_ready_def)
qed

text \<open>C14: the child gets there. For an entry without a terminal, on a core of the first 1024 and with a
  command line that has a meaning, the child does execute its program if no call fails and two
  descriptors above the standard ones are free: no fault, and no error path of \<open>setup_child\<close> is taken,
  wherever init's descriptors and the log are.\<close>

theorem child_program_runs:
  assumes "willing s" "log_ok s" "2 < a" "a < fd_limit s" "table s a = None"
    and "2 < b" "b < fd_limit s" "table s b = None" "a \<noteq> b"
    and "ctty_path entry = []" "core_id entry < 1024"
    and "NUL \<notin> set (process_name entry)" "length (process_name entry) + 1 < 2 ^ 64"
    and "cmdline_spec (process_name entry) \<noteq> None"
  shows "\<exists>c s'. spawn_child entry s = Inr (Child_Execs c s')"
proof -
  let ?s = "s\<lparr>sig_mask := []\<rparr>" and ?core = "core_id entry" and ?cmd = "process_name entry"
  have "willing ?s" using assms(1) by (simp add: willing_def)
  from call_answer_willing [OF this] obtain s1 where 1: "call_answer ?s = (True, s1)" "willing s1" "table s1 = table s"
      "fd_limit s1 = fd_limit s" "log_number s1 = log_number s" by auto
  from call_answer_willing [OF 1(2)] obtain s2 where 2: "call_answer s1 = (True, s2)" "willing s2" "table s2 = table s"
      "fd_limit s2 = fd_limit s" "log_number s2 = log_number s" using 1 by auto
  let ?s2 = "s2\<lparr>session_leader := True\<rparr>"
  have "willing ?s2" using 2(2) by (simp add: willing_def)
  from call_answer_willing [OF this] obtain s2' where a2: "call_answer ?s2 = (True, s2')" "willing s2'" by auto
  define s3 where "s3 = snd (set_affinity ?cmd ?core ?s2)"
  have 3: "set_affinity ?cmd ?core ?s2 = (True, s3)" "willing s3"
    using a2 assms(11) \<open>willing ?s2\<close> by (auto simp: s3_def set_affinity_def CPU_SETSIZE_def willing_def)
  note f = set_affinity_True [OF 3(1)]
  have "log_ok s3" using assms(2) f 2 by (simp add: log_ok_def)
  with setup_stdio_willing [OF 3(2), of a b] assms(3-9) f 2 obtain s4 where 4: "setup_stdio s3 = (True, s4)" "willing s4" by auto
  from call_answer_willing [OF 4(2)] obtain s5 where 5: "call_answer s4 = (True, s5)" by blast
  obtain c where "parse_cmdline True ?cmd zero_contents = Inr (True, c)"
    using parse_cmdline_spec [OF assms(13,12)] assms(14) by auto
  with 1(1) 2(1) 3(1) 4(1) 5 assms(10) show ?thesis
    by (simp add: spawn_child_def setup_child_def run_exec_def)
qed

theorem child_program_runs_witness:
  "\<exists>c s'. spawn_child (sample_program []) sample_child = Inr (Child_Execs c s')"
proof -
  have "cmdline_spec (process_name (sample_program [])) \<noteq> None" by code_simp
  then show ?thesis using sample_child_ok
    by (intro child_program_runs [where a = 3 and b = 4]) (simp_all add: sample_program_def)
qed

text \<open>C15: the placeholder keeps its pipe. After the placeholder has set up its standard descriptors it
  reads from a descriptor above them that is the read end of the pipe, wherever that end was (also
  among 0, 1 and 2), has closed the write end, and has the null device and the log as standard
  descriptors.\<close>

theorem placeholder_keeps_pipe:
  assumes "placeholder_fds pipe_read pipe_write s = (Some fd, s')" "log_ok s"
    and "table s pipe_read = Some (f, b)" "2 < pipe_write" "pipe_read \<noteq> pipe_write" "log_number s \<noteq> Some pipe_read"
      "table s pipe_write \<noteq> None"
  shows "map_option fst (table s' fd) = Some f \<and> 2 < fd \<and> table s' pipe_write = None \<and>
    (\<forall>n\<le>2. exec_fds s' n = std_files [] n)"
  using assms by (rule placeholder_fds_Some)

definition sample_pipe :: fd_state where
  "sample_pipe = sample_fds\<lparr>table := (table sample_fds)(2 \<mapsto> (Other_File 7, True), 3 \<mapsto> (Other_File 8, True),
     4 \<mapsto> (Log_Device, True)), log_number := Some 4\<rparr>"

theorem placeholder_keeps_pipe_witness:
  "\<exists>fd s'. placeholder_fds 2 3 sample_pipe = (Some fd, s') \<and> 2 < fd \<and> map_option fst (table s' fd) = Some (Other_File 7)"
proof -
  have "case placeholder_fds 2 3 sample_pipe of (Some fd, s') \<Rightarrow> True | _ \<Rightarrow> False" by code_simp
  then obtain fd s' where run: "placeholder_fds 2 3 sample_pipe = (Some fd, s')" by (auto split: prod.splits option.splits)
  have "log_ok sample_pipe" "table sample_pipe 2 = Some (Other_File 7, True)" "log_number sample_pipe \<noteq> Some 2"
    "table sample_pipe 3 \<noteq> None"
    by (simp_all add: sample_pipe_def sample_fds_def log_ok_def)
  with placeholder_keeps_pipe [OF run, of "Other_File 7" True] run show ?thesis by auto
qed

text \<open>C28: opening a terminal. \<open>open_console\<close> ends after at most ten attempts and as many pauses; if
  fewer than ten attempts fail with EIO before \<open>open\<close> succeeds, it opens the terminal, after exactly
  as many pauses.\<close>

theorem open_console_bounded:
  assumes "open_console terminal s = (r, s')"
  shows "naps s' \<le> naps s + 10 \<and> (\<exists>used. console_answers s = used @ console_answers s' \<and> length used \<le> 10) \<and>
    (\<forall>k as. k < 10 \<longrightarrow> console_answers s = replicate k Open_EIO @ Opens # as \<longrightarrow>
       (r, s') = fd_open (Terminal terminal) True (s\<lparr>console_answers := as, naps := naps s + k\<rparr>))"
  using assms open_console_attempts [of 10 terminal s r s'] open_console_retries [of _ 10 s _ terminal]
  by (auto simp: open_console_def)

theorem open_console_bounded_witness:
  "case open_console ''/dev/console'' (sample_child\<lparr>console_answers := replicate 12 Open_EIO\<rparr>) of
     (r, s') \<Rightarrow> r = None \<and> naps s' \<le> 10 \<and> length (console_answers s') = 2"
proof -
  let ?s = "sample_child\<lparr>console_answers := replicate 12 Open_EIO\<rparr>"
  obtain r s' where run: "open_console ''/dev/console'' ?s = (r, s')" by (cases "open_console ''/dev/console'' ?s")
  have "case open_console ''/dev/console'' ?s of (r, s') \<Rightarrow> r = None \<and> length (console_answers s') = 2" by code_simp
  with open_console_bounded [OF run] run show ?thesis by (simp add: sample_child_defs)
qed

text \<open>The control characters as they are typed (\<open>Ctrl\<close> takes the low five bits of the letter), by the
  index of \<open>termios.h\<close>, and the flags as bit numbers.\<close>

definition ctrl :: "char \<Rightarrow> 8 word" where
  "ctrl c = take_bit 5 (of_char c)"

definition typed_chars :: "(nat \<times> 8 word) list" where
  "typed_chars =
     [(0, ctrl CHR ''C''), (1, ctrl CHR 0x5C), (2, 127), (3, ctrl CHR ''U''), (4, ctrl CHR ''D''), (5, 0), (6, 1),
      (8, ctrl CHR ''Q''), (9, ctrl CHR ''S''), (10, ctrl CHR ''Z''), (11, 0), (12, ctrl CHR ''R''),
      (14, ctrl CHR ''W''), (15, ctrl CHR ''V''), (16, 0)]"

lemma control_chars_typed: "control_chars = typed_chars"
  by (simp add: control_chars_def typed_chars_def ctrl_def)

text \<open>C29: the settings of a terminal after a \<open>reset_console\<close> that succeeds, bit by bit. Of the control
  modes, speed (bits 0 to 3 and 12), size (4, 5), stop bits (6) and parity (8, 9) are as before, receiver
  (7), hang-up (10) and local (11) are set and all others are cleared; the input modes are IGNPAR, ICRNL,
  IXON, IXANY (2, 8, 10, 11), the output modes OPOST and ONLCR (0, 2), the local modes ISIG, ICANON, ECHO,
  ECHOCTL, ECHOPRT, ECHOKE (0, 1, 3, 9, 10, 11) and nothing else. The interrupt character is Ctrl-C, quit
  is Ctrl-backslash, erase is DEL, kill is Ctrl-U (a comment of the code says Ctrl-X), end of file is
  Ctrl-D, start and stop are Ctrl-Q and Ctrl-S, suspend is Ctrl-Z, reprint, word erase and literal next are
  Ctrl-R, Ctrl-W and Ctrl-V, a read waits for one character without a timeout, the other line ends are
  off, and every other character is as before. Every other terminal is as before; a second reset changes
  nothing.\<close>

theorem reset_console_settings:
  assumes "reset_console fd s = (True, s')" "table s fd = Some (Terminal p, b)"
  shows "(\<forall>n. bit (c_cflag (attrs s' p)) n \<longleftrightarrow>
      n \<in> {7, 10, 11} \<or> n \<in> {0, 1, 2, 3, 4, 5, 6, 8, 9, 12} \<and> bit (c_cflag (attrs s p)) n) \<and>
    (\<forall>n. bit (c_iflag (attrs s' p)) n \<longleftrightarrow> n \<in> {2, 8, 10, 11}) \<and>
    (\<forall>n. bit (c_oflag (attrs s' p)) n \<longleftrightarrow> n \<in> {0, 2}) \<and>
    (\<forall>n. bit (c_lflag (attrs s' p)) n \<longleftrightarrow> n \<in> {0, 1, 3, 9, 10, 11}) \<and>
    length (c_cc (attrs s' p)) = length (c_cc (attrs s p)) \<and>
    (\<forall>i < length (c_cc (attrs s p)). c_cc (attrs s' p) ! i =
       (case map_of typed_chars i of Some v \<Rightarrow> v | None \<Rightarrow> c_cc (attrs s p) ! i)) \<and>
    reset_termios (attrs s' p) = attrs s' p \<and> (\<forall>q. q \<noteq> p \<longrightarrow> attrs s' q = attrs s q)"
proof -
  let ?t = "reset_termios (attrs s p)"
  have a: "attrs s' = (attrs s)(p := ?t)" by (rule reset_console_True(2) [OF assms])
  have c: "bit (c_cflag ?t) n \<longleftrightarrow> n \<in> {7, 10, 11} \<or> n \<in> {0, 1, 2, 3, 4, 5, 6, 8, 9, 12} \<and> bit (c_cflag (attrs s p)) n" for n
    by (auto simp: reset_termios_def bit_and_iff bit_or_iff termios_bits)
  have m: "bit (c_iflag ?t) n \<longleftrightarrow> n \<in> {2, 8, 10, 11}" "bit (c_oflag ?t) n \<longleftrightarrow> n \<in> {0, 2}"
      "bit (c_lflag ?t) n \<longleftrightarrow> n \<in> {0, 1, 3, 9, 10, 11}" for n
    by (simp_all add: reset_termios_def termios_bits)
  have cc: "c_cc ?t ! i = (case map_of typed_chars i of Some v \<Rightarrow> v | None \<Rightarrow> c_cc (attrs s p) ! i)"
    if "i < length (c_cc (attrs s p))" for i
    using fold_update_nth [OF control_chars_distinct that] by (simp add: reset_termios_def control_chars_typed)
  have len: "length (c_cc ?t) = length (c_cc (attrs s p))" by (simp add: reset_termios_def fold_update_length)
  have idem: "reset_termios ?t = ?t"
    by (simp add: reset_termios_def reset_cflag fold_update_idem [OF control_chars_distinct])
  show ?thesis unfolding a fun_upd_same using c m cc len idem by (simp only: fun_upd_apply) simp
qed

theorem reset_console_settings_witness:
  "\<exists>s'. reset_console 3 (sample_child\<lparr>table := [3 \<mapsto> (Terminal ''/dev/console'', True)]\<rparr>) = (True, s') \<and>
     bit (c_cflag (attrs s' ''/dev/console'')) 7 \<and> \<not> bit (c_cflag (attrs s' ''/dev/console'')) 31 \<and>
     bit (c_iflag (attrs s' ''/dev/console'')) 8 \<and> \<not> bit (c_lflag (attrs s' ''/dev/console'')) 2"
proof -
  let ?s = "sample_child\<lparr>table := [3 \<mapsto> (Terminal ''/dev/console'', True)]\<rparr>"
  obtain s' where run: "reset_console 3 ?s = (True, s')"
    by (simp add: reset_console_def call_answer_def sample_child_defs)
  from reset_console_settings [OF run, of "''/dev/console''" True] run show ?thesis by simp
qed

end
