(* ===== verification/Mount_Options.thy ===== *)
theory Mount_Options
  imports Tokens
begin

text \<open>
  Mount options of \<open>/etc/fstab\<close> (\<open>src/mount.c\<close>, \<open>add_option_flag\<close>,
  \<open>add_unknown_option\<close>, \<open>parse_fstab_mnt_options\<close>): the options that have a flag are
  or-ed into (or and-ed out of) an \<open>unsigned long\<close>, the others are joined with commas for the
  file system. The results say which flags and which text come out: each bit of the flags is decided
  by the last option that touches it.
\<close>

unbundle bit_operations_syntax

section \<open>Definitions\<close>

type_synonym mount_flags = "64 word"

text \<open>
  The constants of \<open>sys/mount.h\<close>. They are enumerators of type \<open>int\<close>: \<open>MS_NOUSER\<close> is
  \<open>1 << 31\<close>, the least \<open>int\<close>, so as an \<open>unsigned long\<close> it is sign-extended and has its
  bits 31 to 63 set.
\<close>

definition MS_RDONLY :: mount_flags where "MS_RDONLY = 1"
definition MS_NOSUID :: mount_flags where "MS_NOSUID = 2"
definition MS_NODEV :: mount_flags where "MS_NODEV = 4"
definition MS_NOEXEC :: mount_flags where "MS_NOEXEC = 8"
definition MS_SYNCHRONOUS :: mount_flags where "MS_SYNCHRONOUS = 16"
definition MS_REMOUNT :: mount_flags where "MS_REMOUNT = 32"
definition MS_MANDLOCK :: mount_flags where "MS_MANDLOCK = 64"
definition MS_DIRSYNC :: mount_flags where "MS_DIRSYNC = 128"
definition MS_NOATIME :: mount_flags where "MS_NOATIME = 1024"
definition MS_NODIRATIME :: mount_flags where "MS_NODIRATIME = 2048"
definition MS_SILENT :: mount_flags where "MS_SILENT = 32768"
definition MS_RELATIME :: mount_flags where "MS_RELATIME = 2097152"
definition MS_I_VERSION :: mount_flags where "MS_I_VERSION = 8388608"
definition MS_STRICTATIME :: mount_flags where "MS_STRICTATIME = 16777216"
definition MS_NOUSER :: mount_flags where "MS_NOUSER = 0xFFFFFFFF80000000"

lemmas MS_defs = MS_RDONLY_def MS_NOSUID_def MS_NODEV_def MS_NOEXEC_def MS_SYNCHRONOUS_def
  MS_REMOUNT_def MS_MANDLOCK_def MS_DIRSYNC_def MS_NOATIME_def MS_NODIRATIME_def MS_SILENT_def
  MS_RELATIME_def MS_I_VERSION_def MS_STRICTATIME_def MS_NOUSER_def

record mnt_option =
  option_name :: string
  flag :: mount_flags
  negated :: bool

definition options :: "mnt_option list" where
  "options = map (\<lambda>(n, f, g). \<lparr>option_name = n, flag = f, negated = g\<rparr>)
     [(''defaults'', MS_NOUSER, False),
      (''ro'', MS_RDONLY, False),
      (''rw'', NOT MS_RDONLY, True),
      (''noexec'', MS_NOEXEC, False),
      (''exec'', NOT MS_NOEXEC, True),
      (''nodev'', MS_NODEV, False),
      (''dev'', NOT MS_NODEV, True),
      (''nouser'', MS_NOUSER, False),
      (''user'', NOT MS_NOUSER, True),
      (''relatime'', MS_RELATIME, False),
      (''norelatime'', NOT MS_RELATIME, True),
      (''sync'', MS_SYNCHRONOUS, False),
      (''async'', NOT MS_SYNCHRONOUS, True),
      (''silent'', MS_SILENT, False),
      (''loud'', NOT MS_SILENT, True),
      (''noatime'', MS_NOATIME, False),
      (''atime'', NOT MS_NOATIME, True),
      (''strictatime'', MS_STRICTATIME, False),
      (''nostrictatime'', NOT MS_STRICTATIME, True),
      (''nosuid'', MS_NOSUID, False),
      (''suid'', NOT MS_NOSUID, True),
      (''nodiratime'', MS_NODIRATIME, False),
      (''diratime'', NOT MS_NODIRATIME, True),
      (''iversion'', MS_I_VERSION, False),
      (''noiversion'', NOT MS_I_VERSION, True),
      (''mand'', MS_MANDLOCK, False),
      (''nomand'', NOT MS_MANDLOCK, True),
      (''dirsync'', MS_DIRSYNC, False),
      (''remount'', MS_REMOUNT, False),
      (''nofail'', 0, False)]"

text \<open>The first row with the name of the option is applied.\<close>

definition add_option_flag :: "string \<Rightarrow> mount_flags \<Rightarrow> bool \<times> mount_flags" where
  "add_option_flag opt flags =
     (case find (\<lambda>r. option_name r = opt) options of
        None \<Rightarrow> (False, flags)
      | Some r \<Rightarrow> (True, if negated r then flags AND flag r else flags OR flag r))"

text \<open>
  \<open>sprintf\<close> into a block of \<open>n\<close> bytes: the text and its NUL must fit. The answers are
  those of \<open>strdup\<close>, \<open>calloc\<close> and \<open>sprintf\<close>.
\<close>

definition sprintf_into :: "nat \<Rightarrow> string \<Rightarrow> string c_res" where
  "sprintf_into n s = (if length s + 1 \<le> n then Inr s else Inl Out_Of_Bounds)"

definition add_unknown_option ::
    "string option \<Rightarrow> string \<Rightarrow> bool list \<Rightarrow> (bool \<times> string option \<times> bool list) c_res" where
  "add_unknown_option unknown_opts opt answers =
     (case pop_ok answers of (alloc, answers1) \<Rightarrow>
        case unknown_opts of
          None \<Rightarrow> Inr (if alloc then (True, Some opt, answers1) else (False, None, answers1))
        | Some u \<Rightarrow>
            if \<not> alloc then Inr (False, Some u, answers1)
            else case pop_ok answers1 of (printed, answers2) \<Rightarrow>
              if \<not> printed then Inr (False, Some u, answers2)
              else res_bind (sprintf_into (length u + length opt + 2) (u @ CHR '','' # opt))
                     (\<lambda>tmp. Inr (True, Some tmp, answers2)))"

text \<open>The loop of \<open>parse_fstab_mnt_options\<close>; the first component is false for \<open>goto err\<close>.\<close>

function option_loop ::
    "lexer_data \<Rightarrow> mount_flags \<Rightarrow> string option \<Rightarrow> bool list \<Rightarrow>
     (bool \<times> mount_flags \<times> string option \<times> bool list) c_res" where
  "option_loop l flags unknown answers =
     res_bind (next_token l (CHR '','') True False)
       (\<lambda>(tr, opt, l'). case (tr, opt) of
          (TOKEN_END, _) \<Rightarrow> Inr (True, flags, unknown, answers)
        | (TOKEN_OK, Some i) \<Rightarrow>
            (case add_option_flag (cstring_at (buf l') i) flags of
               (True, flags') \<Rightarrow> option_loop l' flags' unknown answers
             | (False, flags') \<Rightarrow>
                 res_bind (add_unknown_option unknown (cstring_at (buf l') i) answers)
                   (\<lambda>(ok, unknown', answers').
                      if ok then option_loop l' flags' unknown' answers'
                      else Inr (False, flags', unknown', answers')))
        | (TOKEN_BLANK, _) \<Rightarrow> option_loop l' flags unknown answers
        | _ \<Rightarrow> Inr (False, flags, unknown, answers))"
  by pat_completeness auto
termination
  by (relation "measure (\<lambda>(l, f, u, a). to_go l)")
    (auto dest: next_token_to_go [OF _ disjI1] next_token_to_go [OF _ disjI2])

declare option_loop.simps [simp del]

text \<open>\<open>parse_fstab_mnt_options\<close>: success, \<open>*flags\<close>, \<open>*unknown_opts\<close>, answers left.\<close>

definition parse_fstab_mnt_options ::
    "string \<Rightarrow> bool list \<Rightarrow> (bool \<times> mount_flags \<times> string option \<times> bool list) c_res" where
  "parse_fstab_mnt_options mnt_options answers =
     (if mnt_options = [] then Inr (False, 0, None, answers)
      else case pop_ok answers of (dup_ok, answers1) \<Rightarrow>
        if \<not> dup_ok then Inr (False, 0, None, answers1)
        else res_bind
          (option_loop (init_lexer (mnt_options @ [NUL]) (of_nat (length mnt_options + 1))) 0 None answers1)
          (\<lambda>(ok, flags, unknown, answers2).
             if ok then Inr (True, flags, unknown, answers2) else Inr (False, flags, None, answers2)))"

subsection \<open>What it means\<close>

text \<open>The options of a field: its non-empty tokens.\<close>

definition option_tokens :: "string \<Rightarrow> (bool \<times> string) list" where
  "option_tokens s = tokens_of (CHR '','') True False s"

definition option_list :: "string \<Rightarrow> string list" where
  "option_list s = filter (\<lambda>t. t \<noteq> []) (map snd (option_tokens s))"

definition known :: "string \<Rightarrow> bool" where
  "known opt \<longleftrightarrow> opt \<in> option_name ` set options"

definition apply_option :: "mount_flags \<Rightarrow> string \<Rightarrow> mount_flags" where
  "apply_option flags opt = snd (add_option_flag opt flags)"

definition flags_of :: "string list \<Rightarrow> mount_flags" where
  "flags_of opts = foldl apply_option 0 opts"

fun join_comma :: "string list \<Rightarrow> string" where
  "join_comma [] = []"
| "join_comma [x] = x"
| "join_comma (x # y # xs) = x @ CHR '','' # join_comma (y # xs)"

definition unknown_of :: "string list \<Rightarrow> string option" where
  "unknown_of opts = (case filter (\<lambda>t. \<not> known t) opts of [] \<Rightarrow> None | us \<Rightarrow> Some (join_comma us))"

text \<open>
  The meaning of the options bit by bit, independent of the table of the code: which options set the
  bit and which clear it. The bits of \<open>MS_NOUSER\<close> are set by two options.
\<close>

definition sets_bit :: "nat \<Rightarrow> string \<Rightarrow> bool" where
  "sets_bit n opt \<longleftrightarrow> (n, opt) \<in> set
     [(0, ''ro''), (1, ''nosuid''), (2, ''nodev''), (3, ''noexec''), (4, ''sync''), (5, ''remount''), (6, ''mand''),
      (7, ''dirsync''), (10, ''noatime''), (11, ''nodiratime''), (15, ''silent''), (21, ''relatime''),
      (23, ''iversion''), (24, ''strictatime'')] \<or>
     31 \<le> n \<and> n < 64 \<and> (opt = ''nouser'' \<or> opt = ''defaults'')"

definition clears_bit :: "nat \<Rightarrow> string \<Rightarrow> bool" where
  "clears_bit n opt \<longleftrightarrow> (n, opt) \<in> set
     [(0, ''rw''), (1, ''suid''), (2, ''dev''), (3, ''exec''), (4, ''async''), (6, ''nomand''), (10, ''atime''),
      (11, ''diratime''), (15, ''loud''), (21, ''norelatime''), (23, ''noiversion''), (24, ''nostrictatime'')] \<or>
     31 \<le> n \<and> n < 64 \<and> opt = ''user''"

text \<open>The last option of a list that touches the bit, if any, sets it.\<close>

definition last_sets :: "nat \<Rightarrow> string list \<Rightarrow> bool" where
  "last_sets n opts = (case find (\<lambda>x. sets_bit n x \<or> clears_bit n x) (rev opts) of None \<Rightarrow> False | Some x \<Rightarrow> sets_bit n x)"

section \<open>Flags\<close>

lemma add_option_flag_known: "fst (add_option_flag opt flags) \<longleftrightarrow> known opt"
  by (auto simp: add_option_flag_def known_def find_None_iff find_Some_iff image_iff
      split: option.splits)

text \<open>What each row of the table does to each bit.\<close>

definition row_ok :: "mnt_option \<Rightarrow> nat \<Rightarrow> bool" where
  "row_ok r n =
     (if sets_bit n (option_name r) then \<not> negated r \<and> bit (flag r) n
      else if clears_bit n (option_name r) then negated r \<and> \<not> bit (flag r) n
      else bit (flag r) n = negated r)"

lemma bit_power: "w = 2 ^ k \<Longrightarrow> k < 64 \<Longrightarrow> bit (w :: mount_flags) n \<longleftrightarrow> n = k"
  by (auto simp: bit_exp_iff)

lemma bit_MS:
  "bit MS_RDONLY n \<longleftrightarrow> n = 0" "bit MS_NOSUID n \<longleftrightarrow> n = 1" "bit MS_NODEV n \<longleftrightarrow> n = 2"
  "bit MS_NOEXEC n \<longleftrightarrow> n = 3" "bit MS_SYNCHRONOUS n \<longleftrightarrow> n = 4" "bit MS_REMOUNT n \<longleftrightarrow> n = 5"
  "bit MS_MANDLOCK n \<longleftrightarrow> n = 6" "bit MS_DIRSYNC n \<longleftrightarrow> n = 7" "bit MS_NOATIME n \<longleftrightarrow> n = 10"
  "bit MS_NODIRATIME n \<longleftrightarrow> n = 11" "bit MS_SILENT n \<longleftrightarrow> n = 15" "bit MS_RELATIME n \<longleftrightarrow> n = 21"
  "bit MS_I_VERSION n \<longleftrightarrow> n = 23" "bit MS_STRICTATIME n \<longleftrightarrow> n = 24"
  by (rule bit_power; simp add: MS_defs)+

lemma bit_MS_NOUSER: "bit MS_NOUSER n \<longleftrightarrow> 31 \<le> n \<and> n < 64"
proof -
  have high: "MS_NOUSER = NOT (mask 31)" by (simp add: MS_NOUSER_def mask_eq_exp_minus_1)
  show ?thesis unfolding high by (auto simp: bit_not_iff bit_mask_iff)
qed

lemma rows_ok: "n < 64 \<Longrightarrow> list_all (\<lambda>r. row_ok r n) options"
  by (simp add: options_def row_ok_def sets_bit_def clears_bit_def bit_not_iff bit_MS bit_MS_NOUSER)

lemma sets_bit_known: "sets_bit n opt \<or> clears_bit n opt \<Longrightarrow> n < 64 \<and> known opt"
  by (auto simp: sets_bit_def clears_bit_def known_def options_def)

lemma apply_option_unknown: "\<not> known opt \<Longrightarrow> apply_option flags opt = flags"
  using add_option_flag_known [of opt flags]
  by (auto simp: apply_option_def add_option_flag_def split: option.splits)

lemma bit_apply_option:
  assumes "n < 64"
  shows "bit (apply_option flags opt) n =
    (if sets_bit n opt then True else if clears_bit n opt then False else bit flags n)"
proof (cases "known opt")
  case True
  then obtain r where r: "find (\<lambda>r. option_name r = opt) options = Some r"
    using add_option_flag_known [of opt flags]
    by (auto simp: add_option_flag_def split: option.splits)
  then have "r \<in> set options" "option_name r = opt" by (auto simp: find_Some_iff)
  with rows_ok assms have "row_ok r n" by (simp add: list_all_iff)
  with r \<open>option_name r = opt\<close> show ?thesis
    by (auto simp: apply_option_def add_option_flag_def row_ok_def bit_and_iff bit_or_iff
        split: if_splits)
next
  case False
  with sets_bit_known [of n opt] show ?thesis by (auto simp: apply_option_unknown)
qed

lemma bit_flags_of: "bit (flags_of opts) n = last_sets n opts"
proof (cases "n < 64")
  case True
  show ?thesis unfolding flags_of_def
  proof (induction opts rule: rev_induct)
    case (snoc opt opts)
    then show ?case by (simp add: bit_apply_option [OF True] last_sets_def)
  qed (simp add: last_sets_def)
next
  case False
  then have "bit (flags_of opts) n = False" by (auto dest: bit_imp_le_length)
  with False sets_bit_known [of n] show ?thesis by (auto simp: last_sets_def find_Some_iff split: option.split)
qed

section \<open>Unknown options\<close>

lemma join_comma_snoc: "xs \<noteq> [] \<Longrightarrow> join_comma (xs @ [x]) = join_comma xs @ CHR '','' # x"
  by (induction xs rule: join_comma.induct) auto

lemma unknown_of_snoc:
  "unknown_of (xs @ [x]) =
     (if known x then unknown_of xs
      else Some (case unknown_of xs of None \<Rightarrow> x | Some u \<Rightarrow> u @ CHR '','' # x))"
proof (cases "filter (\<lambda>t. \<not> known t) xs")
  case Nil
  then show ?thesis by (simp add: unknown_of_def)
next
  case (Cons u us)
  then show ?thesis using join_comma_snoc [of "u # us" x] by (simp add: unknown_of_def)
qed

text \<open>The block allocated for the joined text is always large enough.\<close>

lemma add_unknown_option_ok:
  "\<exists>ok u' answers'. add_unknown_option u opt answers = Inr (ok, u', answers') \<and>
     (ok \<longrightarrow> u' = Some (case u of None \<Rightarrow> opt | Some x \<Rightarrow> x @ CHR '','' # opt))"
  by (auto simp: add_unknown_option_def sprintf_into_def split: prod.splits option.splits)

lemma add_unknown_option_all_ok:
  "add_unknown_option u opt [] =
     Inr (True, Some (case u of None \<Rightarrow> opt | Some x \<Rightarrow> x @ CHR '','' # opt), [])"
  by (auto simp: add_unknown_option_def sprintf_into_def split: option.splits)

section \<open>The loop\<close>

abbreviation opt_ahead :: "lexer_data \<Rightarrow> (bool \<times> string) list \<Rightarrow> bool" where
  "opt_ahead \<equiv> lexer_ahead (CHR '','') True False"

text \<open>One turn of the loop, for each kind of token.\<close>

lemma option_loop_Nil: "opt_ahead l [] \<Longrightarrow> option_loop l f u a = Inr (True, f, u, a)"
  using lexer.nxt_Nil by (subst option_loop.simps) simp

lemma option_loop_proper:
  assumes "opt_ahead l ((False, t) # ts)" "t \<noteq> []"
  shows "\<exists>l'. opt_ahead l' ts \<and> (\<forall>f u a. option_loop l f u a =
    (if known t then option_loop l' (apply_option f t) u a
     else res_bind (add_unknown_option u t a)
       (\<lambda>(ok, u', a'). if ok then option_loop l' f u' a' else Inr (False, f, u', a'))))"
proof -
  have "proper (False, t)" using assms(2) by (simp add: proper_def)
  then obtain i l' where nt: "next_token l (CHR '','') True False = Inr (TOKEN_OK, Some i, l')"
    and ahead: "opt_ahead l' ts" and den: "lexer_den l' i t"
    using lexer.nxt_proper [OF assms(1)] by metis
  have unf: "option_loop l f u a = (case add_option_flag t f of
      (True, f') \<Rightarrow> option_loop l' f' u a
    | (False, f') \<Rightarrow> res_bind (add_unknown_option u t a)
        (\<lambda>(ok, u', a'). if ok then option_loop l' f' u' a' else Inr (False, f', u', a')))" for f u a
    using nt lexer_den_text [OF den]
    by (subst option_loop.simps) (simp split: prod.split bool.split)
  have "add_option_flag t f = (known t, apply_option f t)" for f
    using add_option_flag_known [of t f] by (simp add: apply_option_def prod_eq_iff)
  with unf ahead show ?thesis
    by (intro exI [of _ l']) (cases "known t", simp_all add: apply_option_unknown)
qed

lemma option_loop_blank:
  assumes "opt_ahead l ((False, []) # ts)"
  obtains l' where "opt_ahead l' ts" "option_loop l f u a = option_loop l' f u a"
proof -
  have "\<not> proper (False, [])" by (simp add: proper_def)
  with assms obtain i l' where "next_token l (CHR '','') True False = Inr (TOKEN_BLANK, Some i, l')"
    "opt_ahead l' ts" using lexer.nxt_improper by metis
  with that show ?thesis by (auto simp: option_loop.simps [of l])
qed

lemma option_loop_open:
  assumes "opt_ahead l ((True, t) # ts)"
  shows "option_loop l f u a = Inr (False, f, u, a)"
proof -
  have "\<not> proper (True, t)" by (simp add: proper_def)
  with assms obtain tr i l' where "next_token l (CHR '','') True False = Inr (tr, Some i, l')"
    "tr \<noteq> TOKEN_OK" "tr \<noteq> TOKEN_END" "tr \<noteq> TOKEN_BLANK" using lexer.nxt_improper by metis
  then show ?thesis by (cases tr) (auto simp: option_loop.simps [of l])
qed

text \<open>The options read so far are \<open>xs\<close>. With memory for everything, the loop reads the rest.\<close>

lemma option_loop_all_ok:
  assumes "opt_ahead l ts"
  shows "\<exists>f u. option_loop l (flags_of xs) (unknown_of xs) [] = Inr (\<not> list_ex fst ts, f, u, []) \<and>
    (\<not> list_ex fst ts \<longrightarrow> f = flags_of (xs @ filter (\<lambda>t. t \<noteq> []) (map snd ts)) \<and>
       u = unknown_of (xs @ filter (\<lambda>t. t \<noteq> []) (map snd ts)))"
  using assms
proof (induction ts arbitrary: l xs)
  case Nil
  then show ?case by (simp add: option_loop_Nil)
next
  case (Cons ut ts)
  consider (open_quote) t where "ut = (True, t)" | (blank) "ut = (False, [])"
    | (word) t where "ut = (False, t)" "t \<noteq> []" by (cases ut) auto
  then show ?case
  proof cases
    case open_quote
    with Cons.prems show ?thesis by (simp add: option_loop_open)
  next
    case blank
    with Cons.prems obtain l' where "opt_ahead l' ts" "option_loop l (flags_of xs) (unknown_of xs) [] =
        option_loop l' (flags_of xs) (unknown_of xs) []" by (metis option_loop_blank)
    with Cons.IH blank show ?thesis by simp
  next
    case word
    have snoc: "flags_of (xs @ [t]) = apply_option (flags_of xs) t" by (simp add: flags_of_def)
    have u: "\<not> known t \<Longrightarrow> flags_of (xs @ [t]) = flags_of xs"
      by (simp add: snoc apply_option_unknown)
    obtain l' where l': "opt_ahead l' ts" "\<And>f u a. option_loop l f u a =
        (if known t then option_loop l' (apply_option f t) u a
         else res_bind (add_unknown_option u t a)
           (\<lambda>(ok, u', a'). if ok then option_loop l' f u' a' else Inr (False, f, u', a')))"
      using option_loop_proper [OF Cons.prems [unfolded word(1)] word(2)] by blast
    have "option_loop l (flags_of xs) (unknown_of xs) [] =
        option_loop l' (flags_of (xs @ [t])) (unknown_of (xs @ [t])) []"
      using snoc u by (simp only: l'(2), cases "known t") (simp_all add: unknown_of_snoc add_unknown_option_all_ok)
    then show ?thesis using Cons.IH [OF l'(1), of "xs @ [t]"] word by simp
  qed
qed

text \<open>Whatever the allocator answers: no fault, and what a success returns is right.\<close>

lemma option_loop_any:
  assumes "opt_ahead l ts"
  shows "\<exists>ok f u a'. option_loop l (flags_of xs) (unknown_of xs) a = Inr (ok, f, u, a') \<and>
    (ok \<longrightarrow> \<not> list_ex fst ts \<and> f = flags_of (xs @ filter (\<lambda>t. t \<noteq> []) (map snd ts)) \<and>
       u = unknown_of (xs @ filter (\<lambda>t. t \<noteq> []) (map snd ts)))"
  using assms
proof (induction ts arbitrary: l xs a)
  case Nil
  then show ?case by (auto simp: option_loop_Nil)
next
  case (Cons ut ts)
  consider (open_quote) t where "ut = (True, t)" | (blank) "ut = (False, [])"
    | (word) t where "ut = (False, t)" "t \<noteq> []" by (cases ut) auto
  then show ?case
  proof cases
    case open_quote
    with Cons.prems show ?thesis by (auto simp: option_loop_open)
  next
    case blank
    with Cons.prems obtain l' where "opt_ahead l' ts" "option_loop l (flags_of xs) (unknown_of xs) a =
        option_loop l' (flags_of xs) (unknown_of xs) a" by (metis option_loop_blank)
    with Cons.IH blank show ?thesis by simp
  next
    case word
    have snoc: "flags_of (xs @ [t]) = apply_option (flags_of xs) t" by (simp add: flags_of_def)
    obtain l' where l': "opt_ahead l' ts" "\<And>f u a. option_loop l f u a =
        (if known t then option_loop l' (apply_option f t) u a
         else res_bind (add_unknown_option u t a)
           (\<lambda>(ok, u', a'). if ok then option_loop l' f u' a' else Inr (False, f, u', a')))"
      using option_loop_proper [OF Cons.prems [unfolded word(1)] word(2)] by blast
    note IH = Cons.IH [OF l'(1), of "xs @ [t]"]
    show ?thesis
    proof (cases "known t")
      case True
      then have "unknown_of (xs @ [t]) = unknown_of xs" by (simp add: unknown_of_snoc)
      with IH [of a] True snoc word show ?thesis by (simp add: l'(2) [of "flags_of xs"])
    next
      case False
      obtain ok u' a1 where add: "add_unknown_option (unknown_of xs) t a = Inr (ok, u', a1)"
        "ok \<longrightarrow> u' = unknown_of (xs @ [t])"
        using add_unknown_option_ok [of "unknown_of xs" t a] False
        by (auto simp: unknown_of_snoc)
      have "flags_of (xs @ [t]) = flags_of xs" using False by (simp add: snoc apply_option_unknown)
      with IH [of a1] False add word show ?thesis
        by (cases ok) (auto simp: l'(2) [of "flags_of xs"])
    qed
  qed
qed

lemma parse_fstab_spec:
  assumes "length s + 1 < 2 ^ 64" "NUL \<notin> set s"
  shows "\<exists>ok f u a'. parse_fstab_mnt_options s a = Inr (ok, f, u, a') \<and>
    (ok \<longrightarrow> s \<noteq> [] \<and> \<not> list_ex fst (option_tokens s) \<and>
       f = flags_of (option_list s) \<and> u = unknown_of (option_list s)) \<and>
    (\<not> ok \<longrightarrow> u = None) \<and>
    (a = [] \<and> s \<noteq> [] \<and> \<not> list_ex fst (option_tokens s) \<longrightarrow> ok)"
proof (cases "s = []")
  case False
  obtain b a1 where pop: "pop_ok a = (b, a1)" by (cases "pop_ok a")
  have init: "flags_of [] = 0" "unknown_of [] = None" by (simp_all add: flags_of_def unknown_of_def)
  let ?l = "init_lexer (s @ [NUL]) (of_nat (length s + 1))"
  have ahead: "opt_ahead ?l (option_tokens s)"
    unfolding option_tokens_def using assms by (rule lexer_ahead_init)
  obtain ok f u a2 where any: "option_loop ?l 0 None a1 = Inr (ok, f, u, a2)"
      "ok \<longrightarrow> \<not> list_ex fst (option_tokens s) \<and> f = flags_of (option_list s) \<and> u = unknown_of (option_list s)"
    using option_loop_any [OF ahead, of "[]" a1] by (auto simp: init option_list_def)
  have "ok" if "a = []" "\<not> list_ex fst (option_tokens s)"
    using option_loop_all_ok [OF ahead, of "[]"] any(1) that pop by (auto simp: init)
  with any pop False show ?thesis by (cases a) (auto simp: parse_fstab_mnt_options_def)
qed (auto simp: parse_fstab_mnt_options_def)

section \<open>Results\<close>

text \<open>C19: on every option field \<open>parse_fstab_mnt_options\<close> returns without a fault, whatever the
  allocator answers, and a success gives the flags and the joined unknown options of the list of
  options; with memory it succeeds exactly on the non-empty fields without an open quote, and
  every failure leaves \<open>*unknown_opts\<close> NULL.\<close>

theorem parse_fstab_mnt_options_correct:
  assumes "length s + 1 < 2 ^ 64" "NUL \<notin> set s"
  shows "\<exists>ok f u a'. parse_fstab_mnt_options s a = Inr (ok, f, u, a') \<and>
    (ok \<longrightarrow> s \<noteq> [] \<and> \<not> list_ex fst (option_tokens s) \<and>
       f = flags_of (option_list s) \<and> u = unknown_of (option_list s)) \<and>
    (\<not> ok \<longrightarrow> u = None) \<and>
    (a = [] \<and> s \<noteq> [] \<and> \<not> list_ex fst (option_tokens s) \<longrightarrow> ok)"
  using assms by (rule parse_fstab_spec)

theorem parse_fstab_mnt_options_correct_witness:
  "\<exists>a'. parse_fstab_mnt_options ''ro,size=1k,,nodev,x'' [] =
     Inr (True, MS_RDONLY OR MS_NODEV, Some ''size=1k,x'', a')"
proof -
  let ?s = "''ro,size=1k,,nodev,x''"
  have opts: "option_list ?s = [''ro'', ''size=1k'', ''nodev'', ''x'']"
    and no_open: "\<not> list_ex fst (option_tokens ?s)"
    and vals: "flags_of [''ro'', ''size=1k'', ''nodev'', ''x''] = MS_RDONLY OR MS_NODEV"
      "unknown_of [''ro'', ''size=1k'', ''nodev'', ''x''] = Some ''size=1k,x''" by code_simp+
  have "\<exists>a'. parse_fstab_mnt_options ?s [] =
      Inr (True, flags_of (option_list ?s), unknown_of (option_list ?s), a')"
    using parse_fstab_mnt_options_correct [of ?s "[]"] no_open by auto
  then show ?thesis by (simp only: opts vals)
qed

text \<open>C20: the flags, bit by bit. Whenever \<open>parse_fstab_mnt_options\<close> succeeds, each of the bits of
  the flags is set exactly when the last option in the field that touches it is one that sets it: of two
  opposite options (ro/rw, nosuid/suid, ...) the last one wins, \<open>remount\<close> and \<open>dirsync\<close> only set, and
  no other bit is ever set. The option \<open>defaults\<close> sets the bits of \<open>nouser\<close> and touches no other: it
  undoes a \<open>user\<close> before it, but \<open>defaults\<close> behind \<open>ro\<close> does not make the mount writable, although a
  comment in the code says that it equals \<open>rw,suid,dev,exec,auto,nouser,async\<close>.\<close>

theorem last_opposite_option_wins:
  assumes "length s + 1 < 2 ^ 64" "NUL \<notin> set s" "parse_fstab_mnt_options s a = Inr (True, f, u, a')"
  shows "bit f n \<longleftrightarrow> last_sets n (option_list s)"
  using parse_fstab_spec [OF assms(1,2), of a] assms(3) by (auto simp: bit_flags_of)

theorem last_opposite_option_wins_witness:
  "\<exists>f u a'. parse_fstab_mnt_options ''rw,user,ro,defaults,x'' [] = Inr (True, f, u, a') \<and>
     bit f 0 \<and> bit f 31 \<and> \<not> bit f 1"
proof -
  let ?s = "''rw,user,ro,defaults,x''"
  have "case parse_fstab_mnt_options ?s [] of Inr (ok, _) \<Rightarrow> ok | _ \<Rightarrow> False" by code_simp
  then obtain f u a' where run: "parse_fstab_mnt_options ?s [] = Inr (True, f, u, a')"
    by (auto split: sum.splits)
  have "last_sets 0 (option_list ?s)" "last_sets 31 (option_list ?s)" "\<not> last_sets 1 (option_list ?s)"
    by code_simp+
  moreover have "bit f n \<longleftrightarrow> last_sets n (option_list ?s)" for n
    by (rule last_opposite_option_wins [OF _ _ run]) simp_all
  ultimately show ?thesis using run by blast
qed

end
