(* ===== verification/Mount.thy ===== *)
theory Mount
  imports Mount_Options
begin

text \<open>
  Mounting and unmounting (\<open>src/mount.c\<close>). The kernel's answers to \<open>mkdir\<close> and
  \<open>mount\<close> are lists in the environment, its reaction to \<open>umount\<close> is a function
  \<open>umount :: 'k \<Rightarrow> string \<Rightarrow> bool \<times> 'k\<close> on a kernel state, an argument of the
  definitions. \<open>/etc/fstab\<close> is the list of entries \<open>getmntent\<close> returns,
  \<open>/proc/self/mountinfo\<close> the text of the file, read with the code's \<open>fscanf\<close> format.
\<close>

section \<open>Mounting\<close>

datatype errno = EEXIST | EBUSY | Other_Errno

record mount_row =
  row_source :: "string option"
  target :: string
  fstype :: string
  row_options :: "string option"
  row_flags :: mount_flags
  fatal :: bool

definition mount_table :: "mount_row list" where
  "mount_table =
     map (\<lambda>(t, f, opts, fl, fa). \<lparr>row_source = None, target = t, fstype = f, row_options = opts,
                                      row_flags = fl, fatal = fa\<rparr>)
     [(''/sys'', ''sysfs'', None, MS_NOSUID OR MS_NOEXEC OR MS_NODEV, True),
      (''/proc'', ''proc'', None, MS_NOSUID OR MS_NOEXEC OR MS_NODEV, True),
      (''/dev'', ''devtmpfs'', Some ''mode=0755'', MS_NOSUID OR MS_STRICTATIME, True),
      (''/dev/pts'', ''devpts'', Some ''mode=0620'', MS_NOSUID OR MS_NOEXEC, True),
      (''/dev/shm'', ''tmpfs'', Some ''mode=1777'', MS_NOSUID OR MS_NODEV OR MS_STRICTATIME, True),
      (''/run'', ''tmpfs'', Some ''mode=0755'', MS_NOSUID OR MS_NODEV OR MS_STRICTATIME, True),
      (''/tmp'', ''tmpfs'', None, 0, True),
      (''/sys/kernel/debug'', ''debugfs'', None, 0, False),
      (''/sys/kernel/security'', ''securityfs'', None, MS_NOSUID OR MS_NOEXEC OR MS_NODEV, False)]"

text \<open>A call of \<open>mount(2)\<close>: source, target, type, flags, data.\<close>

datatype mount_call = Mount string string string mount_flags "string option"

text \<open>
  The environment: answers of \<open>mkdir\<close>, \<open>mount\<close> and the allocator still to come
  (\<open>None\<close> is success), and the calls of \<open>mkdir\<close> and \<open>mount\<close> made so far with their results.
\<close>

record mount_env =
  mkdir_answers :: "errno option list"
  mount_answers :: "errno option list"
  alloc_answers :: "bool list"
  mkdirs :: "(string \<times> errno option) list"
  calls :: "(mount_call \<times> errno option) list"

fun pop_errno :: "errno option list \<Rightarrow> errno option \<times> errno option list" where
  "pop_errno [] = (None, [])"
| "pop_errno (e # es) = (e, es)"

definition sys_mkdir :: "string \<Rightarrow> mount_env \<Rightarrow> errno option \<times> mount_env" where
  "sys_mkdir dir e = (case pop_errno (mkdir_answers e) of
     (r, rs) \<Rightarrow> (r, e\<lparr>mkdir_answers := rs, mkdirs := mkdirs e @ [(dir, r)]\<rparr>))"

definition sys_mount :: "mount_call \<Rightarrow> mount_env \<Rightarrow> errno option \<times> mount_env" where
  "sys_mount c e = (case pop_errno (mount_answers e) of
     (r, rs) \<Rightarrow> (r, e\<lparr>mount_answers := rs, calls := calls e @ [(c, r)]\<rparr>))"

definition row_call :: "mount_row \<Rightarrow> mount_call" where
  "row_call m = Mount (case row_source m of None \<Rightarrow> ''none'' | Some s \<Rightarrow> s) (target m) (fstype m)
     (row_flags m) (row_options m)"

fun mount_rows :: "mount_row list \<Rightarrow> mount_env \<Rightarrow> bool \<times> mount_env" where
  "mount_rows [] e = (True, e)"
| "mount_rows (mnt # rows) e =
     (case sys_mkdir (target mnt) e of (err, e1) \<Rightarrow>
        if err \<noteq> None \<and> err \<noteq> Some EEXIST \<and> fatal mnt then (False, e1)
        else case sys_mount (row_call mnt) e1 of (err2, e2) \<Rightarrow>
          if err2 = None then mount_rows rows e2
          else if err2 = Some EBUSY \<or> \<not> fatal mnt then mount_rows rows e2
          else (False, e2))"

definition mount_system_filesystems :: "mount_env \<Rightarrow> bool \<times> mount_env" where
  "mount_system_filesystems e = mount_rows mount_table e"

record mntent =
  mnt_fsname :: string
  mnt_dir :: string
  mnt_type :: string
  mnt_opts :: string

text \<open>
  \<open>hasmntopt\<close>: a field of the comma-separated list is the option, or the option followed by
  an equals sign.
\<close>

fun split_comma :: "string \<Rightarrow> string list" where
  "split_comma [] = [[]]"
| "split_comma (c # s) =
     (if c = CHR '','' then [] # split_comma s
      else case split_comma s of [] \<Rightarrow> [[c]] | f # fs \<Rightarrow> (c # f) # fs)"

definition hasmntopt :: "mntent \<Rightarrow> string \<Rightarrow> bool" where
  "hasmntopt ent opt \<longleftrightarrow> list_ex (\<lambda>f. takeWhile (\<lambda>c. c \<noteq> CHR ''='') f = opt) (split_comma (mnt_opts ent))"

text \<open>The loop of \<open>mount_fstab_filesystems\<close> over the entries \<open>getmntent\<close> returns.\<close>

fun mount_entries :: "mntent list \<Rightarrow> mount_env \<Rightarrow> (bool \<times> mount_env) c_res" where
  "mount_entries [] e = Inr (True, e)"
| "mount_entries (ent # ents) e =
     (if hasmntopt ent ''noauto'' then mount_entries ents e
      else let nofail = hasmntopt ent ''nofail'' in
        res_bind (parse_fstab_mnt_options (mnt_opts ent) (alloc_answers e))
          (\<lambda>(ok, flags, unknown_opts, answers).
             let e0 = e\<lparr>alloc_answers := answers\<rparr> in
             if \<not> ok then Inr (False, e0)
             else case sys_mkdir (mnt_dir ent) e0 of (err, e1) \<Rightarrow>
               if err \<noteq> None \<and> err \<noteq> Some EEXIST then
                 if nofail then mount_entries ents e1 else Inr (False, e1)
               else case sys_mount (Mount (mnt_fsname ent) (mnt_dir ent) (mnt_type ent) flags unknown_opts) e1 of
                 (err2, e2) \<Rightarrow>
                   if err2 \<noteq> None then
                     if nofail then mount_entries ents e2 else Inr (False, e2)
                   else mount_entries ents e2))"

text \<open>A missing \<open>/etc/fstab\<close> (\<open>None\<close>) is not an error.\<close>

definition mount_fstab_filesystems :: "mntent list option \<Rightarrow> mount_env \<Rightarrow> (bool \<times> mount_env) c_res" where
  "mount_fstab_filesystems fstab e = (case fstab of None \<Rightarrow> Inr (True, e) | Some ents \<Rightarrow> mount_entries ents e)"

definition mount_mount_filesystems :: "mntent list option \<Rightarrow> mount_env \<Rightarrow> (bool \<times> mount_env) c_res" where
  "mount_mount_filesystems fstab e =
     (case mount_system_filesystems e of
        (False, e1) \<Rightarrow> Inr (False, e1)
      | (True, e1) \<Rightarrow> mount_fstab_filesystems fstab e1)"

subsection \<open>What it means\<close>

text \<open>The call an entry asks for, and which entries must be mounted.\<close>

definition entry_call :: "mntent \<Rightarrow> mount_call" where
  "entry_call ent = Mount (mnt_fsname ent) (mnt_dir ent) (mnt_type ent)
     (flags_of (option_list (mnt_opts ent))) (unknown_of (option_list (mnt_opts ent)))"

definition readable :: "mntent \<Rightarrow> bool" where
  "readable ent \<longleftrightarrow> mnt_opts ent \<noteq> [] \<and> \<not> list_ex fst (option_tokens (mnt_opts ent))"

definition required :: "mntent \<Rightarrow> bool" where
  "required ent \<longleftrightarrow> \<not> hasmntopt ent ''noauto'' \<and> \<not> hasmntopt ent ''nofail''"

definition c_text :: "string \<Rightarrow> bool" where
  "c_text s \<longleftrightarrow> NUL \<notin> set s \<and> length s + 1 < 2 ^ 64"

section \<open>Unmounting\<close>

record mount_point =
  mp_addr :: nat
  mp_path :: string

text \<open>\<open>%s\<close>: skip white space, take what is not white space; \<open>None\<close> at the end of the file.\<close>

definition scan_word :: "string \<Rightarrow> (string \<times> string) option" where
  "scan_word s = (let s1 = dropWhile is_space s in
     if s1 = [] then None
     else Some (takeWhile (\<lambda>c. \<not> is_space c) s1, dropWhile (\<lambda>c. \<not> is_space c) s1))"

fun skip_words :: "nat \<Rightarrow> string \<Rightarrow> string option" where
  "skip_words 0 s = Some s"
| "skip_words (Suc n) s = (case scan_word s of None \<Rightarrow> None | Some (_, r) \<Rightarrow> skip_words n r)"

text \<open>
  The \<open>fscanf\<close> of \<open>get_mountpoints\<close>: four words, the path, white space, the rest of the line.
  \<open>None\<close> is EOF; the call cannot return 0, as only the end of the file stops it before the path.
\<close>

definition scan_mountinfo :: "string \<Rightarrow> (string \<times> string) option" where
  "scan_mountinfo s =
     (case skip_words 4 s of
        None \<Rightarrow> None
      | Some r \<Rightarrow> (case scan_word r of
           None \<Rightarrow> None
         | Some (path, r') \<Rightarrow> Some (path, dropWhile (\<lambda>c. c \<noteq> newline) (dropWhile is_space r'))))"

lemma scan_word_shorter: "scan_word s = Some (w, r) \<Longrightarrow> length r < length s"
proof -
  assume a: "scan_word s = Some (w, r)"
  then have ne: "dropWhile is_space s \<noteq> []" and w: "w = takeWhile (\<lambda>c. \<not> is_space c) (dropWhile is_space s)"
    and r: "r = dropWhile (\<lambda>c. \<not> is_space c) (dropWhile is_space s)"
    by (auto simp: scan_word_def Let_def split: if_splits)
  have "\<not> is_space (hd (dropWhile is_space s))" using ne by (rule hd_dropWhile)
  then have "length r < length (dropWhile is_space s)"
    using ne r by (cases "dropWhile is_space s") (auto simp: less_Suc_eq_le length_dropWhile_le)
  then show ?thesis using length_dropWhile_le [of is_space s] by simp
qed

lemma skip_words_le: "skip_words n s = Some r \<Longrightarrow> length r \<le> length s"
  by (induction n arbitrary: s) (fastforce split: option.splits dest: scan_word_shorter)+

lemma scan_mountinfo_shorter: "scan_mountinfo s = Some (path, r) \<Longrightarrow> length r < length s"
  by (auto simp: scan_mountinfo_def split: option.splits
      dest!: scan_word_shorter skip_words_le intro!: le_less_trans [OF length_dropWhile_le])

text \<open>
  The loop of \<open>get_mountpoints\<close>. The answers are those of the allocation inside \<open>%ms\<close>
  (a failure is reported as EOF) and of \<open>calloc\<close>; \<open>next\<close> is the address the next node
  gets.
\<close>

function mountpoints_loop ::
    "string \<Rightarrow> nat \<Rightarrow> mount_point list \<Rightarrow> bool list \<Rightarrow> mount_point list" where
  "mountpoints_loop mounts_file fresh list answers =
     (case scan_mountinfo mounts_file of
        None \<Rightarrow> list
      | Some (path, rest) \<Rightarrow>
          (case pop_ok answers of (path_ok, answers1) \<Rightarrow>
             if \<not> path_ok then list
             else if path \<in> target ` set mount_table then mountpoints_loop rest fresh list answers1
             else case pop_ok answers1 of (entry_ok, answers2) \<Rightarrow>
               if \<not> entry_ok then list
               else mountpoints_loop rest (Suc fresh) (\<lparr>mp_addr = fresh, mp_path = path\<rparr> # list) answers2))"
  by pat_completeness auto
termination
  by (relation "measure (\<lambda>(f, n, l, a). length f)") (auto dest: scan_mountinfo_shorter)

declare mountpoints_loop.simps [simp del]

definition get_mountpoints :: "string option \<Rightarrow> bool list \<Rightarrow> mount_point list" where
  "get_mountpoints mounts_file answers =
     (case mounts_file of None \<Rightarrow> [] | Some f \<Rightarrow> mountpoints_loop f 0 [] answers)"

fun remove_mountpoint :: "nat \<Rightarrow> mount_point list \<Rightarrow> mount_point list" where
  "remove_mountpoint mp [] = []"
| "remove_mountpoint mp (current # list) =
     (if mp_addr current = mp then list else current # remove_mountpoint mp list)"

text \<open>
  One pass over the list: the code reads \<open>mp->next\<close> before it unlinks \<open>mp\<close>, so the pass
  visits the nodes the list had at its start.
\<close>

fun umount_pass ::
    "('k \<Rightarrow> string \<Rightarrow> bool \<times> 'k) \<Rightarrow> 'k \<Rightarrow> mount_point list \<Rightarrow> mount_point list \<Rightarrow> bool \<Rightarrow>
     'k \<times> mount_point list \<times> bool" where
  "umount_pass umount k [] mp_list changed = (k, mp_list, changed)"
| "umount_pass umount k (mp # nodes) mp_list changed =
     (case umount k (mp_path mp) of
        (True, k') \<Rightarrow> umount_pass umount k' nodes (remove_mountpoint (mp_addr mp) mp_list) True
      | (False, k') \<Rightarrow> umount_pass umount k' nodes mp_list changed)"

lemma length_remove_mountpoint:
  "length (remove_mountpoint a l) = (if a \<in> mp_addr ` set l then length l - 1 else length l)"
  by (induction l) (auto simp: Suc_diff_Suc [symmetric] dest: length_pos_if_in_set)

lemma umount_pass_le: "umount_pass um k ns l ch = (k', l', ch') \<Longrightarrow> length l' \<le> length l"
proof (induction ns arbitrary: k l ch)
  case (Cons mp ns)
  then show ?case
    by (auto split: prod.splits bool.splits dest!: Cons.IH simp: length_remove_mountpoint split: if_splits)
qed simp

lemma umount_pass_less:
  "umount_pass um k ns l False = (k', l', True) \<Longrightarrow> mp_addr ` set ns \<subseteq> mp_addr ` set l \<Longrightarrow>
   length l' < length l"
proof (induction ns arbitrary: k)
  case (Cons mp ns)
  obtain ok k1 where um: "um k (mp_path mp) = (ok, k1)" by (cases "um k (mp_path mp)")
  show ?case
  proof (cases ok)
    case True
    then have "length l' \<le> length (remove_mountpoint (mp_addr mp) l)"
      using Cons.prems um by (intro umount_pass_le) auto
    moreover have "mp_addr mp \<in> mp_addr ` set l" "0 < length l" using Cons.prems(2) by auto
    ultimately show ?thesis by (simp only: length_remove_mountpoint if_True)
  next
    case False
    with Cons um show ?thesis by auto
  qed
qed simp

function umount_loop :: "('k \<Rightarrow> string \<Rightarrow> bool \<times> 'k) \<Rightarrow> 'k \<Rightarrow> mount_point list \<Rightarrow> 'k \<times> mount_point list" where
  "umount_loop umount k mp_list =
     (case umount_pass umount k mp_list mp_list False of
        (k', mp_list', changed) \<Rightarrow> if changed then umount_loop umount k' mp_list' else (k', mp_list'))"
  by pat_completeness auto
termination
  by (relation "measure (\<lambda>(u, k, l). length l)") (simp_all add: umount_pass_less [OF sym])

declare umount_loop.simps [simp del]

fun free_mountpoints :: "mount_point list \<Rightarrow> mount_point list" where
  "free_mountpoints [] = []"
| "free_mountpoints (mp # list) = free_mountpoints (remove_mountpoint (mp_addr mp) (mp # list))"

text \<open>\<open>mount_umount_filesystems\<close>: the kernel state it leaves and the list it frees last.\<close>

definition mount_umount_filesystems ::
    "('k \<Rightarrow> string \<Rightarrow> bool \<times> 'k) \<Rightarrow> string option \<Rightarrow> bool list \<Rightarrow> 'k \<Rightarrow> 'k \<times> mount_point list" where
  "mount_umount_filesystems umount mountinfo answers k =
     (case umount_loop umount k (get_mountpoints mountinfo answers) of
        (k', mp_list) \<Rightarrow> (k', free_mountpoints mp_list))"

subsection \<open>What it means\<close>

text \<open>A path lies below a mount point.\<close>

definition path_below :: "string \<Rightarrow> string \<Rightarrow> bool" where
  "path_below q p \<longleftrightarrow> (let d = (if p \<noteq> [] \<and> last p = CHR ''/'' then p else p @ ''/'')
                          in q \<noteq> p \<and> take (length d) q = d)"

text \<open>
  What the results take of \<open>umount(2)\<close>: a success takes one mount at that path away and nothing else,
  and a refusal changes nothing. For the mounts outside a set \<open>busy\<close>, the only reason to refuse is a
  mount below: \<open>busy\<close> is any set that has in it what is in use (open files, working directories) or
  cannot be reached.
\<close>

definition umount_removes :: "('k \<Rightarrow> string \<Rightarrow> bool \<times> 'k) \<Rightarrow> ('k \<Rightarrow> string multiset) \<Rightarrow> bool" where
  "umount_removes umount mounted \<longleftrightarrow>
     (\<forall>k p k'. umount k p = (True, k') \<longrightarrow> mounted k = add_mset p (mounted k'))"

definition umount_refusal_keeps :: "('k \<Rightarrow> string \<Rightarrow> bool \<times> 'k) \<Rightarrow> bool" where
  "umount_refusal_keeps umount \<longleftrightarrow> (\<forall>k p k'. umount k p = (False, k') \<longrightarrow> k' = k)"

definition refuses_busy_only ::
    "('k \<Rightarrow> string \<Rightarrow> bool \<times> 'k) \<Rightarrow> ('k \<Rightarrow> string multiset) \<Rightarrow> string set \<Rightarrow> bool" where
  "refuses_busy_only umount mounted busy \<longleftrightarrow>
     (\<forall>k p. p \<in># mounted k \<and> p \<notin> busy \<and> (\<forall>q \<in># mounted k. \<not> path_below q p) \<longrightarrow> fst (umount k p))"

text \<open>A line of \<open>/proc/self/mountinfo\<close>: four fields, the path, the rest.\<close>

record mountinfo_line =
  ids :: "string list"
  line_path :: string
  others :: string

definition is_word :: "string \<Rightarrow> bool" where
  "is_word w \<longleftrightarrow> w \<noteq> [] \<and> list_all (\<lambda>c. \<not> is_space c) w"

definition line_ok :: "mountinfo_line \<Rightarrow> bool" where
  "line_ok l \<longleftrightarrow> length (ids l) = 4 \<and> list_all is_word (ids l) \<and> is_word (line_path l) \<and>
     others l \<noteq> [] \<and> \<not> is_space (hd (others l)) \<and> newline \<notin> set (others l)"

definition line_text :: "mountinfo_line \<Rightarrow> string" where
  "line_text l = concat (map (\<lambda>w. w @ '' '') (ids l)) @ line_path l @ '' '' @ others l @ [newline]"

section \<open>Mounting: proofs\<close>

lemma mount_rows_attempts:
  "mount_rows rows e = (True, e') \<Longrightarrow>
   \<exists>rs. length rs = length rows \<and> calls e' = calls e @ zip (map row_call rows) rs \<and>
        list_all2 (\<lambda>m r. r = None \<or> r = Some EBUSY \<or> \<not> fatal m) rows rs"
proof (induction rows arbitrary: e)
  case (Cons m rows)
  obtain err e1 where mk: "sys_mkdir (target m) e = (err, e1)" by (cases "sys_mkdir (target m) e")
  obtain r e2 where mo: "sys_mount (row_call m) e1 = (r, e2)" by (cases "sys_mount (row_call m) e1")
  have "calls e2 = calls e @ [(row_call m, r)]"
    using mk mo by (auto simp: sys_mkdir_def sys_mount_def split: prod.splits)
  moreover have rest: "mount_rows rows e2 = (True, e')" and r: "r = None \<or> r = Some EBUSY \<or> \<not> fatal m"
    using Cons.prems mk mo by (auto split: if_splits)
  from Cons.IH [OF rest] obtain rs where "length rs = length rows"
    "calls e' = calls e2 @ zip (map row_call rows) rs"
    "list_all2 (\<lambda>m r. r = None \<or> r = Some EBUSY \<or> \<not> fatal m) rows rs" by blast
  ultimately show ?case using r by (intro exI [of _ "r # rs"]) simp
qed simp

text \<open>Calls are only ever added.\<close>

lemma calls_sys_mkdir [simp]: "sys_mkdir d e = (r, e') \<Longrightarrow> calls e' = calls e"
  by (auto simp: sys_mkdir_def split: prod.splits)

lemma calls_sys_mount [simp]: "sys_mount c e = (r, e') \<Longrightarrow> calls e' = calls e @ [(c, r)]"
  by (auto simp: sys_mount_def split: prod.splits)

lemma parse_fstab_any:
  assumes "c_text s"
  obtains ok f u a' where "parse_fstab_mnt_options s a = Inr (ok, f, u, a')"
    "ok \<longrightarrow> s \<noteq> [] \<and> \<not> list_ex fst (option_tokens s) \<and>
       f = flags_of (option_list s) \<and> u = unknown_of (option_list s)"
    "a = [] \<and> s \<noteq> [] \<and> \<not> list_ex fst (option_tokens s) \<longrightarrow> ok"
  using parse_fstab_spec [of s a] assms unfolding c_text_def by blast

text \<open>The loop over the entries: no fault, and all that a success promises.\<close>

lemma mount_entries_any:
  assumes "list_all (\<lambda>ent. c_text (mnt_opts ent)) ents"
  shows "\<exists>ok e'. mount_entries ents e = Inr (ok, e') \<and> (\<exists>cs. calls e' = calls e @ cs) \<and>
    (ok \<longrightarrow> (\<forall>ent\<in>set ents. (\<not> hasmntopt ent ''noauto'' \<longrightarrow> readable ent) \<and>
       (required ent \<longrightarrow> (entry_call ent, None) \<in> set (calls e'))))"
  using assms
proof (induction ents arbitrary: e)
  case (Cons ent ents)
  then have text_ok: "c_text (mnt_opts ent)" and rest: "list_all (\<lambda>ent. c_text (mnt_opts ent)) ents" by auto
  note IH = Cons.IH [OF rest]
  show ?case
  proof (cases "hasmntopt ent ''noauto''")
    case True
    with IH [of e] show ?thesis by (auto simp: required_def)
  next
    case False
    obtain ok f u a' where parse: "parse_fstab_mnt_options (mnt_opts ent) (alloc_answers e) = Inr (ok, f, u, a')"
      "ok \<longrightarrow> readable ent \<and> Mount (mnt_fsname ent) (mnt_dir ent) (mnt_type ent) f u = entry_call ent"
      using parse_fstab_any [OF text_ok, of "alloc_answers e"] by (metis entry_call_def readable_def)
    let ?e0 = "e\<lparr>alloc_answers := a'\<rparr>"
    obtain err e1 where mk: "sys_mkdir (mnt_dir ent) ?e0 = (err, e1)" by (cases "sys_mkdir (mnt_dir ent) ?e0")
    obtain r e2 where mo: "sys_mount (entry_call ent) e1 = (r, e2)" by (cases "sys_mount (entry_call ent) e1")
    have c: "calls e1 = calls e" "calls e2 = calls e @ [(entry_call ent, r)]" using mk mo by simp_all
    show ?thesis
    proof (cases "ok \<and> (err = None \<or> err = Some EEXIST)")
      case True
      then have unf: "mount_entries (ent # ents) e =
          (if r \<noteq> None \<and> \<not> hasmntopt ent ''nofail'' then Inr (False, e2) else mount_entries ents e2)"
        using False parse mk mo by auto
      obtain ok3 e3 cs where rec: "mount_entries ents e2 = Inr (ok3, e3)" "calls e3 = calls e2 @ cs"
        "ok3 \<longrightarrow> (\<forall>ent\<in>set ents. (\<not> hasmntopt ent ''noauto'' \<longrightarrow> readable ent) \<and>
           (required ent \<longrightarrow> (entry_call ent, None) \<in> set (calls e3)))" using IH by blast
      show ?thesis
      proof (cases "r \<noteq> None \<and> \<not> hasmntopt ent ''nofail''")
        case True
        with unf c show ?thesis by auto
      next
        case no: False
        have "required ent \<longrightarrow> (entry_call ent, None) \<in> set (calls e3)"
          using no rec(2) c(2) by (auto simp: required_def)
        with unf no rec c True parse(2) show ?thesis by auto
      qed
    next
      case no: False
      then have "mount_entries (ent # ents) e =
          (if \<not> ok then Inr (False, ?e0) else if hasmntopt ent ''nofail'' then mount_entries ents e1
           else Inr (False, e1))"
        using False parse mk by auto
      with IH [of e1] c(1) parse(2) show ?thesis by (auto simp: required_def)
    qed
  qed
qed auto

lemma hasmntopt_exclusive: "required ent \<Longrightarrow> \<not> hasmntopt ent ''noauto''"
  by (simp add: required_def)

lemma mount_mount_filesystems_returns:
  assumes "list_all (\<lambda>ent. c_text (mnt_opts ent)) (case fstab of None \<Rightarrow> [] | Some ents \<Rightarrow> ents)"
  shows "\<exists>ok e'. mount_mount_filesystems fstab e = Inr (ok, e')"
proof -
  obtain ok1 e1 where "mount_system_filesystems e = (ok1, e1)" by (cases "mount_system_filesystems e")
  moreover have "\<exists>ok e'. mount_fstab_filesystems fstab e1 = Inr (ok, e')"
  proof (cases fstab)
    case (Some ents)
    with assms mount_entries_any [of ents e1] show ?thesis by (auto simp: mount_fstab_filesystems_def)
  qed (auto simp: mount_fstab_filesystems_def)
  ultimately show ?thesis by (cases ok1) (auto simp: mount_mount_filesystems_def)
qed

section \<open>Mounting: results\<close>

text \<open>C17: \<open>mount_mount_filesystems\<close> returns without a fault on every fstab, whatever the kernel
  and the allocator answer. When it reports success, every system file system was tried in the
  order of the table, each fatal one was mounted or already there (EBUSY), and every fstab entry
  that is neither noauto nor nofail was mounted with exactly the flags and the data its options
  mean.\<close>

theorem mount_mount_filesystems_sound:
  assumes "list_all (\<lambda>ent. c_text (mnt_opts ent)) (case fstab of None \<Rightarrow> [] | Some ents \<Rightarrow> ents)"
  shows "\<exists>ok e'. mount_mount_filesystems fstab e = Inr (ok, e') \<and>
    (ok \<longrightarrow> (\<exists>rs cs. calls e' = calls e @ zip (map row_call mount_table) rs @ cs \<and>
         list_all2 (\<lambda>m r. r = None \<or> r = Some EBUSY \<or> \<not> fatal m) mount_table rs) \<and>
       (\<forall>ent\<in>set (case fstab of None \<Rightarrow> [] | Some ents \<Rightarrow> ents). required ent \<longrightarrow>
          readable ent \<and> (entry_call ent, None) \<in> set (calls e')))"
proof -
  obtain ok1 e1 where rows: "mount_rows mount_table e = (ok1, e1)" by (cases "mount_rows mount_table e")
  show ?thesis
  proof (cases ok1)
    case True
    then obtain rs where rs: "calls e1 = calls e @ zip (map row_call mount_table) rs"
      "list_all2 (\<lambda>m r. r = None \<or> r = Some EBUSY \<or> \<not> fatal m) mount_table rs"
      using mount_rows_attempts [of mount_table e e1] rows by auto
    obtain ok2 e2 cs where ents: "mount_fstab_filesystems fstab e1 = Inr (ok2, e2)" "calls e2 = calls e1 @ cs"
      "ok2 \<longrightarrow> (\<forall>ent\<in>set (case fstab of None \<Rightarrow> [] | Some ents \<Rightarrow> ents). required ent \<longrightarrow>
          readable ent \<and> (entry_call ent, None) \<in> set (calls e2))"
    proof (cases fstab)
      case None
      with that [of True e1 "[]"] show ?thesis by (simp add: mount_fstab_filesystems_def)
    next
      case (Some ents)
      with assms have "list_all (\<lambda>ent. c_text (mnt_opts ent)) ents" by simp
      from mount_entries_any [OF this, of e1] obtain ok2 e2 cs where
        "mount_entries ents e1 = Inr (ok2, e2)" "calls e2 = calls e1 @ cs"
        "ok2 \<longrightarrow> (\<forall>ent\<in>set ents. required ent \<longrightarrow> readable ent \<and> (entry_call ent, None) \<in> set (calls e2))"
        by (auto simp: hasmntopt_exclusive)
      with that [of ok2 e2 cs] Some show ?thesis by (simp add: mount_fstab_filesystems_def)
    qed
    have "mount_mount_filesystems fstab e = Inr (ok2, e2)"
      using rows True ents(1) by (simp add: mount_mount_filesystems_def mount_system_filesystems_def)
    with rs ents(2,3) show ?thesis by auto
  qed (use rows in \<open>auto simp: mount_mount_filesystems_def mount_system_filesystems_def\<close>)
qed

theorem mount_mount_filesystems_sound_witness:
  "\<exists>e'. mount_mount_filesystems (Some [\<lparr>mnt_fsname = ''/dev/sda1'', mnt_dir = ''/data'', mnt_type = ''ext4'',
       mnt_opts = ''ro,x''\<rparr>]) \<lparr>mkdir_answers = [], mount_answers = [], alloc_answers = [], mkdirs = [], calls = []\<rparr> = Inr (True, e') \<and>
     (Mount ''/dev/sda1'' ''/data'' ''ext4'' MS_RDONLY (Some ''x''), None) \<in> set (calls e')"
proof -
  let ?ent = "\<lparr>mnt_fsname = ''/dev/sda1'', mnt_dir = ''/data'', mnt_type = ''ext4'', mnt_opts = ''ro,x''\<rparr>"
  let ?e = "\<lparr>mkdir_answers = [], mount_answers = [], alloc_answers = [], mkdirs = [], calls = []\<rparr>"
  have t: "list_all (\<lambda>ent. c_text (mnt_opts ent)) (case Some [?ent] of None \<Rightarrow> [] | Some ents \<Rightarrow> ents)"
    by (simp add: c_text_def)
  have run: "case mount_mount_filesystems (Some [?ent]) ?e of Inr (ok, _) \<Rightarrow> ok | Inl _ \<Rightarrow> False" by code_simp
  have call: "entry_call ?ent = Mount ''/dev/sda1'' ''/data'' ''ext4'' MS_RDONLY (Some ''x'')"
    "required ?ent" by code_simp+
  from mount_mount_filesystems_sound [OF t, of ?e] run call show ?thesis by (auto split: sum.splits)
qed

section \<open>Reading the mount points\<close>

lemma scan_word_word:
  assumes "is_word w" "list_all is_space sp" "is_space c"
  shows "scan_word (sp @ w @ c # r) = Some (w, c # r)"
proof -
  obtain x xs where w: "w = x # xs" "\<not> is_space x" using assms(1) by (cases w) (auto simp: is_word_def)
  have "dropWhile is_space (sp @ w @ c # r) = w @ c # r"
    using assms(2) w by (induction sp) auto
  moreover have "takeWhile (\<lambda>c. \<not> is_space c) (w @ c # r) = w"
    "dropWhile (\<lambda>c. \<not> is_space c) (w @ c # r) = c # r"
    using assms(1,3) unfolding is_word_def list_all_iff by (induction w) auto
  ultimately show ?thesis using w by (simp add: scan_word_def)
qed

lemma is_space_simps [simp]: "is_space (CHR '' '')" "is_space newline"
  by (simp_all add: is_space_def)

lemma skip_words_text:
  "list_all is_word ws \<Longrightarrow> list_all is_space sp \<Longrightarrow> is_word w \<Longrightarrow>
   \<exists>sp'. list_all is_space sp' \<and>
     skip_words (length ws) (sp @ concat (map (\<lambda>w. w @ '' '') ws) @ w @ r) = Some (sp' @ w @ r)"
proof (induction ws arbitrary: sp)
  case (Cons v ws)
  have "scan_word (sp @ v @ CHR '' '' # concat (map (\<lambda>w. w @ '' '') ws) @ w @ r) =
      Some (v, CHR '' '' # concat (map (\<lambda>w. w @ '' '') ws) @ w @ r)"
    using Cons.prems by (intro scan_word_word) auto
  with Cons.IH [of "'' ''"] Cons.prems show ?case by simp
qed auto

lemma scan_mountinfo_line:
  assumes "line_ok l" "list_all is_space sp"
  shows "scan_mountinfo (sp @ line_text l @ r) = Some (line_path l, newline # r)"
proof -
  obtain sp' where sp': "list_all is_space sp'"
    "skip_words (length (ids l)) (sp @ concat (map (\<lambda>w. w @ '' '') (ids l)) @ line_path l @
        '' '' @ others l @ newline # r) = Some (sp' @ line_path l @ '' '' @ others l @ newline # r)"
    using skip_words_text [of "ids l" sp "line_path l"] assms by (auto simp: line_ok_def)
  have "scan_word (sp' @ line_path l @ CHR '' '' # others l @ newline # r) =
      Some (line_path l, CHR '' '' # others l @ newline # r)"
    using assms(1) sp'(1) by (intro scan_word_word) (auto simp: line_ok_def)
  moreover obtain x xs where "others l = x # xs" "\<not> is_space x" "newline \<notin> set (x # xs)"
    using assms(1) by (cases "others l") (auto simp: line_ok_def)
  moreover have "dropWhile (\<lambda>c. c \<noteq> newline) (ys @ newline # r) = newline # r" if "newline \<notin> set ys" for ys
    using that by (induction ys) auto
  ultimately show ?thesis using sp'(2) assms(1)
    by (auto simp: scan_mountinfo_def line_text_def line_ok_def)
qed

lemma scan_mountinfo_end: "list_all is_space sp \<Longrightarrow> scan_mountinfo sp = None"
proof -
  assume "list_all is_space sp"
  then have "dropWhile is_space sp = []" by (simp add: list_all_iff)
  then have "scan_word sp = None" by (simp add: scan_word_def)
  then show ?thesis by (simp add: scan_mountinfo_def numeral_eq_Suc)
qed

abbreviation is_system :: "string \<Rightarrow> bool" where "is_system p \<equiv> p \<in> target ` set mount_table"

lemma mountpoints_loop_text:
  "list_all line_ok ls \<Longrightarrow> list_all is_space sp \<Longrightarrow>
   map mp_path (mountpoints_loop (sp @ concat (map line_text ls)) n list []) =
     rev (filter (\<lambda>p. \<not> is_system p) (map line_path ls)) @ map mp_path list"
proof (induction ls arbitrary: sp n list)
  case Nil
  then show ?case by (subst mountpoints_loop.simps) (simp add: scan_mountinfo_end)
next
  case (Cons l ls)
  have "scan_mountinfo (sp @ line_text l @ concat (map line_text ls)) =
      Some (line_path l, newline # concat (map line_text ls))"
    using Cons.prems by (intro scan_mountinfo_line) auto
  with Cons.IH [of "[newline]"] Cons.prems show ?case by (subst mountpoints_loop.simps) auto
qed

lemma mountpoints_loop_distinct:
  "distinct (map mp_addr list) \<Longrightarrow> (\<forall>m\<in>set list. mp_addr m < n) \<Longrightarrow>
   distinct (map mp_addr (mountpoints_loop f n list answers))"
proof (induction f n list answers rule: mountpoints_loop.induct)
  case (1 f n list answers)
  have "n \<notin> mp_addr ` set list" using "1.prems"(2) by auto
  with 1 show ?case
    by (subst mountpoints_loop.simps)
      (auto split: option.splits prod.splits simp: less_Suc_eq)
qed

lemma distinct_get_mountpoints: "distinct (map mp_addr (get_mountpoints f answers))"
  by (auto simp: get_mountpoints_def mountpoints_loop_distinct split: option.splits)

section \<open>Unmounting: proofs\<close>

interpretation mountpoints: unlink_list mp_addr remove_mountpoint
proof
  fix ns :: "mount_point list" and a
  show "distinct (map mp_addr ns) \<Longrightarrow> remove_mountpoint a ns = filter (\<lambda>n. mp_addr n \<noteq> a) ns"
  proof (induction ns)
    case (Cons n ns)
    then have "filter (\<lambda>m. mp_addr m \<noteq> mp_addr n) ns = ns" by (auto simp: filter_id_conv dest: sym)
    with Cons show ?case by auto
  qed simp
qed

lemma free_mountpoints_Nil: "free_mountpoints l = []"
  by (induction l) auto

text \<open>A pass that changed nothing was refused everywhere.\<close>

lemma umount_pass_stuck:
  assumes "umount_refusal_keeps umount"
  shows "umount_pass umount k ns l ch = (k', l', False) \<Longrightarrow>
    k' = k \<and> l' = l \<and> \<not> ch \<and> (\<forall>n\<in>set ns. \<not> fst (umount k (mp_path n)))"
proof (induction ns arbitrary: k l ch)
  case (Cons n ns)
  obtain ok k1 where um: "umount k (mp_path n) = (ok, k1)" by (cases "umount k (mp_path n)")
  show ?case
  proof (cases ok)
    case True
    with Cons.IH [of k1 _ True] Cons.prems um show ?thesis by simp
  next
    case False
    with assms um have "k1 = k" by (auto simp: umount_refusal_keeps_def)
    with Cons.IH [of k1 l ch] Cons.prems um False show ?thesis by simp
  qed
qed simp

text \<open>While the list shrinks, what is mounted shrinks with it: \<open>all0\<close> was mounted and \<open>paths0\<close> listed
  at the start.\<close>

definition tracks ::
    "('k \<Rightarrow> string multiset) \<Rightarrow> string multiset \<Rightarrow> string multiset \<Rightarrow> 'k \<Rightarrow> mount_point list \<Rightarrow> bool" where
  "tracks mounted all0 paths0 k l \<longleftrightarrow> distinct (map mp_addr l) \<and>
     mset (map mp_path l) \<subseteq># paths0 \<and> mounted k + paths0 = all0 + mset (map mp_path l)"

lemma mset_remove_mountpoint:
  "distinct (map mp_addr l) \<Longrightarrow> n \<in> set l \<Longrightarrow> add_mset n (mset (remove_mountpoint (mp_addr n) l)) = mset l"
proof (induction l)
  case (Cons m l)
  show ?case
  proof (cases "mp_addr m = mp_addr n")
    case True
    with Cons.prems have "m = n" by (force simp: image_iff)
    then show ?thesis by simp
  next
    case False
    with Cons.prems have "n \<in> set l" by auto
    with Cons False show ?thesis by (simp add: add_mset_commute)
  qed
qed simp

lemma tracks_remove:
  assumes "tracks mounted all0 paths0 k l" "n \<in> set l" "mounted k = add_mset (mp_path n) (mounted k')"
  shows "tracks mounted all0 paths0 k' (remove_mountpoint (mp_addr n) l)"
proof -
  let ?r = "remove_mountpoint (mp_addr n) l"
  have d: "distinct (map mp_addr l)" using assms(1) by (simp add: tracks_def)
  have m: "mset (map mp_path l) = add_mset (mp_path n) (mset (map mp_path ?r))"
    using arg_cong [OF mset_remove_mountpoint [OF d assms(2)], of "image_mset mp_path"] by simp
  have "distinct (map mp_addr ?r)" using d by (simp add: mountpoints.unlink_eq distinct_map_filter)
  moreover have "mset (map mp_path ?r) \<subseteq># paths0"
    using assms(1) m by (metis mset_subset_eq_insertD subset_mset.less_imp_le tracks_def)
  moreover have "add_mset (mp_path n) (mounted k' + paths0) = add_mset (mp_path n) (all0 + mset (map mp_path ?r))"
    using assms(1,3) unfolding tracks_def m by simp
  ultimately show ?thesis by (simp add: tracks_def)
qed

lemma umount_pass_tracks:
  assumes ok: "umount_removes umount mounted" and fail: "umount_refusal_keeps umount"
  shows "umount_pass umount k ns l ch = (k', l', ch') \<Longrightarrow> tracks mounted all0 paths0 k l \<Longrightarrow>
    set ns \<subseteq> set l \<Longrightarrow> distinct (map mp_addr ns) \<Longrightarrow> tracks mounted all0 paths0 k' l'"
proof (induction ns arbitrary: k l ch)
  case (Cons n ns)
  obtain b k1 where um: "umount k (mp_path n) = (b, k1)" by (cases "umount k (mp_path n)")
  show ?case
  proof (cases b)
    case True
    let ?l = "remove_mountpoint (mp_addr n) l"
    have "tracks mounted all0 paths0 k1 ?l"
      using Cons.prems(2,3) ok um True
      by (intro tracks_remove [of mounted all0 paths0 k]) (auto simp: umount_removes_def)
    moreover have "set ns \<subseteq> set ?l" using Cons.prems(2-4)
      by (auto simp: mountpoints.set_unlink tracks_def dest: sym)
    ultimately show ?thesis using Cons.IH [of k1 ?l True] Cons.prems um True by simp
  next
    case False
    with fail um have "k1 = k" by (auto simp: umount_refusal_keeps_def)
    with Cons.IH [of k1] Cons.prems um False show ?thesis by simp
  qed
qed simp

lemma umount_loop_end:
  assumes ok: "umount_removes umount mounted" and fail: "umount_refusal_keeps umount"
  shows "umount_loop umount k l = (k', l') \<Longrightarrow> tracks mounted all0 paths0 k l \<Longrightarrow>
    tracks mounted all0 paths0 k' l' \<and> (\<forall>n\<in>set l'. \<not> fst (umount k' (mp_path n)))"
proof (induction "length l" arbitrary: k l rule: less_induct)
  case less
  obtain k1 l1 ch where pass: "umount_pass umount k l l False = (k1, l1, ch)"
    by (cases "umount_pass umount k l l False")
  have tr: "tracks mounted all0 paths0 k1 l1"
    using umount_pass_tracks [OF ok fail pass less.prems(2)] less.prems(2) by (auto simp: tracks_def)
  show ?case
  proof (cases ch)
    case True
    then have "length l1 < length l" using pass umount_pass_less [of umount k l l k1 l1] by simp
    moreover have "umount_loop umount k1 l1 = (k', l')"
      using less.prems(1) pass True by (simp add: umount_loop.simps [of umount k l])
    ultimately show ?thesis using less.hyps tr by blast
  next
    case False
    then have "k1 = k \<and> l1 = l \<and> (\<forall>n\<in>set l. \<not> fst (umount k (mp_path n)))"
      using umount_pass_stuck [OF fail, of k l l False k1 l1] pass by simp
    moreover have "k' = k1" "l' = l1"
      using less.prems(1) pass False by (simp_all add: umount_loop.simps [of umount k l])
    ultimately show ?thesis using tr by simp
  qed
qed

lemma path_below_length: "path_below q p \<Longrightarrow> length p < length q"
proof (cases "p \<noteq> [] \<and> last p = CHR ''/''")
  case True
  assume "path_below q p"
  with True have "q \<noteq> p" "take (length p) q = p" by (auto simp: path_below_def Let_def)
  then show ?thesis by (metis not_le take_all)
next
  case False
  assume "path_below q p"
  with False have "take (Suc (length p)) q = p @ ''/''" by (auto simp: path_below_def Let_def)
  then have "length (take (Suc (length p)) q) = Suc (length p)" by simp
  then show ?thesis by simp
qed

lemma path_below_trans: "path_below r q \<Longrightarrow> path_below q p \<Longrightarrow> path_below r p"
proof -
  define d where "d p = (if p \<noteq> [] \<and> last p = CHR ''/'' then p else p @ ''/'')" for p
  assume a: "path_below r q" "path_below q p"
  then have l: "length q < length r" "length p < length q" by (simp_all add: path_below_length)
  have r: "take (length (d q)) r = d q" and q: "take (length (d p)) q = d p"
    using a by (auto simp: path_below_def d_def Let_def)
  have "length (d p) \<le> length q" using arg_cong [OF q, of length] by simp
  moreover have "take (length q) (d q) = q" by (auto simp: d_def)
  moreover have "length q \<le> length (d q)" by (auto simp: d_def)
  ultimately have "take (length (d p)) r = d p"
    using r q by (metis (no_types, lifting) min.absorb1 take_take)
  with l show ?thesis by (auto simp: path_below_def d_def Let_def)
qed

text \<open>When everything left is refused, the deepest mount on a path is busy or was not in the list.\<close>

lemma blocked_by_deepest:
  assumes tr: "tracks mounted all0 paths0 k l"
    and stuck: "\<forall>n\<in>set l. \<not> fst (umount k (mp_path n))"
    and free: "refuses_busy_only umount mounted busy"
    and p: "p \<in># mounted k"
  shows "\<exists>q \<in># mounted k. (q = p \<or> path_below q p) \<and> (q \<in> busy \<or> count paths0 q < count all0 q)"
proof -
  define D where "D = {q \<in> set_mset (mounted k). q = p \<or> path_below q p}"
  have "finite D" "D \<noteq> {}" using p by (auto simp: D_def)
  then obtain d where d: "d \<in> D" "length d = Max (length ` D)" using obtains_MAX [of D length] by metis
  have top: "\<not> path_below q d" if "q \<in># mounted k" for q
  proof
    assume b: "path_below q d"
    with d(1) that have "q \<in> D" using path_below_trans by (auto simp: D_def)
    then have "length q \<le> length d" unfolding d(2) using \<open>finite D\<close> by simp
    with path_below_length [OF b] show False by simp
  qed
  have "count paths0 d < count all0 d" if "d \<notin> busy"
  proof -
    have mounted: "d \<in># mounted k" using d(1) by (simp add: D_def)
    with top that free have "fst (umount k d)" by (simp add: refuses_busy_only_def)
    with stuck have "count (mset (map mp_path l)) d = 0" by (force simp: not_in_iff [symmetric])
    with arg_cong [of _ _ "\<lambda>m. count m d", OF tr [unfolded tracks_def, THEN conjunct2, THEN conjunct2]] mounted
    show ?thesis by (simp add: not_in_iff) (metis add_diff_cancel_right' count_greater_zero_iff less_add_same_cancel2)
  qed
  with d(1) show ?thesis by (auto simp: D_def)
qed

section \<open>Unmounting: results\<close>

text \<open>C24: from the text of \<open>/proc/self/mountinfo\<close>, line after line, \<open>get_mountpoints\<close>
  collects exactly the mount point paths that are not in the system's table, last line first,
  in nodes with different addresses.\<close>

theorem get_mountpoints_reads_mountinfo:
  assumes "list_all line_ok ls"
  shows "map mp_path (get_mountpoints (Some (concat (map line_text ls))) []) =
      rev (filter (\<lambda>p. p \<notin> target ` set mount_table) (map line_path ls)) \<and>
    distinct (map mp_addr (get_mountpoints (Some (concat (map line_text ls))) []))"
  using mountpoints_loop_text [OF assms, of "[]" 0 "[]"]
  by (simp add: distinct_get_mountpoints, simp add: get_mountpoints_def)

theorem get_mountpoints_reads_mountinfo_witness:
  "map mp_path (get_mountpoints (Some (concat (map line_text
     [\<lparr>ids = [''24'', ''1'', ''0:21'', ''/''], line_path = ''/proc'', others = ''rw - proc proc rw''\<rparr>,
      \<lparr>ids = [''30'', ''1'', ''8:1'', ''/''], line_path = ''/data'', others = ''rw - ext4 /dev/sda1 rw''\<rparr>]))) [])
   = [''/data'']"
proof -
  let ?ls = "[\<lparr>ids = [''24'', ''1'', ''0:21'', ''/''], line_path = ''/proc'', others = ''rw - proc proc rw''\<rparr>,
      \<lparr>ids = [''30'', ''1'', ''8:1'', ''/''], line_path = ''/data'', others = ''rw - ext4 /dev/sda1 rw''\<rparr>]"
  have "list_all line_ok ?ls" by (simp add: line_ok_def is_word_def is_space_def)
  from get_mountpoints_reads_mountinfo [OF this] show ?thesis by (simp add: mount_table_def)
qed

text \<open>C16: unmounting always ends and takes down all that can be taken down. What is unmounted is a part
  of the list: the rest of the list is still there, and at the end the kernel refuses every path of it.
  If a mount point survives, then on it or below it is a mount that the kernel keeps for a reason of its
  own (it is in \<open>busy\<close>) or that the list did not have, so mounts stacked in any order come down. The
  kernel is any function for which a success takes one mount at that path away, a refusal changes nothing,
  and outside \<open>busy\<close> (any set) a mount with nothing below it is not refused; the list is what
  \<open>get_mountpoints\<close> made of the mountinfo, whatever that was and whichever allocations failed.\<close>

theorem umount_takes_down_what_it_can:
  assumes "umount_removes umount mounted" "umount_refusal_keeps umount" "refuses_busy_only umount mounted busy"
    and "listed = mset (map mp_path (get_mountpoints mountinfo answers))"
    and "mount_umount_filesystems umount mountinfo answers k = (k', left)"
  shows "left = [] \<and>
    (\<exists>rest. rest \<subseteq># listed \<and> mounted k' + listed = mounted k + rest \<and> (\<forall>p \<in># rest. \<not> fst (umount k' p))) \<and>
    (\<forall>p \<in># mounted k'. \<exists>q \<in># mounted k'. (q = p \<or> path_below q p) \<and> (q \<in> busy \<or> count listed q < count (mounted k) q))"
proof -
  obtain l where loop: "umount_loop umount k (get_mountpoints mountinfo answers) = (k', l)"
    and left: "left = free_mountpoints l"
    using assms(5) by (auto simp: mount_umount_filesystems_def split: prod.splits)
  have "tracks mounted (mounted k) listed k (get_mountpoints mountinfo answers)"
    using assms(4) by (simp add: tracks_def distinct_get_mountpoints)
  from umount_loop_end [OF assms(1,2) loop this]
  have tr: "tracks mounted (mounted k) listed k' l" and stuck: "\<forall>n\<in>set l. \<not> fst (umount k' (mp_path n))" by blast+
  have "\<exists>rest. rest \<subseteq># listed \<and> mounted k' + listed = mounted k + rest \<and> (\<forall>p \<in># rest. \<not> fst (umount k' p))"
    using tr stuck by (intro exI [of _ "mset (map mp_path l)"]) (auto simp: tracks_def)
  with blocked_by_deepest [OF tr stuck assms(3)] left show ?thesis by (simp add: free_mountpoints_Nil)
qed

text \<open>A kernel of that kind: the list of its mounts. It refuses a path with a mount below it, and the
  root, which is in use.\<close>

definition umount_tree :: "string list \<Rightarrow> string \<Rightarrow> bool \<times> string list" where
  "umount_tree k p = (if p \<in> set k \<and> p \<noteq> ''/'' \<and> \<not> list_ex (\<lambda>q. path_below q p) k
                      then (True, remove1 p k) else (False, k))"

theorem umount_takes_down_what_it_can_witness:
  "case mount_umount_filesystems umount_tree
      (Some (''1 0 0:1 / / a'' @ [newline] @ ''2 0 0:2 / /data/x b'' @ [newline] @ ''3 0 0:2 / /data b'')) []
      [''/'', ''/data/x'', ''/data'', ''/proc''] of (k', left) \<Rightarrow>
     k' = [''/'', ''/proc''] \<and> left = [] \<and>
     (\<forall>p \<in># mset k'. \<exists>q \<in># mset k'. (q = p \<or> path_below q p) \<and>
        (q \<in> {''/''} \<or> count (mset [''/data'', ''/data/x'', ''/'']) q < count (mset [''/'', ''/data/x'', ''/data'', ''/proc'']) q))"
proof -
  let ?m = "Some (''1 0 0:1 / / a'' @ [newline] @ ''2 0 0:2 / /data/x b'' @ [newline] @ ''3 0 0:2 / /data b'')"
  let ?k = "[''/'', ''/data/x'', ''/data'', ''/proc'']"
  have pts: "map mp_path (get_mountpoints ?m []) = [''/data'', ''/data/x'', ''/'']" by code_simp
  have run: "mount_umount_filesystems umount_tree ?m [] ?k = ([''/'', ''/proc''], [])" by code_simp
  have "umount_removes umount_tree mset" "umount_refusal_keeps umount_tree" "refuses_busy_only umount_tree mset {''/''}"
    by (auto simp: umount_removes_def umount_refusal_keeps_def refuses_busy_only_def umount_tree_def
        list_ex_iff split: if_splits)
  from umount_takes_down_what_it_can [OF this _ run, of "mset [''/data'', ''/data/x'', ''/'']"]
  show ?thesis unfolding run pts prod.case by blast
qed

end
