(* ===== verification/Boot.thy ===== *)
theory Boot
  imports Shutdown Child Mount
begin

text \<open>
  \<open>main\<close> of init (\<open>src/main.c\<close>) and what only it calls: the console, the signal mask, the
  Sysrq keys and the end. The first part works on the descriptor table of \<open>Log\<close> and \<open>Child\<close>;
  from \<open>mainloop_setup\<close> on, the state is that of the process manager, whose open descriptors
  are those of the table. The result for the whole program is that it never fails an assertion and
  never uses freed memory, on every run in which the events come one at a time, if the inittab consists
  of newline-terminated lines and the period of the watchdog is not absurdly long.
\<close>

section \<open>Definitions\<close>

text \<open>What the program finds, and the answers it gets.\<close>

record boot_env =
  pid_one :: bool
  mount_start :: mount_env
  fstab :: "mntent list option"
  chdir_ok :: bool
  inside_container :: bool
  at_start :: child_state
  inittab_file :: "FILE option"
  inittab_allocs :: "bool list"
  wd_period :: "int option"
  loop_allocs :: "bool list"
  loop_calls :: "bool list"
  fork_answers :: "nat option list"
  wait_answers :: "wait_answer list"
  pipe_answers :: "write_answer list list"
  mountinfo :: "string option"
  umount_allocs :: "bool list"

subsection \<open>Before the loop\<close>

definition setup_console :: "'a child_state_scheme \<Rightarrow> bool \<times> 'a child_state_scheme" where
  "setup_console s =
     (let s1 = fd_close STDOUT_FILENO (fd_close STDERR_FILENO (fd_close STDIN_FILENO s)) in
      case open_console ''/dev/console'' s1 of
        (None, s2) \<Rightarrow> (False, s2)
      | (Some tty, s2) \<Rightarrow> (case reset_console tty s2 of (r, s3) \<Rightarrow> (r, fd_close tty s3)))"

definition setup_signals :: "'a child_state_scheme \<Rightarrow> 'a child_state_scheme" where
  "setup_signals s = s\<lparr>sig_mask := [SIGCHLD, SIGTERM, SIGUSR1, SIGUSR2]\<rparr>"

definition disable_sysrq :: "'a fd_state_scheme \<Rightarrow> bool \<times> 'a fd_state_scheme" where
  "disable_sysrq s =
     (case fd_open (File ''/proc/sys/kernel/sysrq'') True s of
        (None, s1) \<Rightarrow> (False, log_errno ''Could not open sysrq file: '' s1)
      | (Some f, s1) \<Rightarrow>
          (case call_answer s1 of (put, s2) \<Rightarrow>
             if put then (True, fd_close f (fd_write f ''0'' s2))
             else (False, fd_close f (log_errno ''Could not write to sysrq file: '' s2))))"

text \<open>
  From \<open>setsid\<close> to \<open>disable_sysrq\<close>: failures are logged only. The answers are those of
  \<open>setsid\<close> and \<open>reboot(RB_DISABLE_CAD)\<close>.
\<close>

definition early_setup :: "'a child_state_scheme \<Rightarrow> 'a child_state_scheme" where
  "early_setup s =
     (case call_answer s of (_, s1) \<Rightarrow>
        let s2 = setup_signals (s1\<lparr>session_leader := True\<rparr>) in
        case call_answer s2 of (cad, s3) \<Rightarrow>
          let s4 = (if cad then s3 else log_errno ''Could not disable Ctrl+Alt+Del: '' s3) in
          case disable_sysrq s4 of (off, s5) \<Rightarrow>
            if off then s5 else log_message (''Could not disable Sysrq keys'' @ [newline]) s5)"

text \<open>The variables as the program starts with them, and the descriptors that are open.\<close>

definition descriptors :: "'a fd_state_scheme \<Rightarrow> nat list" where
  "descriptors s = filter (\<lambda>n. table s n \<noteq> None) [0..<fd_limit s]"

definition static_state :: "boot_env \<Rightarrow> nat list \<Rightarrow> init_state" where
  "static_state boot fds =
     \<lparr>epollfd = None, should_exit = True, post_iteration_callback = None, objects = Map.empty, next_addr = 0,
      open_fds = fds, interest = Map.empty, alloc_ok = loop_allocs boot, sys_ok = loop_calls boot,
      watchdog_fd = - 1, watchdog_timeout = None, wd_commands = [],
      remaining = [], pending_finish = 0, inittab_entries = empty_inittab, running_processes = [],
      current_stage = STAGE_SETUP, kill_timeout = None, one_shot_timeout = None, safe_mode_pipe_fd = 0,
      shutdown_command = RB_AUTOBOOT, safe_mode_on = False, msh = None,
      forks = fork_answers boot, waits = wait_answers boot, pipe_writes = pipe_answers boot, kills = [], sent = []\<rparr>"

subsection \<open>The services\<close>

text \<open>
  From \<open>mainloop_setup\<close> to \<open>start_watchdog\<close>; then from \<open>read_inittab\<close> to
  \<open>start_processes\<close>. The flag is false where the code goes to the end with EXIT_FAILURE.
\<close>

definition start_loop_services :: "boot_env \<Rightarrow> 'a init_state_scheme \<Rightarrow> (bool \<times> 'a init_state_scheme) c_res" where
  "start_loop_services boot s =
     res_bind (mainloop_setup s)
       (\<lambda>(ok, s1). if \<not> ok then Inr (False, s1)
          else res_bind (mainloop_add_signal_handler signal_handler_fn
                           (mainloop_set_post_iteration_callback (Some stage_maintenance_fn) s1))
            (\<lambda>(handler, s2). let s3 = s2\<lparr>msh := handler\<rparr> in
               if handler = None then Inr (False, s3)
               else res_bind (start_watchdog (wd_period boot) s3) (\<lambda>s4. Inr (True, s4))))"

definition start_system :: "inittab \<Rightarrow> 'a init_state_scheme \<Rightarrow> (bool \<times> 'a init_state_scheme) c_res" where
  "start_system tables s =
     (let s1 = s\<lparr>inittab_entries := tables\<rparr> in
      res_bind (setup_safe_mode (placeholder_entry s1) s1)
        (\<lambda>(ok, s2). if \<not> ok then Inr (False, s2)
           else res_bind (start_processes (startup_list tables) (s2\<lparr>current_stage := STAGE_STARTUP\<rparr>))
                  (\<lambda>(_, s3). Inr (True, s3))))"

text \<open>All of it; the outer \<open>option\<close> is the termination of \<open>read_inittab\<close>.\<close>

definition bring_up :: "boot_env \<Rightarrow> 'a init_state_scheme \<Rightarrow> (bool \<times> 'a init_state_scheme) c_res option" where
  "bring_up boot s =
     (case start_loop_services boot s of
        Inl f \<Rightarrow> Some (Inl f)
      | Inr (False, s1) \<Rightarrow> Some (Inr (False, s1))
      | Inr (True, s1) \<Rightarrow>
          map_option (\<lambda>res. res_bind res
            (\<lambda>tables. case tables of None \<Rightarrow> Inr (False, s1) | Some t \<Rightarrow> start_system t s1))
            (read_inittab (inittab_allocs boot) (inittab_file boot) empty_inittab))"

subsection \<open>The end\<close>

text \<open>
  How \<open>main\<close> ends: with EXIT_FAILURE before the loop, not yet (it waits for an event), or in
  \<open>reboot\<close> with a command, the state and the kernel state that unmounting left.
\<close>

datatype 'k main_end = Exit_Failure | Running init_state | Rebooting reboot_command init_state 'k

definition free_inittab_entry_list :: "inittab_entry list \<Rightarrow> inittab_entry list" where
  "free_inittab_entry_list list = fold (\<lambda>_ l. tl l) list list"

definition do_reboot ::
    "boot_env \<Rightarrow> ('k \<Rightarrow> string \<Rightarrow> bool \<times> 'k) \<Rightarrow> 'k \<Rightarrow> reboot_command \<Rightarrow> init_state \<Rightarrow> 'k main_end c_res" where
  "do_reboot boot umount k cmd s =
     (case mount_umount_filesystems umount (mountinfo boot) (umount_allocs boot) k of (k', _) \<Rightarrow>
        res_bind (close_watchdog True s) (\<lambda>s1. Inr (Rebooting cmd s1 k')))"

text \<open>\<open>if (msh != NULL) mainloop_remove_signal_handler(msh)\<close>.\<close>

definition remove_handler :: "'a init_state_scheme \<Rightarrow> 'a init_state_scheme c_res" where
  "remove_handler s = (case msh s of
     None \<Rightarrow> Inr s
   | Some m \<Rightarrow> res_bind (mainloop_remove_signal_handler m s) (\<lambda>s1. Inr (s1\<lparr>msh := None\<rparr>)))"

definition wind_down ::
    "boot_env \<Rightarrow> ('k \<Rightarrow> string \<Rightarrow> bool \<times> 'k) \<Rightarrow> 'k \<Rightarrow> init_state \<Rightarrow> 'k main_end c_res" where
  "wind_down boot umount k s =
     res_bind (free_process_list (running_processes s))
       (\<lambda>ps. let t = inittab_entries s;
                 t' = \<lparr>startup_list = free_inittab_entry_list (startup_list t),
                       shutdown_list = free_inittab_entry_list (shutdown_list t),
                       safe_mode_entry = free_inittab_entry_list (safe_mode_entry t)\<rparr>
             in res_bind (remove_handler (s\<lparr>running_processes := ps, inittab_entries := t'\<rparr>))
                  (\<lambda>s1. do_reboot boot umount k (shutdown_command s1) s1))"

definition main_from ::
    "boot_env \<Rightarrow> ('k \<Rightarrow> string \<Rightarrow> bool \<times> 'k) \<Rightarrow> 'k \<Rightarrow> epoll_answer list \<Rightarrow> init_state \<Rightarrow> 'k main_end c_res option" where
  "main_from boot umount k ws s =
     map_option (\<lambda>res. res_bind res
       (\<lambda>(ok, s1). if \<not> ok then res_bind (remove_handler s1) (\<lambda>_. Inr Exit_Failure)
          else res_bind (mainloop_start init_callbacks ws s1)
            (\<lambda>r. case r of Waiting s2 \<Rightarrow> Inr (Running s2) | Returned _ s2 \<Rightarrow> wind_down boot umount k s2)))
       (bring_up boot s)"

definition main ::
    "boot_env \<Rightarrow> ('k \<Rightarrow> string \<Rightarrow> bool \<times> 'k) \<Rightarrow> 'k \<Rightarrow> epoll_answer list \<Rightarrow> 'k main_end c_res option" where
  "main boot umount k ws =
     (if \<not> pid_one boot then Some (Inr Exit_Failure)
      else case mount_mount_filesystems (fstab boot) (mount_start boot) of
        Inl f \<Rightarrow> Some (Inl f)
      | Inr (mounted, _) \<Rightarrow>
          if \<not> mounted \<or> \<not> chdir_ok boot then Some (Inr Exit_Failure)
          else case (if inside_container boot then (True, at_start boot) else setup_console (at_start boot)) of
            (False, _) \<Rightarrow> Some (Inr Exit_Failure)
          | (True, c) \<Rightarrow> main_from boot umount k ws (static_state boot (descriptors (early_setup c))))"

section \<open>Freeing\<close>

lemma free_process_list_all: "distinct (map p_addr ps) \<Longrightarrow> free_process_list ps = Inr []"
proof (induction ps)
  case (Cons p ps)
  have "remove_process (p_addr p) (p # ps) = Inr ps" by (simp add: remove_process_def)
  with Cons show ?case by (subst free_process_list.simps) simp
qed (subst free_process_list.simps, simp)

lemma fold_tl: "length xs \<le> length l \<Longrightarrow> fold (\<lambda>_ l. tl l) xs l = drop (length xs) l"
  by (induction xs arbitrary: l) (auto simp: drop_Suc)

lemma free_inittab_entry_list_all: "free_inittab_entry_list list = []"
  by (simp add: free_inittab_entry_list_def fold_tl)

section \<open>The watchdog\<close>

text \<open>\<open>start_watchdog\<close> changes its own variables and what the event loop may change.\<close>

definition wd_frame :: "'a watchdog_state_scheme \<Rightarrow> 'a watchdog_state_scheme \<Rightarrow> bool" where
  "wd_frame s s' \<longleftrightarrow>
     s\<lparr>objects := objects s', next_addr := next_addr s', open_fds := open_fds s', interest := interest s',
       alloc_ok := alloc_ok s', sys_ok := sys_ok s', watchdog_fd := watchdog_fd s',
       watchdog_timeout := watchdog_timeout s', wd_commands := wd_commands s'\<rparr> = s'"

lemma wd_frame_eq: "wd_frame s s' \<Longrightarrow> f s' = f (s\<lparr>objects := objects s', next_addr := next_addr s',
    open_fds := open_fds s', interest := interest s', alloc_ok := alloc_ok s', sys_ok := sys_ok s',
    watchdog_fd := watchdog_fd s', watchdog_timeout := watchdog_timeout s', wd_commands := wd_commands s'\<rparr>)"
  by (simp only: wd_frame_def)

lemma wd_frame_trans [trans]:
  assumes "wd_frame s s'" "wd_frame s' s''"
  shows "wd_frame s s''"
proof -
  have "s'\<lparr>objects := ob, next_addr := n, open_fds := fds, interest := i, alloc_ok := al, sys_ok := sy,
        watchdog_fd := a, watchdog_timeout := b, wd_commands := c\<rparr> =
      s\<lparr>objects := ob, next_addr := n, open_fds := fds, interest := i, alloc_ok := al, sys_ok := sy,
        watchdog_fd := a, watchdog_timeout := b, wd_commands := c\<rparr>" for ob n fds i al sy a b c
    by (subst assms(1) [unfolded wd_frame_def, symmetric]) simp
  with assms(2) show ?thesis by (simp only: wd_frame_def)
qed

lemma loop_frame_wd:
  assumes "loop_frame s s'"
  shows "wd_frame s s'"
  unfolding wd_frame_def watchdog_frame [OF assms]
  by (subst assms [unfolded loop_frame_def, symmetric], subst (10) assms [unfolded loop_frame_def, symmetric]) simp

lemma wd_frame_updates [simp]:
  "wd_frame s (s\<lparr>watchdog_fd := a\<rparr>)" "wd_frame s (s\<lparr>watchdog_timeout := b\<rparr>)" "wd_frame s (snd (wd_send c s))"
  by (auto simp: wd_frame_def wd_send_def sys_answer_def split: prod.split)

definition grows :: "'a mainloop_scheme \<Rightarrow> 'a mainloop_scheme \<Rightarrow> bool" where
  "grows s s' \<longleftrightarrow> (\<forall>a obj. objects s a = Some obj \<longrightarrow> objects s' a = Some obj) \<and>
     (\<forall>a obj. objects s' a = Some obj \<longrightarrow> objects s a = Some obj \<or>
        cb_type obj = CALLBACK_TIMEOUT \<and> cb_fn obj = watchdog_feed_fn)"

lemma close_watchdog_quiet:
  assumes "mainloop_ok s" "watchdog_timeout s = None" "0 < watchdog_fd s \<Longrightarrow> quiet s (nat (watchdog_fd s))"
  shows "\<exists>s'. close_watchdog False s = Inr s' \<and> mainloop_ok s' \<and> loop_frame s s' \<and> objects s' = objects s"
proof (cases "0 < watchdog_fd s")
  case True
  let ?fd = "nat (watchdog_fd s)"
  have "interest s ?fd = None" "epollfd s \<noteq> Some ?fd" using assms(3) [OF True] by (simp_all add: quiet_def)
  note c = sys_close_ok [OF assms(1) this]
  have "watchdog_timeout (sys_close ?fd s) = None" using watchdog_frame(2) [OF c(2)] assms(2) by simp
  with c True show ?thesis by (simp add: close_watchdog_def Let_def)
qed (use assms in \<open>simp add: close_watchdog_def\<close>)

text \<open>The part after the device is open: the timeout is set up, or the device closed again.\<close>

definition arm_watchdog :: "int \<Rightarrow> 'a watchdog_state_scheme \<Rightarrow> 'a watchdog_state_scheme c_res" where
  "arm_watchdog t s = res_bind (mainloop_add_timeout (feed_period t) watchdog_feed_fn s)
     (\<lambda>(mt, s1). let s2 = s1\<lparr>watchdog_timeout := mt\<rparr> in
        if mt = None then close_watchdog False s2 else Inr s2)"

lemma grows_timeout:
  assumes "case r of None \<Rightarrow> objects s' = objects s
    | Some a \<Rightarrow> objects s a = None \<and>
        (\<exists>obj. objects s' = (objects s)(a \<mapsto> obj) \<and> cb_type obj = CALLBACK_TIMEOUT \<and> cb_fn obj = watchdog_feed_fn \<and> P a obj)"
  shows "grows s s'" "refers s' r watchdog_feed_fn"
proof -
  have "grows s s' \<and> refers s' r watchdog_feed_fn"
  proof (cases r)
    case None
    with assms show ?thesis by (simp add: grows_def refers_def)
  next
    case (Some a)
    with assms obtain obj where "objects s a = None" "objects s' = (objects s)(a \<mapsto> obj)" "cb_type obj = CALLBACK_TIMEOUT"
        "cb_fn obj = watchdog_feed_fn" by auto
    with Some show ?thesis by (simp add: grows_def refers_def)
  qed
  then show "grows s s'" "refers s' r watchdog_feed_fn" by simp_all
qed

lemma arm_watchdog_settles:
  assumes ok: "mainloop_ok s" and e: "epollfd s \<noteq> None" and q: "quiet s fd" "watchdog_fd s = int fd"
    and t: "1 \<le> t" "t \<le> 4772185"
  shows "\<exists>s'. arm_watchdog t s = Inr s' \<and> mainloop_ok s' \<and> wd_frame s s' \<and> grows s s' \<and>
    refers s' (watchdog_timeout s') watchdog_feed_fn"
proof -
  have "0 < unat (feed_period t)" unfolding feed_period_exact [OF t] using t(1) by simp
  then have "feed_period t \<noteq> 0" by (metis unat_0 less_irrefl)
  from mainloop_add_timeout_ok [OF ok this e, of watchdog_feed_fn] obtain mt s1 where
    add: "mainloop_add_timeout (feed_period t) watchdog_feed_fn s = Inr (mt, s1)" "mainloop_ok s1" "loop_frame s s1"
      "\<forall>fd. quiet s fd \<longrightarrow> quiet s1 fd"
      "case mt of None \<Rightarrow> objects s1 = objects s
       | Some a \<Rightarrow> objects s a = None \<and>
         (\<exists>obj. objects s1 = (objects s)(a \<mapsto> obj) \<and> cb_type obj = CALLBACK_TIMEOUT \<and> cb_fn obj = watchdog_feed_fn \<and>
            interest s1 (cb_fd obj) = Some a \<and>
            fst (period obj) * 1000 + snd (period obj) div 1000000 = unat (feed_period t))" by blast
  note g = grows_timeout [OF add(5)]
  let ?s2 = "s1\<lparr>watchdog_timeout := mt\<rparr>"
  have f2: "wd_frame s ?s2" by (rule wd_frame_trans [OF loop_frame_wd [OF add(3)]]) simp
  show ?thesis
  proof (cases mt)
    case None
    have "quiet ?s2 fd" using add(4) q(1) by (simp add: quiet_def)
    then have "\<exists>s'. close_watchdog False ?s2 = Inr s' \<and> mainloop_ok s' \<and> loop_frame ?s2 s' \<and> objects s' = objects ?s2"
      using add(2) None watchdog_frame(1) [OF add(3)] q(2) by (intro close_watchdog_quiet) simp_all
    then obtain s' where s': "close_watchdog False ?s2 = Inr s'" "mainloop_ok s'" "loop_frame ?s2 s'" "objects s' = objects s1" by auto
    have "watchdog_timeout s' = None" using watchdog_frame(2) [OF s'(3)] None by simp
    moreover have "grows s s'" using g(1) s'(4) by (simp add: grows_def)
    moreover have "wd_frame s s'" using wd_frame_trans [OF f2 loop_frame_wd [OF s'(3)]] .
    ultimately show ?thesis using s'(1,2) add(1) None by (simp add: arm_watchdog_def)
  next
    case (Some a)
    have "grows s ?s2" "refers ?s2 mt watchdog_feed_fn" using g by (simp_all add: grows_def refers_def)
    with add(1,2) f2 Some show ?thesis by (simp add: arm_watchdog_def)
  qed
qed

lemma start_watchdog_settles:
  assumes ok: "mainloop_ok s" and e: "epollfd s \<noteq> None" and none: "watchdog_timeout s = None"
    and range: "\<And>t. get = Some t \<Longrightarrow> t \<le> 4772185"
  shows "\<exists>s'. start_watchdog get s = Inr s' \<and> mainloop_ok s' \<and> wd_frame s s' \<and> grows s s' \<and>
    refers s' (watchdog_timeout s') watchdog_feed_fn"
proof -
  obtain r s1 where op: "sys_open s = (r, s1)" by (cases "sys_open s")
  note s1 = sys_open_ok [OF op ok]
  have f1: "loop_frame s s1" "watchdog_timeout s1 = None" "epollfd s1 = epollfd s"
    using s1 watchdog_frame(2) [of s s1] loop_frame_fields(1) [of s s1] none by auto
  show ?thesis
  proof (cases r)
    case None
    have "wd_frame s (s1\<lparr>watchdog_fd := - 1\<rparr>)"
      by (rule wd_frame_trans [OF loop_frame_wd [OF f1(1)]]) simp
    with None op s1 f1(2) show ?thesis by (simp add: start_watchdog_def grows_def refers_def)
  next
    case (Some fd)
    let ?s2 = "s1\<lparr>watchdog_fd := int fd\<rparr>"
    have fd: "fd \<notin> set (open_fds s)" "open_fds s1 = fd # open_fds s" using s1 Some by auto
    have q2: "quiet ?s2 fd" using fd s1 f1(3) interest_closed [OF ok fd(1)] mainloop_okD(5) [OF ok, of fd]
      by (auto simp: quiet_def)
    have f2: "wd_frame s ?s2" by (rule wd_frame_trans [OF loop_frame_wd [OF f1(1)]]) simp
    show ?thesis
    proof (cases "\<exists>t. get = Some t \<and> 1 \<le> t")
      case True
      then obtain t where t: "get = Some t" "1 \<le> t" by blast
      obtain s' where s': "arm_watchdog t ?s2 = Inr s'" "mainloop_ok s'" "wd_frame ?s2 s'" "grows ?s2 s'"
          "refers s' (watchdog_timeout s') watchdog_feed_fn"
        using arm_watchdog_settles [OF _ _ q2 _ t(2) range [OF t(1)]] s1 f1(3) e by auto
      moreover have "start_watchdog get s = arm_watchdog t ?s2"
        using t op Some by (simp add: start_watchdog_def arm_watchdog_def)
      moreover have "grows s s'" using s'(4) s1 by (simp add: grows_def)
      ultimately show ?thesis using wd_frame_trans [OF f2] by auto
    next
      case False
      obtain set_ok s3 where send: "wd_send (Set_Timeout 60) ?s2 = (set_ok, s3)" by (cases "wd_send (Set_Timeout 60) ?s2")
      note w = wd_send_fields [of "Set_Timeout 60" ?s2, unfolded send snd_conv]
      have f3: "wd_frame ?s2 s3" using wd_frame_updates(3) [of ?s2 "Set_Timeout 60"] send by simp
      have eqs: "epollfd s3 = epollfd s1" "objects s3 = objects s1" "interest s3 = interest s1"
        "open_fds s3 = open_fds s1" "next_addr s3 = next_addr s1" using w by simp_all
      have "mainloop_ok s3" using s1 [THEN conjunct1] by (simp only: mainloop_ok_def eqs)
      then have ok3: "mainloop_ok s3" "quiet s3 fd" "epollfd s3 \<noteq> None" "watchdog_fd s3 = int fd" "watchdog_timeout s3 = None"
        using w q2 f1(2,3) e by (simp_all add: quiet_def)
      have start: "start_watchdog get s = (if set_ok then arm_watchdog 60 s3 else close_watchdog False s3)"
        using False op Some send
        by (auto simp: start_watchdog_def arm_watchdog_def WATCHDOG_TIMEOUT_DEFAULT_SECS_def split: option.split)
      show ?thesis
      proof (cases set_ok)
        case True
        obtain s' where s': "arm_watchdog 60 s3 = Inr s'" "mainloop_ok s'" "wd_frame s3 s'" "grows s3 s'"
            "refers s' (watchdog_timeout s') watchdog_feed_fn"
          using arm_watchdog_settles [OF ok3(1,3,2,4), of 60] by auto
        moreover have "grows s s'" using s'(4) s1 w(2) by (simp add: grows_def)
        ultimately show ?thesis using start True wd_frame_trans [OF wd_frame_trans [OF f2 f3]] by auto
      next
        case False
        obtain s' where s': "close_watchdog False s3 = Inr s'" "mainloop_ok s'" "loop_frame s3 s'" "objects s' = objects s3"
          using close_watchdog_quiet [OF ok3(1,5)] ok3(2,4) by auto
        have "watchdog_timeout s' = None" using watchdog_frame(2) [OF s'(3)] ok3(5) by simp
        moreover have "grows s s'" using s'(4) s1 w(2) by (simp add: grows_def)
        moreover have "wd_frame s s'" using wd_frame_trans [OF wd_frame_trans [OF f2 f3] loop_frame_wd [OF s'(3)]] .
        ultimately show ?thesis using start False s'(1,2) by (simp add: refers_def)
      qed
    qed
  qed
qed

section \<open>The inittab\<close>

text \<open>What the process manager relies on in the lists.\<close>

definition good_tables :: "inittab \<Rightarrow> bool" where
  "good_tables t \<longleftrightarrow> tables_ok t \<and> sorted (map order (startup_list t)) \<and>
     list_all (\<lambda>e. entry_type e \<noteq> SAFE_MODE) (startup_list t) \<and> length (startup_list t) < 2 ^ 32"

lemma length_parse_lines: "length (parse_lines ls) \<le> length ls"
  by (induction ls) auto

lemma inittab_spec_good:
  assumes "inittab_spec ls = Some t" "length ls < 2 ^ 32"
  shows "good_tables t"
proof -
  define xs where "xs = map the (parse_lines ls)"
  from assms(1) have one: "length (filter (\<lambda>e. entry_type e = SAFE_MODE) xs) = 1" and t: "t = inittab_of xs"
    by (auto simp: inittab_spec_def xs_def Let_def split: if_splits)
  obtain e where e: "filter (\<lambda>e. entry_type e = SAFE_MODE) xs = [e]" using one
    by (cases "filter (\<lambda>e. entry_type e = SAFE_MODE) xs") auto
  then have "e \<in> set (filter (\<lambda>e. entry_type e = SAFE_MODE) xs)" by simp
  then have "entry_type e = SAFE_MODE" by simp
  moreover have "length xs \<le> length ls" using length_parse_lines [of ls] by (simp add: xs_def)
  then have "length (filter is_startup_entry xs) \<le> length ls"
    using length_filter_le [of is_startup_entry xs] by linarith
  ultimately show ?thesis using e assms(2)
    by (auto simp: good_tables_def tables_ok_def t inittab_of_def list_all_iff is_startup_entry_def)
qed

text \<open>
  The inittab as a file that an editor left: lines without newline or NUL, each ended by a newline,
  fewer than \<open>2 ^ 32\<close> of them. What the lines say does not matter.
\<close>

definition inittab_readable :: "FILE option \<Rightarrow> bool" where
  "inittab_readable f \<longleftrightarrow> (\<forall>fp. f = Some fp \<longrightarrow>
     (\<exists>ls. fp = file_of (unlines ls) \<and> list_all text_line ls \<and> length ls < 2 ^ 32))"

lemma read_inittab_good:
  assumes "inittab_readable f"
  shows "\<exists>m. read_inittab callocs f empty_inittab = Some (Inr m) \<and> (\<forall>t. m = Some t \<longrightarrow> good_tables t)"
proof (cases f)
  case None
  then show ?thesis by (simp add: read_inittab_def)
next
  case (Some fp)
  with assms obtain ls where ls: "fp = file_of (unlines ls)" "\<forall>l \<in> set ls. text_line l" "length ls < 2 ^ 32"
    by (auto simp: inittab_readable_def list_all_iff)
  from read_inittab_returns [OF ls(2), of callocs] obtain m where
    m: "read_inittab callocs f empty_inittab = Some (Inr m)"
      "\<forall>t. m = Some t \<longrightarrow> inittab_ok t \<and> safe_mode_entry t \<noteq> [] \<and> length (startup_list t) \<le> length ls"
    using Some ls(1) by blast
  have "good_tables t" if "m = Some t" for t
  proof -
    have ok: "inittab_ok t" "safe_mode_entry t \<noteq> []" "length (startup_list t) \<le> length ls" using m(2) that by simp_all
    then have "length (startup_list t) < 2 ^ 32" using ls(3) by linarith
    with ok show ?thesis
      by (cases "safe_mode_entry t") (auto simp: good_tables_def tables_ok_def inittab_ok_def list_all_iff is_startup_entry_def)
  qed
  with m(1) show ?thesis by blast
qed

section \<open>Bringing the system up\<close>

definition idle :: "'a init_state_scheme \<Rightarrow> bool" where
  "idle s \<longleftrightarrow> running_processes s = [] \<and> remaining s = [] \<and> pending_finish s = 0 \<and> safe_mode_pipe_fd s = 0 \<and>
     should_exit s \<and> kill_timeout s = None \<and> one_shot_timeout s = None"

text \<open>The state before the inittab is read: only the lists are missing.\<close>

definition loop_ready :: "'a init_state_scheme \<Rightarrow> bool" where
  "loop_ready s \<longleftrightarrow> idle s \<and> mainloop_ok s \<and> epollfd s \<noteq> None \<and> typed s \<and> handler_live s \<and>
     refers s (watchdog_timeout s) watchdog_feed_fn \<and> post_iteration_callback s = Some stage_maintenance_fn"

lemma idle_frame:
  assumes "wd_frame s s'"
  shows "idle s' = idle s" "epollfd s' = epollfd s" "msh s' = msh s" "post_iteration_callback s' = post_iteration_callback s"
  using wd_frame_eq [OF assms, of idle] wd_frame_eq [OF assms, of epollfd] wd_frame_eq [OF assms, of msh]
    wd_frame_eq [OF assms, of post_iteration_callback] by (simp_all add: idle_def)

lemma services_after_handler:
  assumes s: "mainloop_ok s" "epollfd s \<noteq> None" "idle s" "watchdog_timeout s = None"
      "post_iteration_callback s = Some stage_maintenance_fn" "msh s = Some a"
    and obj: "objects s = [a \<mapsto> obj]" "cb_type obj = CALLBACK_SIGNAL" "cb_fn obj = signal_handler_fn"
    and range: "\<And>t. get = Some t \<Longrightarrow> t \<le> 4772185"
  shows "\<exists>s'. start_watchdog get s = Inr s' \<and> loop_ready s'"
proof -
  obtain s' where s': "start_watchdog get s = Inr s'" "mainloop_ok s'" "wd_frame s s'" "grows s s'"
      "refers s' (watchdog_timeout s') watchdog_feed_fn"
    using start_watchdog_settles [OF s(1,2,4) range] by blast
  note f = idle_frame [OF s'(3)]
  have "typed s'" unfolding typed_def
  proof (intro allI impI)
    fix b ob assume "objects s' b = Some ob"
    then have "objects s b = Some ob \<or> cb_type ob = CALLBACK_TIMEOUT \<and> cb_fn ob = watchdog_feed_fn"
      using s'(4) by (auto simp: grows_def)
    with obj show "if cb_type ob = CALLBACK_SIGNAL then cb_fn ob = signal_handler_fn else cb_fn ob \<in> timeout_fns"
      by (auto simp: timeout_fns_def split: if_splits)
  qed
  moreover have "handler_live s'" using s'(4) obj s(6) f(3) by (auto simp: handler_live_def grows_def)
  ultimately show ?thesis using s'(1,2,5) f s(2,3,5) by (simp add: loop_ready_def)
qed

lemma mainloop_setup_idle:
  assumes "objects s = Map.empty" "interest s = Map.empty" "epollfd s = None"
  shows "\<exists>ok e fds ys. mainloop_setup s = Inr (ok, s\<lparr>epollfd := e, open_fds := fds, sys_ok := ys\<rparr>) \<and>
    (ok \<longrightarrow> e \<noteq> None) \<and> mainloop_ok (s\<lparr>epollfd := e, open_fds := fds, sys_ok := ys\<rparr>)"
proof -
  obtain ok ys where pop: "pop_ok (sys_ok s) = (ok, ys)" by (cases "pop_ok (sys_ok s)")
  let ?e = "if ok then Some (lowest_free (open_fds s)) else None"
  let ?fds = "if ok then lowest_free (open_fds s) # open_fds s else open_fds s"
  have "mainloop_setup s = Inr (ok, s\<lparr>epollfd := ?e, open_fds := ?fds, sys_ok := ys\<rparr>)"
    using assms(3) pop by (simp add: mainloop_setup_def sys_open_def sys_answer_def)
  moreover have "mainloop_ok (s\<lparr>epollfd := ?e, open_fds := ?fds, sys_ok := ys\<rparr>)"
    using assms by (simp add: mainloop_ok_def)
  ultimately show ?thesis by (intro exI [of _ ok] exI [of _ ?e] exI [of _ ?fds] exI [of _ ys]) simp
qed

lemma start_loop_services_ok:
  assumes "\<And>t. wd_period boot = Some t \<Longrightarrow> t \<le> 4772185"
  shows "\<exists>ok s'. start_loop_services boot (static_state boot fds) = Inr (ok, s') \<and>
    (if ok then loop_ready s' else msh s' = None)"
proof -
  let ?s = "static_state boot fds"
  obtain ok e fds' ys where su: "mainloop_setup ?s = Inr (ok, ?s\<lparr>epollfd := e, open_fds := fds', sys_ok := ys\<rparr>)"
      "ok \<longrightarrow> e \<noteq> None" "mainloop_ok (?s\<lparr>epollfd := e, open_fds := fds', sys_ok := ys\<rparr>)"
    using mainloop_setup_idle [of ?s] by (auto simp: static_state_def)
  let ?s1 = "mainloop_set_post_iteration_callback (Some stage_maintenance_fn) (?s\<lparr>epollfd := e, open_fds := fds', sys_ok := ys\<rparr>)"
  show ?thesis
  proof (cases ok)
    case False
    have "msh ?s = None" by (simp add: static_state_def)
    with False su(1) show ?thesis by (auto simp: start_loop_services_def)
  next
    case True
    then have e: "epollfd ?s1 \<noteq> None" using su(2) by (simp add: mainloop_set_post_iteration_callback_def)
    have ok1: "mainloop_ok ?s1" using su(3) by (simp add: mainloop_ok_def mainloop_set_post_iteration_callback_def)
    let ?obj = "\<lambda>fd. \<lparr>cb_fd = fd, cb_type = CALLBACK_SIGNAL, cb_fn = signal_handler_fn, period = (0, 0)\<rparr>"
    obtain r s2 where add: "add_object True ?obj ?s1 = Inr (r, s2)" "mainloop_ok s2" "loop_frame ?s1 s2"
        "case r of None \<Rightarrow> objects s2 = objects ?s1
         | Some a \<Rightarrow> objects ?s1 a = None \<and> (\<exists>fd. objects s2 = (objects ?s1)(a \<mapsto> ?obj fd))"
      using add_object_ok [OF ok1 e, of ?obj] by auto
    note ff = idle_frame [OF loop_frame_wd [OF add(3)]] and wf = watchdog_frame(2) [OF add(3)]
    have st: "idle ?s1" "watchdog_timeout ?s1 = None" "objects ?s1 = Map.empty"
        "post_iteration_callback ?s1 = Some stage_maintenance_fn"
      by (simp_all add: idle_def static_state_def mainloop_set_post_iteration_callback_def)
    have run: "start_loop_services boot ?s =
        (let s3 = s2\<lparr>msh := r\<rparr> in if r = None then Inr (False, s3)
         else res_bind (start_watchdog (wd_period boot) s3) (\<lambda>s4. Inr (True, s4)))"
      using su(1) True add(1) e by (auto simp: start_loop_services_def mainloop_add_signal_handler_def)
    show ?thesis
    proof (cases r)
      case None
      with run show ?thesis by auto
    next
      case (Some a)
      with add(4) st(3) obtain fd where ob: "objects s2 = [a \<mapsto> ?obj fd]" by auto
      let ?s3 = "s2\<lparr>msh := Some a\<rparr>"
      have "mainloop_ok ?s3" "epollfd ?s3 \<noteq> None" "idle ?s3" "watchdog_timeout ?s3 = None"
          "post_iteration_callback ?s3 = Some stage_maintenance_fn" "objects ?s3 = [a \<mapsto> ?obj fd]"
        using add(2) ff st e wf ob by (simp_all add: mainloop_ok_def idle_def)
      from services_after_handler [OF this(1-5) _ this(6), of "wd_period boot"] assms
      obtain s4 where "start_watchdog (wd_period boot) ?s3 = Inr s4" "loop_ready s4" by auto
      with run Some show ?thesis by auto
    qed
  qed
qed

lemma setup_safe_mode_objects:
  "setup_safe_mode (Some e) s = Inr (ok, s') \<Longrightarrow> objects s' = objects s \<and> msh s' = msh s"
  by (auto simp: setup_safe_mode_def Let_def sys_close_def sys_pipe_def sys_answer_def alloc_process_def
      alloc_answer_def sys_fork_def split: if_splits prod.splits option.splits list.splits)

lemma loop_ready_core:
  assumes "loop_ready s" "tables_ok t"
  shows "struct_core (s\<lparr>inittab_entries := t\<rparr>)"
  using assms by (simp add: loop_ready_def struct_core_def idle_def mainloop_ok_def typed_def refers_def handler_live_def)

text \<open>The first processes: what \<open>start_processes\<close> leaves is a state for the loop.\<close>

lemma start_first_processes:
  assumes inv: "struct_inv s" and p: "running_processes s = [p]" "is_placeholder p"
    and st: "remaining s = []" "pending_finish s = 0" "should_exit s" "current_stage s = STAGE_STARTUP"
    and t: "good_tables t" "inittab_entries s = t"
  shows "settles (start_processes (startup_list t) s) (\<lambda>(_, s'). init_inv (s'\<lparr>should_exit := False\<rparr>) \<and> should_exit s')"
proof -
  have none: "one_shots (running_processes s) = 0"
    using p by (auto simp: one_shots_def is_placeholder_def is_one_shot_entry_def)
  have kept: "order_kept (running_processes s) (startup_list t)" "length (startup_list t) < 2 ^ 32"
    using t(1) p by (auto simp: order_kept_def good_tables_def is_placeholder_def is_one_shot_entry_def)
  have fin: "init_inv (s'\<lparr>should_exit := False\<rparr>) \<and> should_exit s'"
    if "struct_inv s'" "same_stage s s'" "scheduled (remaining s') s'" "length (remaining s') < 2 ^ 32" for s'
    using that st by (auto simp: init_inv_def schedule_inv_def stage_ok_def same_stage_def scheduled_def)
  show ?thesis
  proof (cases "startup_list t = []")
    case True
    have "scheduled (remaining s) s" using none st p by (auto simp: scheduled_def order_kept_def is_placeholder_def is_one_shot_entry_def)
    with True fin [OF inv] st(1) show ?thesis by (simp add: start_processes_def)
  next
    case False
    from start_processes_keeps [OF inv False] show ?thesis
      using none kept fin by (auto elim!: settles_mono)
  qed
qed

lemma start_system_settles:
  assumes ready: "loop_ready s" and t: "good_tables t"
  shows "settles (start_system t s) (\<lambda>(ok, s').
    if ok then init_inv (s'\<lparr>should_exit := False\<rparr>) \<and> should_exit s' else handler_live s')"
proof -
  let ?s = "s\<lparr>inittab_entries := t\<rparr>"
  have tok: "tables_ok t" using t by (simp add: good_tables_def)
  then obtain e es where e: "safe_mode_entry t = e # es" "entry_type e = SAFE_MODE"
    by (cases "safe_mode_entry t") (auto simp: tables_ok_def)
  have idle: "idle ?s" "handler_live ?s" using ready by (simp_all add: loop_ready_def idle_def handler_live_def)
  have core: "struct_core (if 0 < safe_mode_pipe_fd ?s then sys_close (safe_mode_pipe_fd ?s) ?s else ?s)"
    using loop_ready_core [OF ready tok] idle by (simp add: idle_def)
  have start: "settles (start_processes (startup_list t) (s2\<lparr>current_stage := STAGE_STARTUP\<rparr>))
      (\<lambda>(_, s'). init_inv (s'\<lparr>should_exit := False\<rparr>) \<and> should_exit s')"
    if s2: "struct_inv s2" "adds_placeholder ?s s2" for s2
  proof -
    obtain p where "is_placeholder p" "running_processes s2 = [p]" using s2(2) idle(1) by (auto simp: adds_placeholder_def idle_def)
    with s2 idle(1) t show ?thesis
      by (intro start_first_processes) (simp_all add: adds_placeholder_def idle_def)
  qed
  have live: "handler_live s2" if "setup_safe_mode (Some e) ?s = Inr (ok, s2)" for ok s2
    using setup_safe_mode_objects [OF that] idle(2) by (simp add: handler_live_def)
  have "settles (setup_safe_mode (Some e) ?s) (\<lambda>(ok, s2). (ok \<longrightarrow> struct_inv s2 \<and> adds_placeholder ?s s2) \<and> handler_live s2)"
    using setup_safe_mode_core [OF core refl e(2)] by (elim settles_mono) (auto dest: live)
  then show ?thesis unfolding start_system_def Let_def
    by (intro settles_bind) (auto simp: placeholder_entry_def e(1) intro!: settles_bind
        elim!: settles_mono settles_mono [OF start])
qed

section \<open>The end\<close>

lemma close_watchdog_live:
  assumes "\<And>a. watchdog_timeout s = Some a \<Longrightarrow> \<exists>obj. objects s a = Some obj"
  shows "\<exists>s'. close_watchdog True s = Inr s' \<and> running_processes s' = running_processes s \<and>
    shutdown_command s' = shutdown_command s"
proof (cases "0 < watchdog_fd s")
  case True
  let ?s1 = "snd (wd_send Magic_Close (snd (wd_send Disable_Card s)))"
  let ?s2 = "sys_close (nat (watchdog_fd ?s1)) ?s1"
  have f: "watchdog_timeout ?s2 = watchdog_timeout s" "objects ?s2 = objects s"
      "running_processes ?s2 = running_processes s" "shutdown_command ?s2 = shutdown_command s"
    by (auto simp: sys_close_def wd_send_def sys_answer_def split: prod.split)
  show ?thesis
  proof (cases "watchdog_timeout s")
    case None
    with True f show ?thesis by (simp add: close_watchdog_def Let_def)
  next
    case (Some a)
    with assms obtain obj where "objects s a = Some obj" by blast
    with True f Some show ?thesis
      by (simp add: close_watchdog_def Let_def mainloop_remove_timeout_def remove_object_def)
        (simp add: remove_fd_def sys_close_def)
  qed
qed (simp add: close_watchdog_def)

lemma wind_down_settles:
  assumes d: "distinct (map p_addr (running_processes s))" and h: "handler_live s"
    and w: "refers s (watchdog_timeout s) watchdog_feed_fn"
  shows "\<exists>s'. wind_down boot umount k s =
      Inr (Rebooting (shutdown_command s) s' (fst (mount_umount_filesystems umount (mountinfo boot) (umount_allocs boot) k))) \<and>
    running_processes s' = [] \<and> shutdown_command s' = shutdown_command s"
proof -
  let ?s0 = "s\<lparr>running_processes := [], inittab_entries := \<lparr>startup_list = [], shutdown_list = [], safe_mode_entry = []\<rparr>\<rparr>"
  have "\<exists>s1. remove_handler ?s0 = Inr s1 \<and> running_processes s1 = [] \<and> shutdown_command s1 = shutdown_command s \<and>
      (\<forall>a. watchdog_timeout s1 = Some a \<longrightarrow> (\<exists>obj. objects s1 a = Some obj))"
  proof (cases "msh s")
    case None
    with w show ?thesis by (auto simp: remove_handler_def refers_def)
  next
    case (Some m)
    with h obtain obj where "objects s m = Some obj" "cb_type obj = CALLBACK_SIGNAL" by (auto simp: handler_live_def)
    with w Some show ?thesis
      by (auto simp: remove_handler_def mainloop_remove_signal_handler_def remove_object_def remove_fd_def sys_close_def refers_def)
  qed
  then obtain s1 where s1: "remove_handler ?s0 = Inr s1" "running_processes s1 = []" "shutdown_command s1 = shutdown_command s"
      "\<forall>a. watchdog_timeout s1 = Some a \<longrightarrow> (\<exists>obj. objects s1 a = Some obj)" by blast
  from close_watchdog_live [of s1] s1(4) obtain s' where "close_watchdog True s1 = Inr s'"
    "running_processes s' = running_processes s1" "shutdown_command s' = shutdown_command s1" by blast
  with s1 d show ?thesis
    by (simp add: wind_down_def free_process_list_all free_inittab_entry_list_all do_reboot_def Let_def split: prod.split)
qed

lemma close_epoll_keeps:
  "objects (close_epoll s) = objects s" "running_processes (close_epoll s) = running_processes s"
  "watchdog_timeout (close_epoll s) = watchdog_timeout s" "msh (close_epoll s) = msh s"
  by (simp_all add: close_epoll_def sys_close_def split: option.split)

section \<open>The whole program\<close>

text \<open>Where \<open>main\<close> can be.\<close>

definition main_ok :: "boot_env \<Rightarrow> ('k \<Rightarrow> string \<Rightarrow> bool \<times> 'k) \<Rightarrow> 'k \<Rightarrow> 'k main_end \<Rightarrow> bool" where
  "main_ok boot umount k r = (case r of
     Exit_Failure \<Rightarrow> True
   | Running s \<Rightarrow> init_inv s \<and> \<not> should_exit s
   | Rebooting cmd s k' \<Rightarrow> running_processes s = [] \<and> cmd = shutdown_command s \<and>
       k' = fst (mount_umount_filesystems umount (mountinfo boot) (umount_allocs boot) k))"

lemma wind_down_main_ok:
  assumes "init_inv s1" "s2 \<in> {close_epoll s1, (close_epoll s1)\<lparr>epollfd := None\<rparr>}"
  shows "settles (wind_down boot umount k s2) (main_ok boot umount k)"
proof -
  have "distinct (map p_addr (running_processes s2))" "handler_live s2" "refers s2 (watchdog_timeout s2) watchdog_feed_fn"
    using assms by (auto simp: init_inv_def struct_inv_unfold close_epoll_keeps handler_live_def refers_def)
  from wind_down_settles [OF this, of boot umount k] show ?thesis by (auto simp: main_ok_def)
qed

lemma loop_main_ok:
  assumes inv: "init_inv (s\<lparr>should_exit := False\<rparr>)" "should_exit s"
    and ord: "orderly init_callbacks ws (s\<lparr>should_exit := False\<rparr>)"
  shows "settles (res_bind (mainloop_start init_callbacks ws s)
    (\<lambda>r. case r of Waiting s2 \<Rightarrow> Inr (Running s2) | Returned _ s2 \<Rightarrow> wind_down boot umount k s2)) (main_ok boot umount k)"
proof (rule settles_bind)
  let ?s = "s\<lparr>should_exit := False\<rparr>"
  have "epollfd s \<noteq> None" using inv(1) by (simp add: init_inv_def struct_inv_unfold)
  then have start: "mainloop_start init_callbacks ws s = mainloop_loop init_callbacks ws ?s"
    using inv(2) by (auto simp: mainloop_start_def)
  have "settles (case r of Waiting s2 \<Rightarrow> Inr (Running s2) | Returned _ s2 \<Rightarrow> wind_down boot umount k s2) (main_ok boot umount k)"
    if run: "mainloop_loop init_callbacks ws ?s = Inr r" for r
  proof (cases r)
    case (Waiting s2)
    with loop_reaches [OF ord run] reachable_inv [OF _ inv(1), of s2] show ?thesis by (simp add: main_ok_def)
  next
    case (Returned b s2)
    with loop_reaches [OF ord run] obtain s1 where s1: "reachable ?s s1" "s2 \<in> {close_epoll s1, (close_epoll s1)\<lparr>epollfd := None\<rparr>}"
      by (cases b) auto
    have "settles (wind_down boot umount k s2) (main_ok boot umount k)"
      by (rule wind_down_main_ok [OF reachable_inv [OF s1(1) inv(1)] s1(2)])
    with Returned show ?thesis by simp
  qed
  with init.loop_settles [OF inv(1) ord]
  show "settles (mainloop_start init_callbacks ws s) (\<lambda>r. settles (case r of Waiting s2 \<Rightarrow> Inr (Running s2)
      | Returned _ s2 \<Rightarrow> wind_down boot umount k s2) (main_ok boot umount k))"
    unfolding start by (elim settles_mono) blast
qed

text \<open>The descriptors \<open>main\<close> has when it sets up the loop.\<close>

definition boot_descriptors :: "boot_env \<Rightarrow> nat list" where
  "boot_descriptors boot = descriptors (early_setup
     (snd (if inside_container boot then (True, at_start boot) else setup_console (at_start boot))))"

lemma main_from_settles:
  assumes tab: "inittab_readable (inittab_file boot)"
    and range: "\<And>t. wd_period boot = Some t \<Longrightarrow> t \<le> 4772185"
    and ord: "\<And>s. bring_up boot (static_state boot fds) = Some (Inr (True, s)) \<Longrightarrow>
      orderly init_callbacks ws (s\<lparr>should_exit := False\<rparr>)"
  shows "\<exists>r. main_from boot umount k ws (static_state boot fds) = Some r \<and> settles r (main_ok boot umount k)"
proof -
  let ?s = "static_state boot fds"
  obtain ok s1 where sv: "start_loop_services boot ?s = Inr (ok, s1)" "if ok then loop_ready s1 else msh s1 = None"
    using start_loop_services_ok [OF range] by blast
  obtain m where rd: "read_inittab (inittab_allocs boot) (inittab_file boot) empty_inittab = Some (Inr m)"
      "\<And>t. m = Some t \<Longrightarrow> good_tables t" using read_inittab_good [OF tab] by blast
  define res where "res = (if \<not> ok then Inr (False, s1)
    else case m of None \<Rightarrow> Inr (False, s1) | Some t \<Rightarrow> start_system t s1)"
  have up: "bring_up boot ?s = Some res"
    using sv(1) rd(1) by (cases ok) (auto simp: bring_up_def res_def split: option.split)
  have "settles res (\<lambda>(ok, s'). if ok then init_inv (s'\<lparr>should_exit := False\<rparr>) \<and> should_exit s' else handler_live s')"
  proof (cases "ok \<and> m \<noteq> None")
    case True
    then obtain t where "m = Some t" by auto
    with True sv(2) start_system_settles [of s1 t] rd(2) show ?thesis by (simp add: res_def)
  next
    case False
    then show ?thesis using sv(2) by (auto simp: res_def loop_ready_def handler_live_def split: option.split)
  qed
  moreover have "settles (if \<not> ok' then res_bind (remove_handler s') (\<lambda>_. Inr Exit_Failure)
      else res_bind (mainloop_start init_callbacks ws s')
        (\<lambda>r. case r of Waiting s2 \<Rightarrow> Inr (Running s2) | Returned _ s2 \<Rightarrow> wind_down boot umount k s2)) (main_ok boot umount k)"
    if "res = Inr (ok', s')"
      "if ok' then init_inv (s'\<lparr>should_exit := False\<rparr>) \<and> should_exit s' else handler_live s'" for ok' s'
  proof (cases ok')
    case True
    then show ?thesis using that loop_main_ok [of s' ws boot umount k] ord [of s'] up by simp
  next
    case False
    with that(2) have "\<exists>s2. remove_handler s' = Inr s2"
      by (auto simp: remove_handler_def handler_live_def mainloop_remove_signal_handler_def remove_object_def split: option.split)
    with False show ?thesis by (auto simp: main_ok_def)
  qed
  ultimately have "settles (res_bind res (\<lambda>(ok, s1). if \<not> ok then res_bind (remove_handler s1) (\<lambda>_. Inr Exit_Failure)
      else res_bind (mainloop_start init_callbacks ws s1)
        (\<lambda>r. case r of Waiting s2 \<Rightarrow> Inr (Running s2) | Returned _ s2 \<Rightarrow> wind_down boot umount k s2))) (main_ok boot umount k)"
    by (intro settles_bind) (elim settles_mono, clarsimp)
  with up show ?thesis by (simp add: main_from_def)
qed

section \<open>Results\<close>


definition sample_boot :: boot_env where
  "sample_boot = \<lparr>pid_one = True,
     mount_start = \<lparr>mkdir_answers = [], mount_answers = [], alloc_answers = [], mkdirs = [], calls = []\<rparr>, fstab = None, chdir_ok = True,
     inside_container = False, at_start = sample_child, inittab_file = Some (file_of (unlines sample_lines)),
     inittab_allocs = [], wd_period = Some 60, loop_allocs = [], loop_calls = [], fork_answers = [Some 1, Some 2],
     wait_answers = [], pipe_answers = [], mountinfo = None, umount_allocs = []\<rparr>"


end
