(* ===== verification/Startup.thy ===== *)
theory Startup
  imports Schedule Boot
begin

text \<open>
  From the text of the inittab to the first running processes: \<open>main\<close> with the event loop, the
  watchdog, the inittab reader, the safe mode placeholder and \<open>start_processes\<close> together, on a
  machine that has memory and descriptors to spare.
\<close>

section \<open>Plenty stays plenty\<close>

lemma plentiful_updates_init [simp]:
  "plentiful (s\<lparr>msh := d\<rparr>) = plentiful s" "plentiful (s\<lparr>inittab_entries := t\<rparr>) = plentiful s"
  by (simp_all add: plentiful_def)

lemma arm_watchdog_plenty:
  assumes "feed_period t \<noteq> 0" "plentiful s" "epollfd s \<noteq> None" "wd_frame s0 s"
  shows "\<exists>s'. arm_watchdog t s = Inr s' \<and> plentiful s' \<and> wd_frame s0 s'"
proof -
  let ?obj = "\<lambda>fd. \<lparr>cb_fd = fd, cb_type = CALLBACK_TIMEOUT, cb_fn = watchdog_feed_fn, period = timespec_of (feed_period t)\<rparr>"
  have valid: "valid_timespec (timespec_of (feed_period t))" by (simp add: valid_timespec_def timespec_of_def)
  obtain a s1 where s1: "add_object True ?obj s = Inr (Some a, s1)" "plentiful s1" "loop_frame s s1"
    using add_object_plenty [OF assms(2,3), of ?obj] by blast
  have "mainloop_add_timeout (feed_period t) watchdog_feed_fn s = Inr (Some a, s1)"
    using assms(1,3) by (simp add: mainloop_add_timeout_def valid s1(1))
  moreover have "wd_frame s0 (s1\<lparr>watchdog_timeout := Some a\<rparr>)"
    by (rule wd_frame_trans [OF assms(4)], rule wd_frame_trans [OF loop_frame_wd [OF s1(3)]]) simp
  ultimately show ?thesis using s1(2) by (simp add: arm_watchdog_def)
qed

lemma start_watchdog_plenty:
  assumes "plentiful s" "epollfd s \<noteq> None" and t: "\<And>t. get = Some t \<Longrightarrow> t \<le> 4772185"
  shows "\<exists>s'. start_watchdog get s = Inr s' \<and> plentiful s' \<and> wd_frame s s'"
proof -
  let ?t = "if (case get of Some t \<Rightarrow> 1 \<le> t | None \<Rightarrow> False) then the get else WATCHDOG_TIMEOUT_DEFAULT_SECS"
  let ?fd = "lowest_free (open_fds s)"
  let ?s2 = "s\<lparr>sys_ok := tl (sys_ok s), open_fds := ?fd # open_fds s\<rparr>\<lparr>watchdog_fd := int ?fd\<rparr>"
  have "1 \<le> ?t" "?t \<le> 4772185" using t by (auto simp: WATCHDOG_TIMEOUT_DEFAULT_SECS_def split: option.split)
  then have "0 < unat (feed_period ?t)" using feed_period_exact [of ?t] by simp
  then have nz: "feed_period ?t \<noteq> 0" by (metis unat_0 less_irrefl)
  note arm = arm_watchdog_plenty [OF nz, unfolded arm_watchdog_def]
  have p2: "plentiful ?s2" "epollfd ?s2 \<noteq> None" "wd_frame s ?s2"
    using plentiful_answers(4) [OF assms(1)] assms(2) by (simp_all add: wd_frame_def)
  have p3: "plentiful (snd (wd_send c ?s2))" "fst (wd_send c ?s2)" "epollfd (snd (wd_send c ?s2)) \<noteq> None"
      "wd_frame s (snd (wd_send c ?s2))" for c
    using plentiful_answers [OF p2(1)] p2(2) wd_frame_trans [OF p2(3) wd_frame_updates(3), of c]
    by (simp_all add: wd_send_def)
  show ?thesis
  proof (cases "case get of Some t \<Rightarrow> 1 \<le> t | None \<Rightarrow> False")
    case True
    then show ?thesis using arm [OF p2]
      by (simp only: start_watchdog_def plentiful_answers(3) [OF assms(1)] Let_def prod.case option.case if_True HOL.simp_thms if_False)
  next
    case False
    obtain s3 where s3: "wd_send (Set_Timeout ?t) ?s2 = (True, s3)"
      using p3(2) [of "Set_Timeout ?t"] by (metis prod.collapse)
    from arm [OF p3(1,3,4), of "Set_Timeout ?t", unfolded s3 snd_conv] False s3 show ?thesis
      by (simp only: start_watchdog_def plentiful_answers(3) [OF assms(1)] Let_def prod.case option.case if_True HOL.simp_thms if_False)
  qed
qed

lemma start_loop_services_plenty:
  assumes "set (loop_allocs boot) \<subseteq> {True}" "set (loop_calls boot) \<subseteq> {True}"
    and "\<And>t. wd_period boot = Some t \<Longrightarrow> t \<le> 4772185"
  shows "\<exists>s. start_loop_services boot (static_state boot fds) = Inr (True, s) \<and> plentiful s \<and> forks s = fork_answers boot"
proof -
  let ?s = "static_state boot fds"
  have p: "plentiful ?s" "epollfd ?s = None" "forks ?s = fork_answers boot" using assms(1,2) by (simp_all add: plentiful_def static_state_def)
  let ?s1 = "mainloop_set_post_iteration_callback (Some stage_maintenance_fn)
    (snd (sys_open ?s)\<lparr>epollfd := fst (sys_open ?s)\<rparr>)"
  have su: "mainloop_setup ?s = Inr (True, snd (sys_open ?s)\<lparr>epollfd := fst (sys_open ?s)\<rparr>)"
    using p by (simp add: mainloop_setup_def plentiful_answers(3))
  have s1: "plentiful ?s1" "epollfd ?s1 \<noteq> None" "forks ?s1 = fork_answers boot"
    using plentiful_answers(4) [OF p(1)] p(3)
    by (simp_all add: plentiful_answers(3) [OF p(1)] mainloop_set_post_iteration_callback_def)
  from add_object_plenty [OF s1(1,2)] s1(2) obtain a s2 where
    add: "mainloop_add_signal_handler signal_handler_fn ?s1 = Inr (Some a, s2)" "plentiful s2" "loop_frame ?s1 s2"
    unfolding mainloop_add_signal_handler_def by (metis (no_types, lifting))
  have "epollfd (s2\<lparr>msh := Some a\<rparr>) \<noteq> None" "plentiful (s2\<lparr>msh := Some a\<rparr>)" "forks s2 = fork_answers boot"
    using s1 add(2) loop_frame_eq [OF add(3), of epollfd] loop_frame_eq [OF add(3), of forks] by simp_all
  from start_watchdog_plenty [OF this(2,1), of "wd_period boot"] assms(3) obtain s3 where
    "start_watchdog (wd_period boot) (s2\<lparr>msh := Some a\<rparr>) = Inr s3" "plentiful s3" "wd_frame (s2\<lparr>msh := Some a\<rparr>) s3" by blast
  with wd_frame_eq [OF this(3), of forks] \<open>forks s2 = fork_answers boot\<close> su add(1) show ?thesis by (simp add: start_loop_services_def)
qed

section \<open>The first processes\<close>

lemma setup_safe_mode_plenty:
  assumes "plentiful s" "safe_mode_pipe_fd s = 0" "forks s = Some n # fs"
  shows "\<exists>s'. setup_safe_mode (Some e) s = Inr (True, s') \<and> set (alloc_ok s') \<subseteq> {True} \<and> forks s' = fs \<and>
    started s' = started s @ [(e, Suc n)]"
proof -
  obtain r w s1 where pp: "sys_pipe s = (Some (r, w), s1)" "plentiful s1" "forks s1 = forks s" "running_processes s1 = running_processes s"
    using plentiful_answers(1,4) [OF assms(1)] by (simp add: sys_pipe_def Let_def)
  from pp(2) have "set (alloc_ok s1) \<subseteq> {True}" by (simp add: plentiful_def)
  from alloc_process_plenty [OF this] obtain s2 where al: "alloc_process s1 = (Some (next_addr s1), s2)"
    "set (alloc_ok s2) \<subseteq> {True}" "forks s2 = forks s1" "running_processes s2 = running_processes s1" by blast
  with pp assms(2,3) show ?thesis
    by (simp add: setup_safe_mode_def sys_fork_def sys_close_def started_def)
qed

lemma start_system_starts:
  assumes ready: "loop_ready s" "plentiful s" and t: "good_tables t" "batch_spec (startup_list t) = (b, r)"
    and f: "forks s = Some n # map Some ns @ fs" "length ns = length b"
  shows "\<exists>s'. start_system t s = Inr (True, s') \<and> current_stage s' = STAGE_STARTUP \<and>
    started s' = (hd (safe_mode_entry t), Suc n) # zip b (map Suc ns) \<and> remaining s' = r \<and>
    pending_finish s' = of_nat (length (filter is_one_shot_entry b))"
proof -
  let ?s = "s\<lparr>inittab_entries := t\<rparr>"
  have tok: "tables_ok t" using t by (simp add: good_tables_def)
  then obtain e es where e: "safe_mode_entry t = e # es" "entry_type e = SAFE_MODE"
    by (cases "safe_mode_entry t") (auto simp: tables_ok_def)
  have idle: "idle ?s" using ready by (simp add: loop_ready_def idle_def)
  have core: "struct_core (if 0 < safe_mode_pipe_fd ?s then sys_close (safe_mode_pipe_fd ?s) ?s else ?s)"
    using loop_ready_core [OF ready(1) tok] idle by (simp add: idle_def)
  obtain s2 where s2: "setup_safe_mode (Some e) ?s = Inr (True, s2)" "set (alloc_ok s2) \<subseteq> {True}"
      "forks s2 = map Some ns @ fs" "started s2 = started ?s @ [(e, Suc n)]"
    using setup_safe_mode_plenty [of ?s n "map Some ns @ fs" e] ready(2) f(1) idle by (auto simp: idle_def)
  have keep: "struct_inv s2" "adds_placeholder ?s s2"
    using setup_safe_mode_core [OF core refl e(2)] s2(1) by simp_all
  let ?s3 = "s2\<lparr>current_stage := STAGE_STARTUP\<rparr>"
  have st: "struct_inv ?s3" "started ?s3 = [(e, Suc n)]" "remaining ?s3 = []" "pending_finish ?s3 = 0"
    using keep s2(4) idle by (simp_all add: struct_inv_unfold started_def idle_def adds_placeholder_def
        mainloop_ok_def typed_def refers_def handler_live_def quiet_def)
  have "\<exists>s'. start_processes (startup_list t) ?s3 = Inr (True, s') \<and> started s' = started ?s3 @ zip b (map Suc ns) \<and>
    remaining s' = r \<and> pending_finish s' = of_nat (length (filter is_one_shot_entry b)) \<and> current_stage s' = STAGE_STARTUP"
  proof (cases "startup_list t = []")
    case True
    with t(2) st(3,4) show ?thesis by (simp add: start_processes_def batch_spec_def)
  next
    case False
    have "sorted (map order (startup_list t))" using t(1) by (simp add: good_tables_def)
    from start_processes_batch [OF st(1) False this t(2), of ns fs] s2(2,3) f(2) obtain s' where
      s': "start_processes (startup_list t) ?s3 = Inr (True, s')" "started s' = started ?s3 @ zip b (map Suc ns)"
        "remaining s' = r" "pending_finish s' = of_nat (length (filter is_one_shot_entry b))" by auto
    have "current_stage s' = STAGE_STARTUP"
      using start_processes_keeps [OF st(1) False] s'(1) by (simp add: same_stage_def)
    with s' show ?thesis by blast
  qed
  with s2(1) st(2) e show ?thesis by (auto simp: start_system_def placeholder_entry_def Let_def)
qed

text \<open>\<open>main\<close> up to the first call of \<open>epoll_wait\<close>.\<close>

lemma main_waits:
  assumes "pid_one boot" "chdir_ok boot" "mount_mount_filesystems (fstab boot) (mount_start boot) = Inr (True, e)"
    and "inside_container boot \<or> fst (setup_console (at_start boot))"
    and "bring_up boot (static_state boot (boot_descriptors boot)) = Some (Inr (True, s))"
    and "epollfd s \<noteq> None" "should_exit s"
  shows "main boot umount k [] = Some (Inr (Running (s\<lparr>should_exit := False\<rparr>)))"
proof -
  obtain con c where c: "(if inside_container boot then (True, at_start boot) else setup_console (at_start boot)) = (con, c)"
    by (cases "if inside_container boot then (True, at_start boot) else setup_console (at_start boot)")
  with assms(4) have con by (cases "inside_container boot") auto
  moreover have "boot_descriptors boot = descriptors (early_setup c)" using c by (simp add: boot_descriptors_def)
  moreover have "mainloop_start init_callbacks [] s = Inr (Waiting (s\<lparr>should_exit := False\<rparr>))"
    using assms(6,7) by (auto simp: mainloop_start_def)
  ultimately show ?thesis using assms(1-3,5) c by (simp add: main_def main_from_def)
qed

lemma bring_up_starts:
  assumes tab: "well_separated ls" "inittab_spec ls = Some t" "inittab_file boot = Some (file_of (unlines ls))"
      "set (inittab_allocs boot) \<subseteq> {True}" "length ls < 2 ^ 32"
    and plenty: "set (loop_allocs boot) \<subseteq> {True}" "set (loop_calls boot) \<subseteq> {True}"
    and range: "\<And>t. wd_period boot = Some t \<Longrightarrow> t \<le> 4772185"
    and b: "batch_spec (startup_list t) = (b, r)" "fork_answers boot = Some n # map Some ns @ fs" "length ns = length b"
  shows "\<exists>s. bring_up boot (static_state boot fds) = Some (Inr (True, s)) \<and>
    init_inv (s\<lparr>should_exit := False\<rparr>) \<and> should_exit s \<and> current_stage s = STAGE_STARTUP \<and>
    started s = (hd (safe_mode_entry t), Suc n) # zip b (map Suc ns) \<and> remaining s = r \<and>
    pending_finish s = of_nat (length (filter is_one_shot_entry b))"
proof -
  from start_loop_services_plenty [OF plenty range] obtain s1 where
    s1: "start_loop_services boot (static_state boot fds) = Inr (True, s1)" "plentiful s1" "forks s1 = fork_answers boot" by blast
  then have ready: "loop_ready s1" using start_loop_services_ok [of boot fds] range by auto
  have t: "good_tables t" using inittab_spec_good [OF tab(2,5)] .
  from start_system_starts [OF ready s1(2) t b(1)] s1(3) b(2,3) obtain s where
    s: "start_system t s1 = Inr (True, s)" "current_stage s = STAGE_STARTUP" "remaining s = r"
      "started s = (hd (safe_mode_entry t), Suc n) # zip b (map Suc ns)"
      "pending_finish s = of_nat (length (filter is_one_shot_entry b))" by auto
  have "init_inv (s\<lparr>should_exit := False\<rparr>) \<and> should_exit s" using start_system_settles [OF ready t] s(1) by simp
  moreover have "bring_up boot (static_state boot fds) = Some (Inr (True, s))"
    using s1(1) s(1) read_inittab_spec [OF tab(1,4)] tab(2,3) by (simp add: bring_up_def)
  ultimately show ?thesis using s by blast
qed

section \<open>Results\<close>

text \<open>C2: from the inittab to the processes. On a machine where the file systems can be mounted, the
  console opened, and memory, descriptors and processes are to be had, \<open>main\<close> does start the
  system: it comes to wait for events with the invariants of init, and what it has forked is exactly
  the safe mode placeholder and then, in the stable order of the inittab, the startup entries up to
  the order of the first one-shot entry. The rest waits, and as many one-shot processes are counted
  as were started.\<close>

theorem main_starts_inittab:
  assumes "well_separated ls" "inittab_spec ls = Some t" "inittab_file boot = Some (file_of (unlines ls))"
      "set (inittab_allocs boot) \<subseteq> {True}" "length ls < 2 ^ 32"
    and "set (loop_allocs boot) \<subseteq> {True}" "set (loop_calls boot) \<subseteq> {True}"
      "\<And>t. wd_period boot = Some t \<Longrightarrow> t \<le> 4772185"
    and "batch_spec (startup_list t) = (b, r)" "fork_answers boot = Some n # map Some ns @ fs" "length ns = length b"
    and "pid_one boot" "chdir_ok boot" "mount_mount_filesystems (fstab boot) (mount_start boot) = Inr (True, e)"
      "inside_container boot \<or> fst (setup_console (at_start boot))"
  shows "\<exists>s. main boot umount k [] = Some (Inr (Running s)) \<and> init_inv s \<and> current_stage s = STAGE_STARTUP \<and>
    started s = (hd (safe_mode_entry t), Suc n) # zip b (map Suc ns) \<and> remaining s = r \<and>
    pending_finish s = of_nat (length (filter is_one_shot_entry b))"
proof -
  obtain s where s: "bring_up boot (static_state boot (boot_descriptors boot)) = Some (Inr (True, s))"
    "init_inv (s\<lparr>should_exit := False\<rparr>)" "should_exit s" "current_stage s = STAGE_STARTUP" "remaining s = r"
    "started s = (hd (safe_mode_entry t), Suc n) # zip b (map Suc ns)"
    "pending_finish s = of_nat (length (filter is_one_shot_entry b))"
    using bring_up_starts [OF assms(1-11), of "boot_descriptors boot"] by blast
  then have "epollfd s \<noteq> None" by (simp add: init_inv_def struct_inv_unfold)
  with main_waits [OF assms(12-15) s(1)] s show ?thesis
    by (intro exI [of _ "s\<lparr>should_exit := False\<rparr>"]) (simp add: started_def)
qed

theorem main_starts_inittab_witness:
  "\<exists>s. main (sample_boot\<lparr>fork_answers := [Some 1, Some 2, Some 3, Some 4]\<rparr>) (\<lambda>k p. (False, k)) () [] =
     Some (Inr (Running s)) \<and>
   map (\<lambda>(e, p). (process_name e, p)) (started s) = [(''/bin/s'', 2), (''/bin/b x'', 3), (''/bin/a'', 4), (''/bin/c'', 5)] \<and>
   remaining s = [] \<and> pending_finish s = 1"
proof -
  let ?boot = "sample_boot\<lparr>fork_answers := [Some 1, Some 2, Some 3, Some 4]\<rparr>"
  obtain t where t: "inittab_spec sample_lines = Some t" "safe_mode_entry t = [hd (safe_mode_entry t)]"
      "process_name (hd (safe_mode_entry t)) = ''/bin/s''" "map process_name (startup_list t) = [''/bin/b x'', ''/bin/a'', ''/bin/c'']"
      "snd (batch_spec (startup_list t)) = []" "fst (batch_spec (startup_list t)) = startup_list t"
      "length (filter is_one_shot_entry (startup_list t)) = 1"
  proof -
    have "case inittab_spec sample_lines of None \<Rightarrow> False | Some t \<Rightarrow>
      safe_mode_entry t = [hd (safe_mode_entry t)] \<and> process_name (hd (safe_mode_entry t)) = ''/bin/s'' \<and>
      map process_name (startup_list t) = [''/bin/b x'', ''/bin/a'', ''/bin/c''] \<and>
      snd (batch_spec (startup_list t)) = [] \<and> fst (batch_spec (startup_list t)) = startup_list t \<and>
      length (filter is_one_shot_entry (startup_list t)) = 1" by code_simp
    with that show ?thesis by (auto split: option.splits)
  qed
  have bs: "batch_spec (startup_list t) = (startup_list t, [])" using t(5,6) by (simp add: prod_eq_iff)
  have len: "length [2, 3, 4 :: nat] = length (startup_list t)" using arg_cong [OF t(4), of length] by simp
  have "case mount_mount_filesystems (fstab ?boot) (mount_start ?boot) of Inr (b, _) \<Rightarrow> b | _ \<Rightarrow> False"
    "fst (setup_console (at_start ?boot))" by code_simp+
  then obtain e where m: "mount_mount_filesystems (fstab ?boot) (mount_start ?boot) = Inr (True, e)"
    "inside_container ?boot \<or> fst (setup_console (at_start ?boot))" by (auto split: sum.splits prod.splits)
  have "\<exists>s. main ?boot (\<lambda>k p. (False, k)) () [] = Some (Inr (Running s)) \<and> init_inv s \<and> current_stage s = STAGE_STARTUP \<and>
      started s = (hd (safe_mode_entry t), Suc 1) # zip (startup_list t) (map Suc [2, 3, 4]) \<and> remaining s = [] \<and>
      pending_finish s = of_nat (length (filter is_one_shot_entry (startup_list t)))"
    by (rule main_starts_inittab [OF sample_lines_separated t(1) _ _ _ _ _ _ bs _ len _ _ m, where fs = "[]"])
      (simp_all add: sample_boot_def sample_lines_def)
  moreover have "map (\<lambda>(e, p). (process_name e, p)) (zip (startup_list t) ps) = zip (map process_name (startup_list t)) ps" for ps
    by (simp add: zip_map1)
  ultimately show ?thesis using t(3,4,7) by auto
qed

end
